(* ===== verification/Pintos_Prelude.thy ===== *)
theory Pintos_Prelude
  imports Main "HOL-Library.Word" "HOL-Library.Signed_Division" "HOL-Library.Monad_Syntax"
begin

text \<open>
  Shared vocabulary of the development.

  The kernel is C. A C function that can fail an \<open>ASSERT\<close>, call \<open>PANIC\<close>, dereference
  a null pointer or divide by zero is a function into \<open>option\<close>: \<open>None\<close> is a run that
  does not return. The \<open>do\<close> notation of \<open>option\<close> then reads like the statement
  sequence of the source, with the state passed explicitly.

  C arithmetic on \<open>int\<close> is done on the mathematical integers and brought back to 32
  bits by \<open>wrap32\<close>; division truncates towards zero (\<open>sdiv\<close>, \<open>smod\<close>). Unsigned
  quantities and bytes are words.
\<close>

type_synonym byte = "8 word"
type_synonym bytes = "byte list"
type_synonym u32 = "32 word"

section \<open>Assertions\<close>

definition ASSERT :: "bool \<Rightarrow> unit option" where
  "ASSERT b = (if b then Some () else None)"

lemma ASSERT_simps [simp]: "ASSERT True = Some ()" "ASSERT False = None"
  by (simp_all add: ASSERT_def)

lemma ASSERT_eq_Some [simp]: "ASSERT b = Some u \<longleftrightarrow> b"
  by (simp add: ASSERT_def)

lemma ASSERT_eq_None [simp]: "ASSERT b = None \<longleftrightarrow> \<not> b"
  by (simp add: ASSERT_def)

lemma bind_ASSERT [simp]: "(ASSERT b \<bind> f) = (if b then f () else None)"
  by (simp add: ASSERT_def)

section \<open>Lists\<close>

lemma in_set_tlD: "x \<in> set (tl xs) \<Longrightarrow> x \<in> set xs"
  by (cases xs) auto

section \<open>Signed 32-bit integers\<close>

definition wrap32 :: "int \<Rightarrow> int" where
  "wrap32 i = (i + 2 ^ 31) mod 2 ^ 32 - 2 ^ 31"

definition in_int32 :: "int \<Rightarrow> bool" where
  "in_int32 i \<longleftrightarrow> - (2 ^ 31) \<le> i \<and> i < 2 ^ 31"

lemma wrap32_id: "in_int32 i \<Longrightarrow> wrap32 i = i"
  by (simp add: wrap32_def in_int32_def)

lemma wrap32_range: "in_int32 (wrap32 i)"
proof -
  have "0 \<le> (i + 2 ^ 31) mod 2 ^ 32" "(i + 2 ^ 31) mod 2 ^ 32 < (2 ^ 32 :: int)"
    by simp_all
  then show ?thesis by (simp add: wrap32_def in_int32_def)
qed

lemma wrap32_idem [simp]: "wrap32 (wrap32 i) = wrap32 i"
  by (simp add: wrap32_id wrap32_range)

lemma wrap32_sint: "wrap32 (sint (w :: 32 word)) = sint w"
  by (rule wrap32_id) (use sint_greater_eq [of w] sint_lt [of w] in \<open>simp add: in_int32_def\<close>)

section \<open>Sizes and little-endian words\<close>

text \<open>\<open>size_t\<close> arithmetic is modulo \<open>2^32\<close>.\<close>

definition sz :: "nat \<Rightarrow> nat" where
  "sz n = n mod 2 ^ 32"

lemma sz_id: "n < 2 ^ 32 \<Longrightarrow> sz n = n"
  by (simp add: sz_def)

definition le32 :: "u32 \<Rightarrow> bytes" where
  "le32 w = [ucast w, ucast (drop_bit 8 w), ucast (drop_bit 16 w), ucast (drop_bit 24 w)]"

definition un_le32 :: "bytes \<Rightarrow> u32" where
  "un_le32 bs = ucast (bs ! 0) + 2 ^ 8 * ucast (bs ! 1) + 2 ^ 16 * ucast (bs ! 2) + 2 ^ 24 * ucast (bs ! 3)"

lemma length_le32 [simp]: "length (le32 w) = 4"
  by (simp add: le32_def)

lemma base256_sum:
  fixes x :: int
  assumes "x = 256 * a + r0" "a = 256 * b + r1" "b = 256 * c + r2"
  shows "r0 + 256 * r1 + 65536 * r2 + 16777216 * c = x"
  using assms by simp

lemma base256_digits:
  fixes x :: int
  assumes "0 \<le> x" "x < 2 ^ 32"
  shows "x mod 256 + 256 * (x div 256 mod 256) + 65536 * (x div 65536 mod 256)
    + 16777216 * (x div 16777216 mod 256) = x"
proof -
  have d: "x div 65536 = x div 256 div 256" "x div 16777216 = x div 256 div 256 div 256"
    by (simp_all add: zdiv_zmult2_eq [symmetric])
  have m: "x div 16777216 mod 256 = x div 16777216"
    using assms zdiv_mono1 [of x "2 ^ 32 - 1" 16777216]
    by (intro mod_pos_pos_trivial) (simp_all add: pos_imp_zdiv_nonneg_iff)
  show ?thesis unfolding m unfolding d
    by (rule base256_sum) (rule mult_div_mod_eq [symmetric])+
qed

lemma byte_digit:
  "(ucast (ucast (drop_bit k w) :: byte) :: u32) = word_of_int (uint w div 2 ^ k mod 256)"
proof -
  have "uint (ucast (drop_bit k w) :: byte) = uint w div 2 ^ k mod 256"
    by (subst unsigned_ucast_eq, subst unsigned_drop_bit_eq) (simp add: take_bit_eq_mod drop_bit_eq_div)
  then show ?thesis by (simp only: ucast_eq)
qed

lemma un_le32_le32 [simp]: "un_le32 (le32 w) = w"
proof -
  have u: "0 \<le> uint w" "uint w < 2 ^ 32"
    using uint_lt2p [of w] by simp_all
  have "un_le32 (le32 w) = word_of_int (uint w mod 256 + 256 * (uint w div 256 mod 256)
      + 65536 * (uint w div 65536 mod 256) + 16777216 * (uint w div 16777216 mod 256))"
    using byte_digit [of 0 w] byte_digit [of 8 w] byte_digit [of 16 w] byte_digit [of 24 w]
    by (simp only: un_le32_def le32_def nth_Cons_0 nth_Cons_numeral) simp
  then show ?thesis by (simp only: base256_digits [OF u] word_of_int_uint)
qed

end
