(* ===== verification/Std_Lib.thy ===== *)
theory Std_Lib
  imports Pintos_Prelude "HOL-Library.Multiset"
begin

text \<open>
  The utilities of \<open>lib/stdlib.c\<close>: \<open>atoi\<close>, heap sort and binary search, with the character classes of
  \<open>lib/ctype.h\<close>.

  An array of elements of \<open>size\<close> bytes is a list of elements, and the pointer to an element its index.
  \<open>compare\<close> is the caller's function, with \<open>aux\<close> applied. An access outside the array is \<open>None\<close>.
  The assertions that the pointers are not null and that \<open>size\<close> is positive have no counterpart on lists.
\<close>

section \<open>Character classes\<close>

definition islower :: "int \<Rightarrow> bool" where "islower c \<longleftrightarrow> 97 \<le> c \<and> c \<le> 122"
definition isupper :: "int \<Rightarrow> bool" where "isupper c \<longleftrightarrow> 65 \<le> c \<and> c \<le> 90"
definition isalpha :: "int \<Rightarrow> bool" where "isalpha c \<longleftrightarrow> islower c \<or> isupper c"
definition isdigit :: "int \<Rightarrow> bool" where "isdigit c \<longleftrightarrow> 48 \<le> c \<and> c \<le> 57"
definition isalnum :: "int \<Rightarrow> bool" where "isalnum c \<longleftrightarrow> isalpha c \<or> isdigit c"
definition isxdigit :: "int \<Rightarrow> bool" where "isxdigit c \<longleftrightarrow> isdigit c \<or> (97 \<le> c \<and> c \<le> 102) \<or> (65 \<le> c \<and> c \<le> 70)"
definition isspace :: "int \<Rightarrow> bool" where "isspace c \<longleftrightarrow> c = 32 \<or> c = 12 \<or> c = 10 \<or> c = 13 \<or> c = 9 \<or> c = 11"
definition isblank :: "int \<Rightarrow> bool" where "isblank c \<longleftrightarrow> c = 32 \<or> c = 9"
definition isgraph :: "int \<Rightarrow> bool" where "isgraph c \<longleftrightarrow> 32 < c \<and> c < 127"
definition isprint :: "int \<Rightarrow> bool" where "isprint c \<longleftrightarrow> 32 \<le> c \<and> c < 127"
definition iscntrl :: "int \<Rightarrow> bool" where "iscntrl c \<longleftrightarrow> (0 \<le> c \<and> c < 32) \<or> c = 127"
definition isascii :: "int \<Rightarrow> bool" where "isascii c \<longleftrightarrow> 0 \<le> c \<and> c < 128"
definition ispunct :: "int \<Rightarrow> bool" where "ispunct c \<longleftrightarrow> isprint c \<and> \<not> isalnum c \<and> \<not> isspace c"
definition tolower :: "int \<Rightarrow> int" where "tolower c = (if isupper c then c - 65 + 97 else c)"
definition toupper :: "int \<Rightarrow> int" where "toupper c = (if islower c then c - 97 + 65 else c)"

section \<open>\<open>atoi\<close>\<close>

text \<open>A string is the list of its characters before the terminator. \<open>char\<close> is signed; \<open>isspace\<close> gets it as unsigned.\<close>

fun skip_space :: "bytes \<Rightarrow> bytes" where
  "skip_space [] = []"
| "skip_space (c # s) = (if isspace (uint c) then skip_space s else c # s)"

fun parse_digits :: "int \<Rightarrow> bytes \<Rightarrow> int" where
  "parse_digits value [] = value"
| "parse_digits value (c # s) = (if isdigit (sint c) then parse_digits (wrap32 (value * 10 - (sint c - 48))) s else value)"

definition atoi :: "bytes \<Rightarrow> int" where
  "atoi s = (let s = skip_space s;
     negative = (s \<noteq> [] \<and> hd s = 45);
     s = (if s \<noteq> [] \<and> (hd s = 43 \<or> hd s = 45) then tl s else s);
     value = parse_digits 0 s
     in if \<not> negative then wrap32 (- value) else value)"

section \<open>Heap sort\<close>

text \<open>Indexes start at 1.\<close>

definition do_swap :: "'a list \<Rightarrow> nat \<Rightarrow> nat \<Rightarrow> 'a list option" where
  "do_swap a i j = do {
     ASSERT (1 \<le> i \<and> i \<le> length a \<and> 1 \<le> j \<and> j \<le> length a);
     Some (a[i - 1 := a ! (j - 1), j - 1 := a ! (i - 1)]) }"

definition do_compare :: "('a \<Rightarrow> 'a \<Rightarrow> int) \<Rightarrow> 'a list \<Rightarrow> nat \<Rightarrow> nat \<Rightarrow> int option" where
  "do_compare compare a i j = do {
     ASSERT (1 \<le> i \<and> i \<le> length a \<and> 1 \<le> j \<and> j \<le> length a);
     Some (compare (a ! (i - 1)) (a ! (j - 1))) }"

definition pick :: "('a \<Rightarrow> 'a \<Rightarrow> int) \<Rightarrow> 'a list \<Rightarrow> nat \<Rightarrow> nat \<Rightarrow> nat \<Rightarrow> nat option" where
  "pick compare a cnt child mx =
     (if child \<le> cnt then do { c \<leftarrow> do_compare compare a child mx; Some (if c > 0 then child else mx) }
      else Some mx)"

partial_function (option) heapify :: "('a \<Rightarrow> 'a \<Rightarrow> int) \<Rightarrow> 'a list \<Rightarrow> nat \<Rightarrow> nat \<Rightarrow> 'a list option" where
  "heapify compare a i cnt = do {
     mx \<leftarrow> pick compare a cnt (sz (2 * i)) i;
     mx \<leftarrow> pick compare a cnt (sz (2 * i + 1)) mx;
     if mx = i then Some a
     else do {
       a \<leftarrow> do_swap a i mx;
       heapify compare a mx cnt } }"

fun build_loop :: "('a \<Rightarrow> 'a \<Rightarrow> int) \<Rightarrow> nat \<Rightarrow> nat \<Rightarrow> 'a list \<Rightarrow> 'a list option" where
  "build_loop compare cnt 0 a = Some a"
| "build_loop compare cnt (Suc i) a = do { a \<leftarrow> heapify compare a (Suc i) cnt; build_loop compare cnt i a }"

function sort_heap_loop :: "('a \<Rightarrow> 'a \<Rightarrow> int) \<Rightarrow> nat \<Rightarrow> 'a list \<Rightarrow> 'a list option" where
  "sort_heap_loop compare i a =
     (if i > 1 then do {
        a \<leftarrow> do_swap a 1 i;
        a \<leftarrow> heapify compare a 1 (i - 1);
        sort_heap_loop compare (i - 1) a }
      else Some a)"
  by pat_completeness auto
termination
  by (relation "measure (\<lambda>(compare, i, a). i)") auto

definition sort_array :: "('a \<Rightarrow> 'a \<Rightarrow> int) \<Rightarrow> 'a list \<Rightarrow> nat \<Rightarrow> 'a list option" where
  "sort_array compare a cnt = do {
     a \<leftarrow> build_loop compare cnt (cnt div 2) a;
     sort_heap_loop compare cnt a }"

text \<open>\<open>compare_thunk\<close> calls the function that \<open>aux\<close> points to; with \<open>aux\<close> applied, it is that function.\<close>

definition compare_thunk :: "('a \<Rightarrow> 'b \<Rightarrow> int) \<Rightarrow> 'a \<Rightarrow> 'b \<Rightarrow> int" where
  "compare_thunk compare a b = compare a b"

definition qsort :: "('a \<Rightarrow> 'a \<Rightarrow> int) \<Rightarrow> 'a list \<Rightarrow> nat \<Rightarrow> 'a list option" where
  "qsort compare a cnt = sort_array (compare_thunk compare) a cnt"

declare sort_heap_loop.simps [simp del]

section \<open>Binary search\<close>

text \<open>The result is the index of a match, or \<open>None\<close> for the null pointer.\<close>

function search_loop :: "('k \<Rightarrow> 'a \<Rightarrow> int) \<Rightarrow> 'k \<Rightarrow> 'a list \<Rightarrow> nat \<Rightarrow> nat \<Rightarrow> nat option option" where
  "search_loop compare key a first fin =
     (if first < fin then do {
        let middle = first + (fin - first) div 2;
        ASSERT (middle < length a);
        let cmp = compare key (a ! middle);
        if cmp < 0 then search_loop compare key a first middle
        else if cmp > 0 then search_loop compare key a (middle + 1) fin
        else Some (Some middle) }
      else Some None)"
  by pat_completeness auto
termination
  by (relation "measure (\<lambda>(compare, key, a, first, fin). fin - first)") auto

declare search_loop.simps [simp del]

definition binary_search :: "('k \<Rightarrow> 'a \<Rightarrow> int) \<Rightarrow> 'k \<Rightarrow> 'a list \<Rightarrow> nat \<Rightarrow> nat option option" where
  "binary_search compare key a cnt = search_loop compare key a 0 cnt"

definition bsearch :: "('k \<Rightarrow> 'a \<Rightarrow> int) \<Rightarrow> 'k \<Rightarrow> 'a list \<Rightarrow> nat \<Rightarrow> nat option option" where
  "bsearch compare key a cnt = binary_search (compare_thunk compare) key a cnt"

section \<open>Correctness of heap sort\<close>

text \<open>The element with index \<open>i\<close>, and the heap condition at \<open>j\<close>.\<close>

definition el :: "'a list \<Rightarrow> nat \<Rightarrow> 'a" where
  "el a i = a ! (i - 1)"

definition heap_at :: "('a \<Rightarrow> 'a \<Rightarrow> int) \<Rightarrow> 'a list \<Rightarrow> nat \<Rightarrow> nat \<Rightarrow> bool" where
  "heap_at compare a n j \<longleftrightarrow> (2 * j \<le> n \<longrightarrow> compare (el a (2 * j)) (el a j) \<le> 0) \<and> (2 * j + 1 \<le> n \<longrightarrow> compare (el a (2 * j + 1)) (el a j) \<le> 0)"

definition ordering_fn :: "('a \<Rightarrow> 'a \<Rightarrow> int) \<Rightarrow> bool" where
  "ordering_fn compare \<longleftrightarrow> (\<forall>x y. compare x y \<le> 0 \<or> compare y x \<le> 0) \<and> (\<forall>x y z. compare x y \<le> 0 \<longrightarrow> compare y z \<le> 0 \<longrightarrow> compare x z \<le> 0)"

lemma ordering_refl: "ordering_fn compare \<Longrightarrow> compare x x \<le> 0"
  by (auto simp: ordering_fn_def)

lemma ordering_trans: "ordering_fn compare \<Longrightarrow> compare x y \<le> 0 \<Longrightarrow> compare y z \<le> 0 \<Longrightarrow> compare x z \<le> 0"
  unfolding ordering_fn_def by blast

lemma ordering_flip: "ordering_fn compare \<Longrightarrow> \<not> compare x y \<le> 0 \<Longrightarrow> compare y x \<le> 0"
  unfolding ordering_fn_def by blast

definition swapped :: "'a list \<Rightarrow> nat \<Rightarrow> nat \<Rightarrow> 'a list" where
  "swapped a i j = a[i - 1 := a ! (j - 1), j - 1 := a ! (i - 1)]"

lemma do_swap_eq: "1 \<le> i \<Longrightarrow> i \<le> length a \<Longrightarrow> 1 \<le> j \<Longrightarrow> j \<le> length a \<Longrightarrow> do_swap a i j = Some (swapped a i j)"
  by (simp add: do_swap_def swapped_def)

lemma el_swapped:
  assumes "1 \<le> i" "i \<le> length a" "1 \<le> j" "j \<le> length a" "1 \<le> m"
  shows "el (swapped a i j) m = (if m = i then el a j else if m = j then el a i else el a m)"
  using assms by (auto simp: el_def swapped_def nth_list_update)

lemma length_swapped [simp]: "length (swapped a i j) = length a"
  by (simp add: swapped_def)

lemma mset_swapped:
  assumes "1 \<le> i" "i \<le> length a" "1 \<le> j" "j \<le> length a"
  shows "mset (swapped a i j) = mset a"
  using assms by (simp add: swapped_def mset_swap)

text \<open>The step of \<open>heapify\<close> finds the largest of an element and its children.\<close>

lemma pick_eq:
  assumes "1 \<le> child" "cnt \<le> length a" "1 \<le> mx" "mx \<le> length a"
  shows "pick compare a cnt child mx = Some (if child \<le> cnt \<and> compare (el a child) (el a mx) > 0 then child else mx)"
  using assms by (simp add: pick_def do_compare_def el_def)

definition largest :: "('a \<Rightarrow> 'a \<Rightarrow> int) \<Rightarrow> 'a list \<Rightarrow> nat \<Rightarrow> nat \<Rightarrow> nat" where
  "largest compare a n i = (let mx = (if 2 * i \<le> n \<and> compare (el a (2 * i)) (el a i) > 0 then 2 * i else i)
     in if 2 * i + 1 \<le> n \<and> compare (el a (2 * i + 1)) (el a mx) > 0 then 2 * i + 1 else mx)"

lemma heapify_step:
  assumes "1 \<le> i" "i \<le> n" "n \<le> length a" "n < 2 ^ 31"
  shows "heapify compare a i n =
    (if largest compare a n i = i then Some a else heapify compare (swapped a i (largest compare a n i)) (largest compare a n i) n)"
proof -
  have z: "sz (2 * i) = 2 * i" "sz (2 * i + 1) = 2 * i + 1" using assms by (simp_all add: sz_def)
  let ?m = "if 2 * i \<le> n \<and> compare (el a (2 * i)) (el a i) > 0 then 2 * i else i"
  have p: "pick compare a n (2 * i) i = Some ?m" using assms by (intro pick_eq) auto
  have m: "1 \<le> ?m" "?m \<le> length a" using assms by auto
  have q: "pick compare a n (2 * i + 1) ?m = Some (largest compare a n i)"
    using pick_eq [OF _ assms(3) m, of "2 * i + 1" compare] by (simp add: largest_def Let_def)
  have l: "1 \<le> largest compare a n i" "largest compare a n i \<le> n" using assms by (auto simp: largest_def Let_def)
  have "heapify compare a i n = (if largest compare a n i = i then Some a else do { b \<leftarrow> do_swap a i (largest compare a n i); heapify compare b (largest compare a n i) n })"
    using p q z by (subst heapify.simps) simp
  then show ?thesis using l assms by (simp add: do_swap_eq)
qed

lemma largest_max:
  assumes O: "ordering_fn compare" and n: "largest compare a n i = m"
  shows "m = i \<or> m = 2 * i \<or> m = 2 * i + 1" "i \<le> n \<Longrightarrow> m \<le> n" "compare (el a i) (el a m) \<le> 0"
    "2 * i \<le> n \<Longrightarrow> compare (el a (2 * i)) (el a m) \<le> 0" "2 * i + 1 \<le> n \<Longrightarrow> compare (el a (2 * i + 1)) (el a m) \<le> 0"
proof -
  show "m = i \<or> m = 2 * i \<or> m = 2 * i + 1" "i \<le> n \<Longrightarrow> m \<le> n" using n by (auto simp: largest_def Let_def split: if_splits)
  have r: "compare x x \<le> 0" "\<not> compare x y > 0 \<Longrightarrow> compare x y \<le> 0" "compare x y > 0 \<Longrightarrow> compare y x \<le> 0" for x y
    using ordering_refl [OF O] ordering_flip [OF O, of x y] by auto
  have t: "compare x y \<le> 0 \<Longrightarrow> compare y z \<le> 0 \<Longrightarrow> compare x z \<le> 0" for x y z by (rule ordering_trans [OF O])
  show "compare (el a i) (el a m) \<le> 0" "2 * i \<le> n \<Longrightarrow> compare (el a (2 * i)) (el a m) \<le> 0" "2 * i + 1 \<le> n \<Longrightarrow> compare (el a (2 * i + 1)) (el a m) \<le> 0"
    using n r t [of "el a i" "el a (2 * i)" "el a (2 * i + 1)"] t [of "el a (2 * i)" "el a i" "el a (2 * i + 1)"]
    by (auto simp: largest_def Let_def split: if_splits)
qed

lemma heapify_ok:
  assumes O: "ordering_fn compare" and b: "1 \<le> lo" "lo \<le> i" "i \<le> n" "n \<le> length a" "n < 2 ^ 31"
    and h: "\<forall>j \<ge> lo. j \<noteq> i \<longrightarrow> heap_at compare a n j"
    and p: "2 * lo \<le> i \<Longrightarrow> \<forall>c. c \<le> n \<longrightarrow> c = 2 * i \<or> c = 2 * i + 1 \<longrightarrow> compare (el a c) (el a (i div 2)) \<le> 0"
  shows "\<exists>a'. heapify compare a i n = Some a' \<and> (\<forall>j \<ge> lo. heap_at compare a' n j) \<and> mset a' = mset a \<and> (\<forall>m > n. el a' m = el a m)"
  using b h p
proof (induction "n - i" arbitrary: a i rule: less_induct)
  case less
  define m where "m = largest compare a n i"
  note l = largest_max [OF O m_def [symmetric]]
  have i1: "1 \<le> i" using less.prems(1,2) by simp
  note st = heapify_step [OF i1 less.prems(3-5), of compare, folded m_def]
  show ?case
  proof (cases "m = i")
    case True
    then have "heap_at compare a n i" using l(4,5) by (simp add: heap_at_def)
    then show ?thesis using st True less.prems(6) by (intro exI [of _ a]) auto
  next
    case False
    have m: "m = 2 * i \<or> m = 2 * i + 1" "m \<le> n" "i < m" "m div 2 = i" using l(1,2) False less.prems(3) i1 by auto
    let ?a = "swapped a i m"
    have e: "el ?a x = (if x = i then el a m else if x = m then el a i else el a x)" if "1 \<le> x" for x
      using el_swapped [of i a m x] that i1 m less.prems(3,4) by auto
    have "\<exists>a'. heapify compare ?a m n = Some a' \<and> (\<forall>j \<ge> lo. heap_at compare a' n j) \<and> mset a' = mset ?a \<and> (\<forall>x > n. el a' x = el ?a x)"
    proof (rule less.hyps)
      show "n - m < n - i" using m by simp
      show "1 \<le> lo" "lo \<le> m" "m \<le> n" "n \<le> length ?a" "n < 2 ^ 31" using less.prems m by auto
      show "\<forall>j \<ge> lo. j \<noteq> m \<longrightarrow> heap_at compare ?a n j"
      proof (intro allI impI)
        fix j assume j: "lo \<le> j" "j \<noteq> m"
        have j1: "1 \<le> j" "1 \<le> 2 * j" "1 \<le> 2 * j + 1" using j less.prems(1) by auto
        show "heap_at compare ?a n j"
        proof (cases "j = i")
          case True
          then show ?thesis using l(3,4,5) e [OF j1(1)] e [OF j1(2)] e [OF j1(3)] m(1) i1 by (auto simp: heap_at_def)
        next
          case ji: False
          then have hj: "heap_at compare a n j" using less.prems(6) j(1) by blast
          have c: "compare (el ?a c) (el a j) \<le> 0" if "c \<le> n" "c = 2 * j \<or> c = 2 * j + 1" for c
          proof (cases "c = i")
            case True
            then have "j = i div 2" "2 * lo \<le> i" using that(2) j(1) by auto
            then have "compare (el a m) (el a j) \<le> 0" using less.prems(7) m by blast
            then show ?thesis using True e [of c] i1 by simp
          next
            case False
            moreover have "c \<noteq> m" using that(2) m(1) ji by arith
            ultimately show ?thesis using hj that e [of c] j1 by (auto simp: heap_at_def)
          qed
          show ?thesis using c [of "2 * j"] c [of "2 * j + 1"] e [OF j1(1)] ji j(2) by (auto simp: heap_at_def)
        qed
      qed
      show "\<forall>c. c \<le> n \<longrightarrow> c = 2 * m \<or> c = 2 * m + 1 \<longrightarrow> compare (el ?a c) (el ?a (m div 2)) \<le> 0"
      proof (intro allI impI)
        fix c assume c: "c \<le> n" "c = 2 * m \<or> c = 2 * m + 1"
        have "heap_at compare a n m" using less.prems(2,6) m(3) False by simp
        then have "compare (el a c) (el a m) \<le> 0" using c by (auto simp: heap_at_def)
        moreover have "c \<noteq> i" "c \<noteq> m" "1 \<le> c" using c m i1 by auto
        ultimately show "compare (el ?a c) (el ?a (m div 2)) \<le> 0" using e [of c] e [of i] i1 m(4) by simp
      qed
    qed
    then obtain a' where a': "heapify compare ?a m n = Some a'" "\<forall>j \<ge> lo. heap_at compare a' n j" "mset a' = mset ?a" "\<forall>x > n. el a' x = el ?a x" by blast
    have "mset ?a = mset a" using i1 m less.prems(3,4) by (intro mset_swapped) auto
    moreover have "el ?a x = el a x" if "x > n" for x using e [of x] that m(2,3) by simp
    ultimately show ?thesis using st False a' by (intro exI [of _ a']) auto
  qed
qed

lemma same_front:
  assumes "mset b = mset a" "\<forall>m > n. el b m = el a m"
  shows "mset (take n b) = mset (take n a)"
proof -
  have l: "length b = length a" using assms(1) by (rule mset_eq_length)
  have "drop n b = drop n a"
  proof (rule nth_equalityI)
    fix k assume "k < length (drop n b)"
    then show "drop n b ! k = drop n a ! k" using l assms(2) [rule_format, of "n + k + 1"] by (simp add: el_def)
  qed (simp add: l)
  moreover have "mset b = mset (take n b) + mset (drop n b)" "mset a = mset (take n a) + mset (drop n a)"
    by (metis append_take_drop_id mset_append)+
  ultimately show ?thesis using assms(1) by simp
qed

lemma front_member:
  assumes "mset (take n b) = mset (take n a)" "1 \<le> x" "x \<le> n" "n \<le> length b"
  shows "\<exists>y. 1 \<le> y \<and> y \<le> n \<and> y \<le> length a \<and> el b x = el a y"
proof -
  have "el b x = take n b ! (x - 1)" "x - 1 < length (take n b)" using assms by (auto simp: el_def)
  then have "el b x \<in> set (take n b)" by (metis nth_mem)
  then have "el b x \<in> set (take n a)" using assms(1) by (metis set_mset_mset)
  then obtain k where "k < length (take n a)" "take n a ! k = el b x" by (auto simp: in_set_conv_nth)
  then show ?thesis by (intro exI [of _ "k + 1"]) (auto simp: el_def)
qed

lemma build_ok:
  assumes "ordering_fn compare" "i \<le> cnt" "cnt \<le> length a" "cnt < 2 ^ 31" "\<forall>j > i. heap_at compare a cnt j"
  shows "\<exists>a'. build_loop compare cnt i a = Some a' \<and> (\<forall>j \<ge> 1. heap_at compare a' cnt j) \<and> mset a' = mset a \<and> (\<forall>m > cnt. el a' m = el a m)"
  using assms(2-5)
proof (induction i arbitrary: a)
  case 0
  then show ?case by auto
next
  case (Suc i)
  have "\<exists>b. heapify compare a (Suc i) cnt = Some b \<and> (\<forall>j \<ge> Suc i. heap_at compare b cnt j) \<and> mset b = mset a \<and> (\<forall>m > cnt. el b m = el a m)"
    using Suc.prems by (intro heapify_ok [OF assms(1)]) auto
  then obtain b where b: "heapify compare a (Suc i) cnt = Some b" "\<forall>j \<ge> Suc i. heap_at compare b cnt j" "mset b = mset a" "\<forall>m > cnt. el b m = el a m" by blast
  have "length b = length a" using b(3) by (rule mset_eq_length)
  then have "\<exists>a'. build_loop compare cnt i b = Some a' \<and> (\<forall>j \<ge> 1. heap_at compare a' cnt j) \<and> mset a' = mset b \<and> (\<forall>m > cnt. el a' m = el b m)"
    using Suc.prems b(2) by (intro Suc.IH) auto
  then show ?case using b by auto
qed

lemma heap_top:
  assumes O: "ordering_fn compare" and h: "\<forall>j \<ge> 1. heap_at compare a n j"
  shows "1 \<le> x \<Longrightarrow> x \<le> n \<Longrightarrow> compare (el a x) (el a 1) \<le> 0"
proof (induction x rule: less_induct)
  case (less x)
  show ?case
  proof (cases "x = 1")
    case True
    then show ?thesis using ordering_refl [OF O] by simp
  next
    case False
    let ?p = "x div 2"
    have p: "1 \<le> ?p" "?p < x" "x = 2 * ?p \<or> x = 2 * ?p + 1" using less.prems False by auto
    have "heap_at compare a n ?p" using h p(1) by blast
    then have "compare (el a x) (el a ?p) \<le> 0" using p(3) less.prems(2) by (auto simp: heap_at_def)
    moreover have "compare (el a ?p) (el a 1) \<le> 0" using less.IH [of ?p] p less.prems(2) by simp
    ultimately show ?thesis by (rule ordering_trans [OF O])
  qed
qed

text \<open>Sorted from \<open>i\<close> on, and no smaller than what is before.\<close>

definition sorted_from :: "('a \<Rightarrow> 'a \<Rightarrow> int) \<Rightarrow> 'a list \<Rightarrow> nat \<Rightarrow> bool" where
  "sorted_from compare a i \<longleftrightarrow> (\<forall>x y. 1 \<le> x \<longrightarrow> x < y \<longrightarrow> i < y \<longrightarrow> y \<le> length a \<longrightarrow> compare (el a x) (el a y) \<le> 0)"

lemma sort_heap_loop_ok:
  assumes O: "ordering_fn compare" and "i \<le> length a" "i < 2 ^ 31" "\<forall>j \<ge> 1. heap_at compare a i j" "sorted_from compare a i"
  shows "\<exists>a'. sort_heap_loop compare i a = Some a' \<and> mset a' = mset a \<and> sorted_from compare a' 0"
  using assms(2-5)
proof (induction i arbitrary: a)
  case 0
  then show ?case by (simp add: sort_heap_loop.simps)
next
  case (Suc i)
  show ?case
  proof (cases "i = 0")
    case True
    then show ?thesis using Suc.prems by (intro exI [of _ a]) (auto simp: sort_heap_loop.simps sorted_from_def)
  next
    case False
    let ?b = "swapped a 1 (Suc i)"
    have b: "do_swap a 1 (Suc i) = Some ?b" "mset ?b = mset a" using Suc.prems(1) do_swap_eq [of 1 a "Suc i"] mset_swapped [of 1 a "Suc i"] by auto
    have e: "el ?b x = (if x = 1 then el a (Suc i) else if x = Suc i then el a 1 else el a x)" if "1 \<le> x" for x
      using el_swapped [of 1 a "Suc i" x] that Suc.prems(1) by auto
    have "\<exists>c. heapify compare ?b 1 i = Some c \<and> (\<forall>j \<ge> 1. heap_at compare c i j) \<and> mset c = mset ?b \<and> (\<forall>m > i. el c m = el ?b m)"
    proof (rule heapify_ok [OF O])
      show "\<forall>j \<ge> 1. j \<noteq> 1 \<longrightarrow> heap_at compare ?b i j"
      proof (intro allI impI)
        fix j :: nat assume j: "1 \<le> j" "j \<noteq> 1"
        have "heap_at compare a (Suc i) j" using Suc.prems(3) j by blast
        then show "heap_at compare ?b i j" using j e [of j] e [of "2 * j"] e [of "2 * j + 1"] by (auto simp: heap_at_def)
      qed
    qed (use False Suc.prems in auto)
    then obtain c where c: "heapify compare ?b 1 i = Some c" "\<forall>j \<ge> 1. heap_at compare c i j" "mset c = mset ?b" "\<forall>m > i. el c m = el ?b m" by blast
    have l: "length c = length a" using c(3) b(2) by (metis mset_eq_length)
    have top: "compare (el ?b y) (el a 1) \<le> 0" if "1 \<le> y" "y \<le> i" for y
      using that e [of y] heap_top [OF O Suc.prems(3), of "Suc i"] heap_top [OF O Suc.prems(3), of y] by auto
    have "sorted_from compare c i" unfolding sorted_from_def
    proof (intro allI impI)
      fix x y assume x: "1 \<le> x" "x < y" "i < y" "y \<le> length c"
      have ey: "el c y = el ?b y" using c(4) x(3) by blast
      show "compare (el c x) (el c y) \<le> 0"
      proof (cases "x \<le> i")
        case True
        obtain z where z: "1 \<le> z" "z \<le> i" "el c x = el ?b z"
          using front_member [OF same_front [OF c(3,4)] x(1) True] Suc.prems(1) l by auto
        show ?thesis
        proof (cases "y = Suc i")
          case True
          then show ?thesis using z top ey e [of y] False by simp
        next
          case ny: False
          have "el ?b z = el a (if z = 1 then Suc i else z)" using e [of z] z by auto
          moreover have "compare (el a (if z = 1 then Suc i else z)) (el a y) \<le> 0"
            using Suc.prems(4) z x l ny unfolding sorted_from_def by auto
          ultimately show ?thesis using z(3) ey e [of y] x ny False by simp
        qed
      next
        case xi: False
        then have "el c x = el ?b x" using c(4) by simp
        moreover have "compare (el ?b x) (el ?b y) \<le> 0"
          using Suc.prems(4) x l xi e [of x] e [of y] False unfolding sorted_from_def by auto
        ultimately show ?thesis using ey by simp
      qed
    qed
    then have "\<exists>a'. sort_heap_loop compare i c = Some a' \<and> mset a' = mset c \<and> sorted_from compare a' 0"
      using Suc.prems c(2) l by (intro Suc.IH) auto
    then show ?thesis using b c False by (subst sort_heap_loop.simps) auto
  qed
qed

lemma sort_array_ok:
  assumes "ordering_fn compare" "length a < 2 ^ 31"
  shows "\<exists>a'. sort_array compare a (length a) = Some a' \<and> mset a' = mset a \<and> sorted_wrt (\<lambda>x y. compare x y \<le> 0) a'"
proof -
  let ?n = "length a"
  have "\<exists>b. build_loop compare ?n (?n div 2) a = Some b \<and> (\<forall>j \<ge> 1. heap_at compare b ?n j) \<and> mset b = mset a \<and> (\<forall>m > ?n. el b m = el a m)"
    using assms(2) by (intro build_ok [OF assms(1)]) (auto simp: heap_at_def)
  then obtain b where b: "build_loop compare ?n (?n div 2) a = Some b" "\<forall>j \<ge> 1. heap_at compare b ?n j" "mset b = mset a" by blast
  have l: "length b = ?n" using b(3) by (rule mset_eq_length)
  have "\<exists>a'. sort_heap_loop compare ?n b = Some a' \<and> mset a' = mset b \<and> sorted_from compare a' 0"
    using b(2) l assms(2) by (intro sort_heap_loop_ok [OF assms(1)]) (auto simp: sorted_from_def)
  then obtain a' where a': "sort_heap_loop compare ?n b = Some a'" "mset a' = mset b" "sorted_from compare a' 0" by blast
  have "sorted_wrt (\<lambda>x y. compare x y \<le> 0) a'" unfolding sorted_wrt_iff_nth_less
  proof (intro allI impI)
    fix i j assume "i < j" "j < length a'"
    then show "compare (a' ! i) (a' ! j) \<le> 0" using a'(3) [unfolded sorted_from_def, rule_format, of "i + 1" "j + 1"] by (simp add: el_def)
  qed
  then show ?thesis using a' b by (simp add: sort_array_def)
qed

section \<open>Correctness of binary search\<close>

text \<open>The array is sorted with respect to the key: smaller elements first, then matches, then larger elements.\<close>

definition sorted_for :: "('k \<Rightarrow> 'a \<Rightarrow> int) \<Rightarrow> 'k \<Rightarrow> 'a list \<Rightarrow> bool" where
  "sorted_for compare key a \<longleftrightarrow> sorted_wrt (\<lambda>x y. (compare key x < 0 \<longrightarrow> compare key y < 0) \<and> (compare key y > 0 \<longrightarrow> compare key x > 0)) a"

lemma sorted_forD:
  assumes "sorted_for compare key a" "i \<le> j" "j < length a"
  shows "compare key (a ! i) < 0 \<Longrightarrow> compare key (a ! j) < 0" "compare key (a ! j) > 0 \<Longrightarrow> compare key (a ! i) > 0"
proof -
  have "(compare key (a ! i) < 0 \<longrightarrow> compare key (a ! j) < 0) \<and> (compare key (a ! j) > 0 \<longrightarrow> compare key (a ! i) > 0)"
  proof (cases "i = j")
    case False
    then have "i < j" using assms(2) by simp
    from sorted_wrt_nth_less [OF assms(1) [unfolded sorted_for_def] this assms(3)] show ?thesis .
  qed simp
  then show "compare key (a ! i) < 0 \<Longrightarrow> compare key (a ! j) < 0" "compare key (a ! j) > 0 \<Longrightarrow> compare key (a ! i) > 0" by blast+
qed

lemma search_loop_ok:
  assumes so: "sorted_for compare key a" and "fin \<le> length a" "\<forall>i < length a. i < first \<or> fin \<le> i \<longrightarrow> compare key (a ! i) \<noteq> 0"
  shows "\<exists>r. search_loop compare key a first fin = Some r \<and>
    (case r of Some m \<Rightarrow> m < length a \<and> compare key (a ! m) = 0 | None \<Rightarrow> \<forall>x \<in> set a. compare key x \<noteq> 0)"
  using assms(2,3)
proof (induction "fin - first" arbitrary: first fin rule: less_induct)
  case less
  show ?case
  proof (cases "first < fin")
    case False
    then have "\<forall>i < length a. compare key (a ! i) \<noteq> 0" using less.prems(2) by auto
    then show ?thesis using False by (subst search_loop.simps) (auto simp: in_set_conv_nth)
  next
    case True
    define m where "m = first + (fin - first) div 2"
    have m: "m < fin" "first \<le> m" "m < length a" using True less.prems(1) by (auto simp: m_def)
    have e: "search_loop compare key a first fin = (if compare key (a ! m) < 0 then search_loop compare key a first m
        else if compare key (a ! m) > 0 then search_loop compare key a (m + 1) fin else Some (Some m))"
      using True m(3) by (subst search_loop.simps) (simp add: m_def Let_def)
    consider "compare key (a ! m) < 0" | "compare key (a ! m) > 0" | "compare key (a ! m) = 0" by linarith
    then show ?thesis
    proof cases
      case 1
      have "\<forall>i < length a. i < first \<or> m \<le> i \<longrightarrow> compare key (a ! i) \<noteq> 0"
      proof (intro allI impI)
        fix i assume "i < length a" "i < first \<or> m \<le> i"
        then show "compare key (a ! i) \<noteq> 0" using less.prems(2) sorted_forD(1) [OF so _ _ 1, of i] by (cases "m \<le> i") auto
      qed
      then show ?thesis using 1 e less.hyps [of m first] m by simp
    next
      case 2
      have "\<forall>i < length a. i < m + 1 \<or> fin \<le> i \<longrightarrow> compare key (a ! i) \<noteq> 0"
      proof (intro allI impI)
        fix i assume "i < length a" "i < m + 1 \<or> fin \<le> i"
        then show "compare key (a ! i) \<noteq> 0" using less.prems(2) sorted_forD(2) [OF so _ m(3) 2, of i] by (cases "i \<le> m") auto
      qed
      then show ?thesis using 2 e less.hyps [of fin "m + 1"] m less.prems(1) by simp
    next
      case 3
      then show ?thesis using e m by simp
    qed
  qed
qed

section \<open>Parsing decimal numbers\<close>

definition digits :: "bytes \<Rightarrow> bool" where
  "digits s \<longleftrightarrow> (\<forall>c \<in> set s. 48 \<le> sint c \<and> sint c \<le> 57)"

definition decimal :: "bytes \<Rightarrow> int" where
  "decimal s = foldl (\<lambda>v c. v * 10 + (sint c - 48)) 0 s"

lemma wrap32_mod: "wrap32 v mod 2 ^ 32 = v mod 2 ^ 32"
proof -
  have "((v + 2 ^ 31) mod 2 ^ 32 - 2 ^ 31) mod 2 ^ 32 = (v + 2 ^ 31 - 2 ^ 31) mod (2 ^ 32 :: int)" by (rule mod_diff_left_eq)
  then show ?thesis by (simp only: wrap32_def add_diff_cancel_right')
qed

lemma wrap32_cong: "x mod 2 ^ 32 = y mod 2 ^ 32 \<Longrightarrow> wrap32 x = wrap32 y"
  using mod_add_cong [of x "2 ^ 32" y "2 ^ 31" "2 ^ 31"] by (simp add: wrap32_def)

lemma wrap32_step: "wrap32 (wrap32 v * 10 - d) = wrap32 (v * 10 - d)"
  by (rule wrap32_cong, rule mod_diff_cong [OF _ refl], rule mod_mult_cong [OF wrap32_mod refl])

lemma wrap32_minus: "wrap32 (- wrap32 (- x)) = wrap32 x"
proof (rule wrap32_cong)
  have "(- wrap32 (- x)) mod 2 ^ 32 = (- (wrap32 (- x) mod 2 ^ 32)) mod 2 ^ 32" by (simp only: mod_minus_eq)
  also have "\<dots> = (- (- x)) mod 2 ^ 32" by (simp only: wrap32_mod mod_minus_eq)
  finally show "(- wrap32 (- x)) mod 2 ^ 32 = x mod 2 ^ 32" by simp
qed

lemma parse_digits_eq:
  assumes "digits s" "rest = [] \<or> \<not> isdigit (sint (hd rest))"
  shows "parse_digits (wrap32 (- v)) (s @ rest) = wrap32 (- foldl (\<lambda>v c. v * 10 + (sint c - 48)) v s)"
  using assms(1)
proof (induction s arbitrary: v)
  case Nil
  then show ?case using assms(2) by (cases rest) auto
next
  case (Cons c s)
  have "wrap32 (wrap32 (- v) * 10 - (sint c - 48)) = wrap32 (- (v * 10 + (sint c - 48)))"
    unfolding wrap32_step by (simp add: algebra_simps)
  moreover have "isdigit (sint c)" "digits s" using Cons.prems by (auto simp: digits_def isdigit_def)
  ultimately show ?case using Cons.IH [of "v * 10 + (sint c - 48)"] by simp
qed

lemma atoi_decimal:
  assumes s: "digits s" "s \<noteq> []" and w: "list_all (\<lambda>c. isspace (uint c)) ws" and r: "rest = [] \<or> \<not> isdigit (sint (hd rest))"
  shows "atoi (ws @ s @ rest) = wrap32 (decimal s)" "atoi (ws @ 43 # s @ rest) = wrap32 (decimal s)" "atoi (ws @ 45 # s @ rest) = wrap32 (- decimal s)"
proof -
  obtain c cs where c: "s = c # cs" using s(2) by (cases s) auto
  have skip: "skip_space (ws @ x # xs) = x # xs" if "\<not> isspace (uint x)" for x xs
    using w that by (induction ws) auto
  have sg: "48 \<le> sint c" "sint c \<le> 57" using s(1) by (auto simp: digits_def c)
  have "uint c = take_bit 8 (sint c)" using uint_sint [of c] by simp
  then have u: "uint c = sint c" using sg by (simp add: take_bit_int_eq_self)
  have "\<not> isspace (uint c)" "c \<noteq> 43" "c \<noteq> 45" using sg u by (auto simp: isspace_def)
  then have k: "skip_space (ws @ s @ rest) = s @ rest" "hd (s @ rest) \<noteq> 43" "hd (s @ rest) \<noteq> 45" using skip [of c "cs @ rest"] by (auto simp: c)
  have z: "wrap32 0 = 0" by (simp add: wrap32_def)
  have p: "parse_digits 0 (s @ rest) = wrap32 (- decimal s)" using parse_digits_eq [OF s(1) r, of 0] by (simp add: decimal_def z)
  note n = wrap32_minus
  show "atoi (ws @ s @ rest) = wrap32 (decimal s)" using k p n by (auto simp: atoi_def Let_def)
  have i: "\<not> isspace (uint (43 :: byte))" "\<not> isspace (uint (45 :: byte))" by (simp_all add: isspace_def)
  show "atoi (ws @ 43 # s @ rest) = wrap32 (decimal s)" using p n skip [OF i(1), of "s @ rest"] by (simp add: atoi_def Let_def)
  show "atoi (ws @ 45 # s @ rest) = wrap32 (- decimal s)" using p skip [OF i(2), of "s @ rest"] by (simp add: atoi_def Let_def)
qed

section \<open>Properties\<close>

definition int_compare :: "int \<Rightarrow> int \<Rightarrow> int" where
  "int_compare x y = x - y"

text \<open>C37. For every comparison function that is a total preorder, \<open>sort\<close> returns a permutation of the array in ascending order.\<close>

theorem sort_array_correct:
  assumes "ordering_fn compare" "length a < 2 ^ 31"
  shows "\<exists>a'. sort_array compare a (length a) = Some a' \<and> mset a' = mset a \<and> sorted_wrt (\<lambda>x y. compare x y \<le> 0) a'"
  by (rule sort_array_ok [OF assms])

theorem sort_array_correct_witness:
  "\<exists>a'. sort_array int_compare [5, 3, 9, 1, 3] 5 = Some a' \<and> mset a' = mset [5, 3, 9, 1, 3] \<and> sorted_wrt (\<lambda>x y. int_compare x y \<le> 0) a'"
proof -
  have "ordering_fn int_compare" by (auto simp: ordering_fn_def int_compare_def)
  moreover have "length [5, 3, 9, 1, 3 :: int] = 5" by simp
  moreover have "(5 :: nat) < 2 ^ 31" by simp
  ultimately show ?thesis using sort_array_correct [of int_compare "[5, 3, 9, 1, 3]"] by (simp only: simp_thms)
qed

text \<open>C38. On an array that is sorted for the key, \<open>binary_search\<close> returns the index of a matching element if there is one and
  otherwise the null pointer, without an access outside the array.\<close>

theorem binary_search_correct:
  assumes "sorted_for compare key a"
  shows "case binary_search compare key a (length a) of
      Some (Some m) \<Rightarrow> m < length a \<and> compare key (a ! m) = 0
    | Some None \<Rightarrow> (\<forall>x \<in> set a. compare key x \<noteq> 0)
    | None \<Rightarrow> False"
  using search_loop_ok [OF assms, of "length a" 0] by (auto simp: binary_search_def split: option.splits)

theorem binary_search_correct_witness:
  "case binary_search int_compare 7 [1, 3, 7, 9] 4 of
      Some (Some m) \<Rightarrow> m < 4 \<and> int_compare 7 ([1, 3, 7, 9] ! m) = 0
    | Some None \<Rightarrow> (\<forall>x \<in> set [1, 3, 7, 9]. int_compare 7 x \<noteq> 0)
    | None \<Rightarrow> False"
proof -
  have "sorted_for int_compare 7 [1, 3, 7, 9]" by (simp add: sorted_for_def int_compare_def)
  moreover have "length [1, 3, 7, 9 :: int] = 4" by simp
  ultimately show ?thesis using binary_search_correct [of int_compare 7 "[1, 3, 7, 9]"] by (simp only:)
qed

end
