(* ===== verification/Hash_Table.thy ===== *)
theory Hash_Table
  imports Pintos_Prelude "HOL-Library.Multiset"
begin

text \<open>
  The hash table of \<open>lib/kernel/hash.c\<close>.

  An element is identified by its address. A bucket is the sequence of the elements linked in its list, so that
  \<open>list_push_front\<close> is \<open>#\<close>, and \<open>list_remove\<close>, which unlinks the element from whatever list holds it, removes it from
  every bucket. The functions of the table take \<open>aux\<close> as applied. \<open>malloc n\<close> says whether an allocation of \<open>n\<close> bytes
  succeeds; every operation allocates at most once. Access to a bucket outside the array is \<open>None\<close>, as is an allocation
  whose size in bytes has wrapped around. That the old array of buckets is freed is not part of the model.

  The functions refine a finite map from equivalence classes of elements to the stored element (\<open>map_op\<close>).
\<close>

unbundle bit_operations_syntax

section \<open>The table\<close>

record 'e hash =
  elem_cnt :: u32
  bucket_cnt :: u32
  buckets :: "'e list list"
  hash_fn :: "'e \<Rightarrow> u32"
  less_fn :: "'e \<Rightarrow> 'e \<Rightarrow> bool"

definition sizeof_list :: nat where
  "sizeof_list = 16"

definition find_bucket :: "'e hash \<Rightarrow> 'e \<Rightarrow> nat option" where
  "find_bucket h e = do {
     let bucket_idx = unat (hash_fn h e AND (bucket_cnt h - 1));
     ASSERT (bucket_idx < length (buckets h));
     Some bucket_idx }"

fun find_elem :: "'e hash \<Rightarrow> 'e list \<Rightarrow> 'e \<Rightarrow> 'e option" where
  "find_elem h [] e = None"
| "find_elem h (hi # bucket) e = (if \<not> less_fn h hi e \<and> \<not> less_fn h e hi then Some hi else find_elem h bucket e)"

definition turn_off_least_1bit :: "u32 \<Rightarrow> u32" where
  "turn_off_least_1bit x = x AND (x - 1)"

definition is_power_of_2 :: "u32 \<Rightarrow> bool" where
  "is_power_of_2 x \<longleftrightarrow> x \<noteq> 0 \<and> turn_off_least_1bit x = 0"

partial_function (option) round_down :: "u32 \<Rightarrow> u32 option" where
  "round_down new_bucket_cnt =
     (if \<not> is_power_of_2 new_bucket_cnt then round_down (turn_off_least_1bit new_bucket_cnt) else Some new_bucket_cnt)"

definition BEST_ELEMS_PER_BUCKET :: u32 where
  "BEST_ELEMS_PER_BUCKET = 2"

fun move_bucket :: "'e list \<Rightarrow> 'e hash \<Rightarrow> 'e hash option" where
  "move_bucket [] h = Some h"
| "move_bucket (e # old_bucket) h = do {
     b \<leftarrow> find_bucket h e;
     move_bucket old_bucket (h\<lparr>buckets := (buckets h)[b := e # buckets h ! b]\<rparr>) }"

fun move_buckets :: "'e list list \<Rightarrow> 'e hash \<Rightarrow> 'e hash option" where
  "move_buckets [] h = Some h"
| "move_buckets (old_bucket # old_buckets) h = do { h \<leftarrow> move_bucket old_bucket h; move_buckets old_buckets h }"

definition rehash :: "(nat \<Rightarrow> bool) \<Rightarrow> 'e hash \<Rightarrow> 'e hash option" where
  "rehash malloc h = do {
     let old_buckets = buckets h;
     let old_bucket_cnt = bucket_cnt h;
     let new_bucket_cnt = elem_cnt h div BEST_ELEMS_PER_BUCKET;
     let new_bucket_cnt = (if new_bucket_cnt < 4 then 4 else new_bucket_cnt);
     new_bucket_cnt \<leftarrow> round_down new_bucket_cnt;
     if new_bucket_cnt = old_bucket_cnt then Some h
     else if \<not> malloc (sz (sizeof_list * unat new_bucket_cnt)) then Some h
     else do {
       ASSERT (sizeof_list * unat new_bucket_cnt < 2 ^ 32);
       move_buckets old_buckets (h\<lparr>buckets := replicate (unat new_bucket_cnt) [], bucket_cnt := new_bucket_cnt\<rparr>) } }"

definition insert_elem :: "'e hash \<Rightarrow> nat \<Rightarrow> 'e \<Rightarrow> 'e hash" where
  "insert_elem h bucket e = h\<lparr>elem_cnt := elem_cnt h + 1, buckets := (buckets h)[bucket := e # buckets h ! bucket]\<rparr>"

definition remove_elem :: "'e hash \<Rightarrow> 'e \<Rightarrow> 'e hash" where
  "remove_elem h e = h\<lparr>elem_cnt := elem_cnt h - 1, buckets := map (remove1 e) (buckets h)\<rparr>"

section \<open>Life cycle\<close>

fun clear_bucket :: "('e \<Rightarrow> 's \<Rightarrow> 's) \<Rightarrow> 'e list \<Rightarrow> 's \<Rightarrow> 's" where
  "clear_bucket destructor [] s = s"
| "clear_bucket destructor (e # bucket) s = clear_bucket destructor bucket (destructor e s)"

fun clear_loop :: "('e \<Rightarrow> 's \<Rightarrow> 's) option \<Rightarrow> 'e list list \<Rightarrow> 's \<Rightarrow> 'e list list \<times> 's" where
  "clear_loop destructor [] s = ([], s)"
| "clear_loop destructor (bucket # bs) s =
     (let s = (case destructor of Some d \<Rightarrow> clear_bucket d bucket s | None \<Rightarrow> s);
          (bs, s) = clear_loop destructor bs s
      in ([] # bs, s))"

text \<open>\<open>s\<close> is the state that the destructor works on.\<close>

definition hash_clear :: "'e hash \<Rightarrow> ('e \<Rightarrow> 's \<Rightarrow> 's) option \<Rightarrow> 's \<Rightarrow> 'e hash \<times> 's" where
  "hash_clear h destructor s =
     (let (bs, s) = clear_loop destructor (buckets h) s in (h\<lparr>buckets := bs, elem_cnt := 0\<rparr>, s))"

text \<open>The array that \<open>malloc\<close> returns has four lists of unknown contents, \<open>junk\<close>.\<close>

definition hash_init :: "(nat \<Rightarrow> bool) \<Rightarrow> 'e list list \<Rightarrow> ('e \<Rightarrow> u32) \<Rightarrow> ('e \<Rightarrow> 'e \<Rightarrow> bool) \<Rightarrow> 'e hash option" where
  "hash_init malloc junk hash lt =
     (let h = \<lparr>elem_cnt = 0, bucket_cnt = 4, buckets = take 4 (junk @ replicate 4 []), hash_fn = hash, less_fn = lt\<rparr>
      in if malloc (sizeof_list * 4) then Some (fst (hash_clear h None ())) else None)"

definition hash_destroy :: "'e hash \<Rightarrow> ('e \<Rightarrow> 's \<Rightarrow> 's) option \<Rightarrow> 's \<Rightarrow> 's" where
  "hash_destroy h destructor s = (if destructor \<noteq> None then snd (hash_clear h destructor s) else s)"

section \<open>Search, insertion, deletion\<close>

definition hash_insert :: "(nat \<Rightarrow> bool) \<Rightarrow> 'e hash \<Rightarrow> 'e \<Rightarrow> ('e option \<times> 'e hash) option" where
  "hash_insert malloc h new = do {
     bucket \<leftarrow> find_bucket h new;
     let old = find_elem h (buckets h ! bucket) new;
     let h = (if old = None then insert_elem h bucket new else h);
     h \<leftarrow> rehash malloc h;
     Some (old, h) }"

definition hash_replace :: "(nat \<Rightarrow> bool) \<Rightarrow> 'e hash \<Rightarrow> 'e \<Rightarrow> ('e option \<times> 'e hash) option" where
  "hash_replace malloc h new = do {
     bucket \<leftarrow> find_bucket h new;
     let old = find_elem h (buckets h ! bucket) new;
     let h = (case old of Some e \<Rightarrow> remove_elem h e | None \<Rightarrow> h);
     let h = insert_elem h bucket new;
     h \<leftarrow> rehash malloc h;
     Some (old, h) }"

definition hash_find :: "'e hash \<Rightarrow> 'e \<Rightarrow> 'e option option" where
  "hash_find h e = do { bucket \<leftarrow> find_bucket h e; Some (find_elem h (buckets h ! bucket) e) }"

definition hash_delete :: "(nat \<Rightarrow> bool) \<Rightarrow> 'e hash \<Rightarrow> 'e \<Rightarrow> ('e option \<times> 'e hash) option" where
  "hash_delete malloc h e = do {
     bucket \<leftarrow> find_bucket h e;
     case find_elem h (buckets h ! bucket) e of
       Some found \<Rightarrow> do { h \<leftarrow> rehash malloc (remove_elem h found); Some (Some found, h) }
     | None \<Rightarrow> Some (None, h) }"

section \<open>Iteration\<close>

fun apply_bucket :: "('e \<Rightarrow> 's \<Rightarrow> 's) \<Rightarrow> 'e list \<Rightarrow> 's \<Rightarrow> 's" where
  "apply_bucket action [] s = s"
| "apply_bucket action (e # bucket) s = apply_bucket action bucket (action e s)"

fun apply_loop :: "('e \<Rightarrow> 's \<Rightarrow> 's) \<Rightarrow> 'e list list \<Rightarrow> 's \<Rightarrow> 's" where
  "apply_loop action [] s = s"
| "apply_loop action (bucket # bs) s = apply_loop action bs (apply_bucket action bucket s)"

definition hash_apply :: "'e hash \<Rightarrow> ('e \<Rightarrow> 's \<Rightarrow> 's) \<Rightarrow> 's \<Rightarrow> 's" where
  "hash_apply h action s = apply_loop action (buckets h) s"

text \<open>An iterator is in bucket \<open>it_bucket\<close>, at the list head (\<open>Some 0\<close>), at the \<open>n\<close>-th element (\<open>Some n\<close>) or past the
  table (\<open>None\<close>, the null pointer).\<close>

record hash_iterator =
  it_bucket :: nat
  it_elem :: "nat option"

definition hash_first :: "'e hash \<Rightarrow> hash_iterator" where
  "hash_first h = \<lparr>it_bucket = 0, it_elem = Some 0\<rparr>"

definition hash_cur :: "'e hash \<Rightarrow> hash_iterator \<Rightarrow> 'e option" where
  "hash_cur h i = map_option (\<lambda>n. buckets h ! it_bucket i ! (n - 1)) (it_elem i)"

function next_loop :: "'e hash \<Rightarrow> nat \<Rightarrow> nat \<Rightarrow> hash_iterator" where
  "next_loop h b n =
     (if b < length (buckets h) \<and> n = length (buckets h ! b) + 1
      then if Suc b \<ge> length (buckets h) then \<lparr>it_bucket = Suc b, it_elem = None\<rparr> else next_loop h (Suc b) 1
      else \<lparr>it_bucket = b, it_elem = Some n\<rparr>)"
  by pat_completeness auto
termination
  by (relation "measure (\<lambda>(h, b, n). length (buckets h) - b)") auto

declare next_loop.simps [simp del]

text \<open>\<open>list_next\<close> asserts that its argument is the head or an element.\<close>

definition hash_next :: "'e hash \<Rightarrow> hash_iterator \<Rightarrow> ('e option \<times> hash_iterator) option" where
  "hash_next h i = (case it_elem i of
     None \<Rightarrow> None
   | Some n \<Rightarrow> do {
       ASSERT (it_bucket i < length (buckets h) \<and> n \<le> length (buckets h ! it_bucket i));
       let i = next_loop h (it_bucket i) (n + 1);
       Some (hash_cur h i, i) })"

section \<open>Information\<close>

definition hash_size :: "'e hash \<Rightarrow> u32" where
  "hash_size h = elem_cnt h"

definition hash_empty :: "'e hash \<Rightarrow> bool" where
  "hash_empty h \<longleftrightarrow> elem_cnt h = 0"

section \<open>Sample hash functions\<close>

definition FNV_32_PRIME :: u32 where "FNV_32_PRIME = 16777619"
definition FNV_32_BASIS :: u32 where "FNV_32_BASIS = 2166136261"

definition hash_bytes :: "bytes \<Rightarrow> u32" where
  "hash_bytes buf = foldl (\<lambda>hash b. (hash * FNV_32_PRIME) XOR ucast b) FNV_32_BASIS buf"

definition hash_string :: "bytes \<Rightarrow> u32" where
  "hash_string s = foldl (\<lambda>hash b. (hash * FNV_32_PRIME) XOR ucast b) FNV_32_BASIS (takeWhile (\<lambda>b. b \<noteq> 0) s)"

definition hash_int :: "u32 \<Rightarrow> u32" where
  "hash_int i = hash_bytes (le32 i)"

section \<open>Rounding down to a power of two\<close>

lemma bit_top: "2 ^ k \<le> n \<Longrightarrow> n < 2 ^ (k + 1) \<Longrightarrow> bit n k" for n :: nat
proof -
  assume "2 ^ k \<le> n" "n < 2 ^ (k + 1)"
  then have "n div 2 ^ k = 1" by (intro div_nat_eqI) auto
  then show ?thesis by (simp add: bit_iff_odd)
qed

lemma and_pred_top: "2 ^ k \<le> n AND (n - 1)" if "2 ^ k < n" "n < 2 ^ (k + 1)" for n :: nat
proof (rule ccontr)
  assume "\<not> 2 ^ k \<le> n AND (n - 1)"
  then have "(n AND (n - 1)) div 2 ^ k = 0" by simp
  then have "\<not> bit (n AND (n - 1)) k" by (simp add: bit_iff_odd)
  moreover have "bit n k" "bit (n - 1) k" using that by (auto intro: bit_top)
  ultimately show False by (simp add: bit_and_iff)
qed

lemma and_pred_pow: "(2 ^ k :: nat) AND (2 ^ k - 1) = 0"
  using take_bit_eq_mask [of k "2 ^ k :: nat"] by (simp add: mask_eq_exp_minus_1 take_bit_eq_mod)

lemma and_le_right: "m AND n \<le> n" for m n :: nat
  by (simp add: and_nat_def nat_le_iff)

lemma unat_turn_off: "x \<noteq> 0 \<Longrightarrow> unat (turn_off_least_1bit x) = unat x AND (unat x - 1)"
  by (simp add: turn_off_least_1bit_def unsigned_and_eq unat_minus_one)

lemma is_power_of_2_iff:
  assumes "2 ^ k \<le> unat x" "unat x < 2 ^ (k + 1)"
  shows "is_power_of_2 x \<longleftrightarrow> unat x = 2 ^ k"
proof -
  have x: "x \<noteq> 0" using assms(1) by auto
  have "turn_off_least_1bit x = 0 \<longleftrightarrow> unat (turn_off_least_1bit x) = 0" by (simp add: unsigned_eq_0_iff)
  also have "\<dots> \<longleftrightarrow> unat x = 2 ^ k"
    using and_pred_top [of k "unat x"] assms unat_turn_off [OF x] and_pred_pow [of k] by (cases "unat x = 2 ^ k") auto
  finally show ?thesis using x by (simp add: is_power_of_2_def)
qed

lemma round_down_ok:
  assumes "2 ^ k \<le> unat x" "unat x < 2 ^ (k + 1)"
  shows "\<exists>r. round_down x = Some r \<and> unat r = 2 ^ k"
  using assms
proof (induction "unat x" arbitrary: x rule: less_induct)
  case less
  show ?case
  proof (cases "unat x = 2 ^ k")
    case True
    then show ?thesis using is_power_of_2_iff [OF less.prems] by (subst round_down.simps) simp
  next
    case False
    have x: "x \<noteq> 0" using less.prems(1) by auto
    then have "0 < unat x" by (simp add: unat_gt_0)
    then have "unat (turn_off_least_1bit x) < unat x"
      using and_le_right [of "unat x" "unat x - 1"] by (simp only: unat_turn_off [OF x])
    moreover have "2 ^ k \<le> unat (turn_off_least_1bit x)"
      using and_pred_top [of k "unat x"] False less.prems by (simp add: unat_turn_off [OF x])
    moreover have "round_down x = round_down (turn_off_least_1bit x)"
      using is_power_of_2_iff [OF less.prems] False by (subst round_down.simps) simp
    ultimately show ?thesis using less.hyps [of "turn_off_least_1bit x"] less.prems(2) by simp
  qed
qed

lemma power_bracket: "0 < n \<Longrightarrow> \<exists>k. 2 ^ k \<le> n \<and> n < 2 ^ (k + 1)" for n :: nat
  using ex_power_ivl1 [of 2 n] by auto

lemma round_down_ge4:
  assumes "4 \<le> unat x"
  obtains r where "round_down x = Some r" "is_power_of_2 r" "4 \<le> unat r" "unat r \<le> unat x" "unat x < 2 * unat r"
proof -
  obtain k where k: "2 ^ k \<le> unat x" "unat x < 2 ^ (k + 1)" using power_bracket [of "unat x"] assms by auto
  obtain r where r: "round_down x = Some r" "unat r = 2 ^ k" using round_down_ok [OF k] by blast
  have "(2 :: nat) ^ 2 < 2 ^ (k + 1)" using assms k(2) by simp
  then have "2 < k + 1" using power_less_imp_less_exp [of "2 :: nat" 2 "k + 1"] by simp
  then have "(2 :: nat) ^ 2 \<le> 2 ^ k" by (intro power_increasing) auto
  then have "4 \<le> unat r" using r(2) by simp
  moreover have "is_power_of_2 r" using is_power_of_2_iff [of k r] r(2) by simp
  ultimately show ?thesis using that r k by simp
qed

section \<open>Well-formed tables\<close>

definition idx :: "'e hash \<Rightarrow> 'e \<Rightarrow> nat" where
  "idx h e = unat (hash_fn h e AND (bucket_cnt h - 1))"

definition same :: "'e hash \<Rightarrow> 'e \<Rightarrow> 'e \<Rightarrow> bool" where
  "same h x y \<longleftrightarrow> \<not> less_fn h x y \<and> \<not> less_fn h y x"

definition elems :: "'e hash \<Rightarrow> 'e set" where
  "elems h = set (concat (buckets h))"

definition sized :: "'e hash \<Rightarrow> bool" where
  "sized h \<longleftrightarrow> is_power_of_2 (bucket_cnt h) \<and> 4 \<le> unat (bucket_cnt h) \<and> length (buckets h) = unat (bucket_cnt h)"

definition placed :: "'e hash \<Rightarrow> bool" where
  "placed h \<longleftrightarrow> (\<forall>i < length (buckets h). \<forall>e \<in> set (buckets h ! i). idx h e = i)"

text \<open>What the table asks of its functions: the elements that are neither less nor greater form equivalence classes,
  and equal elements have the same hash value.\<close>

definition functions_ok :: "'e hash \<Rightarrow> bool" where
  "functions_ok h \<longleftrightarrow> (\<forall>x. same h x x) \<and> (\<forall>x y z. same h x y \<longrightarrow> same h y z \<longrightarrow> same h x z)
     \<and> (\<forall>x y. same h x y \<longrightarrow> hash_fn h x = hash_fn h y)"

definition hash_wf :: "nat \<Rightarrow> 'e hash \<Rightarrow> bool" where
  "hash_wf n h \<longleftrightarrow> sized h \<and> placed h \<and> functions_ok h \<and> distinct (concat (buckets h))
     \<and> elem_cnt h = of_nat (length (concat (buckets h))) \<and> length (concat (buckets h)) \<le> n
     \<and> (\<forall>x \<in> elems h. \<forall>y \<in> elems h. same h x y \<longrightarrow> x = y)"

lemma same_sym: "same h x y \<longleftrightarrow> same h y x"
  by (auto simp: same_def)

lemma sized_idx: "sized h \<Longrightarrow> idx h e < length (buckets h)"
proof -
  assume s: "sized h"
  then have z: "bucket_cnt h \<noteq> 0" by (auto simp: sized_def is_power_of_2_def)
  have "idx h e \<le> unat (bucket_cnt h - 1)" unfolding idx_def unsigned_and_eq by (rule and_le_right)
  then show ?thesis using s z by (auto simp: sized_def unat_minus_one)
qed

lemma find_bucket_eq: "sized h \<Longrightarrow> find_bucket h e = Some (idx h e)"
  using sized_idx [of h e] by (simp add: find_bucket_def idx_def)

lemma find_elem_Some: "find_elem h b e = Some x \<Longrightarrow> x \<in> set b \<and> same h x e"
  by (induction b) (auto simp: same_def split: if_splits)

lemma find_elem_None: "find_elem h b e = None \<Longrightarrow> x \<in> set b \<Longrightarrow> \<not> same h x e"
  by (induction b) (auto simp: same_def split: if_splits)

lemma mset_push:
  assumes "b < length bs"
  shows "mset (concat (bs[b := e # bs ! b])) = add_mset e (mset (concat bs))"
proof -
  have "bs = take b bs @ bs ! b # drop (Suc b) bs" using assms by (rule id_take_nth_drop)
  then have "mset (concat bs) = mset (concat (take b bs)) + mset (bs ! b) + mset (concat (drop (Suc b) bs))"
    by (metis concat.simps(2) concat_append mset_append union_assoc)
  moreover have "mset (concat (bs[b := e # bs ! b])) = mset (concat (take b bs)) + add_mset e (mset (bs ! b)) + mset (concat (drop (Suc b) bs))"
    using assms by (simp add: upd_conv_take_nth_drop)
  ultimately show ?thesis by simp
qed

lemma elems_mset: "x \<in> elems h \<longleftrightarrow> x \<in># mset (concat (buckets h))"
  by (simp add: elems_def)

lemma placed_push:
  assumes "placed h" "b < length (buckets h)" "idx h e = b"
  shows "placed (h\<lparr>buckets := (buckets h)[b := e # buckets h ! b]\<rparr>)"
  using assms by (auto simp: placed_def idx_def nth_list_update)

lemma placed_cong:
  assumes "buckets h' = buckets h" "bucket_cnt h' = bucket_cnt h" "hash_fn h' = hash_fn h" "placed h"
  shows "placed h'"
  using assms(4) unfolding placed_def idx_def assms(1-3) .

lemma move_bucket_ok:
  assumes "sized h" "placed h"
  shows "\<exists>bs. move_bucket b h = Some (h\<lparr>buckets := bs\<rparr>) \<and> sized (h\<lparr>buckets := bs\<rparr>) \<and> placed (h\<lparr>buckets := bs\<rparr>)
    \<and> mset (concat bs) = mset (concat (buckets h)) + mset b"
  using assms
proof (induction b arbitrary: h)
  case Nil
  then show ?case by (intro exI [of _ "buckets h"]) simp
next
  case (Cons e b)
  define h1 where "h1 = h\<lparr>buckets := (buckets h)[idx h e := e # buckets h ! idx h e]\<rparr>"
  have i: "idx h e < length (buckets h)" using Cons.prems(1) by (rule sized_idx)
  have "sized h1" "placed h1" using Cons.prems i placed_push [of h "idx h e" e] by (auto simp: h1_def sized_def)
  from Cons.IH [OF this] obtain bs where bs: "move_bucket b h1 = Some (h1\<lparr>buckets := bs\<rparr>)" "sized (h1\<lparr>buckets := bs\<rparr>)"
    "placed (h1\<lparr>buckets := bs\<rparr>)" "mset (concat bs) = mset (concat (buckets h1)) + mset b" by blast
  have e: "h1\<lparr>buckets := bs\<rparr> = h\<lparr>buckets := bs\<rparr>" by (simp add: h1_def)
  have "move_bucket (e # b) h = move_bucket b h1" using find_bucket_eq [OF Cons.prems(1)] by (simp add: h1_def)
  moreover have "mset (concat bs) = mset (concat (buckets h)) + mset (e # b)" using bs(4) mset_push [OF i, of e] by (simp add: h1_def)
  ultimately show ?case using bs(1-3) unfolding e by (intro exI [of _ bs]) simp
qed

lemma move_buckets_ok:
  assumes "sized h" "placed h"
  shows "\<exists>bs. move_buckets old h = Some (h\<lparr>buckets := bs\<rparr>) \<and> sized (h\<lparr>buckets := bs\<rparr>) \<and> placed (h\<lparr>buckets := bs\<rparr>)
    \<and> mset (concat bs) = mset (concat (buckets h)) + mset (concat old)"
  using assms
proof (induction old arbitrary: h)
  case Nil
  then show ?case by (intro exI [of _ "buckets h"]) simp
next
  case (Cons b old)
  obtain b1 where b1: "move_bucket b h = Some (h\<lparr>buckets := b1\<rparr>)" "sized (h\<lparr>buckets := b1\<rparr>)" "placed (h\<lparr>buckets := b1\<rparr>)"
    "mset (concat b1) = mset (concat (buckets h)) + mset b" using move_bucket_ok [OF Cons.prems] by blast
  from Cons.IH [OF b1(2,3)] obtain bs where "move_buckets old (h\<lparr>buckets := b1\<rparr>) = Some (h\<lparr>buckets := bs\<rparr>)" "sized (h\<lparr>buckets := bs\<rparr>)"
    "placed (h\<lparr>buckets := bs\<rparr>)" "mset (concat bs) = mset (concat b1) + mset (concat old)" by auto
  then show ?case using b1 by (intro exI [of _ bs]) simp
qed

section \<open>Rehashing\<close>

definition rearranged :: "'e hash \<Rightarrow> 'e hash \<Rightarrow> bool" where
  "rearranged h h' \<longleftrightarrow> sized h' \<and> placed h' \<and> mset (concat (buckets h')) = mset (concat (buckets h))
     \<and> elem_cnt h' = elem_cnt h \<and> hash_fn h' = hash_fn h \<and> less_fn h' = less_fn h"

lemma rehash_ok:
  assumes s: "sized h" and p: "placed h" and c: "unat (elem_cnt h) < 2 ^ 29"
  shows "\<exists>h'. rehash malloc h = Some h' \<and> rearranged h h'"
proof -
  define c0 where "c0 = elem_cnt h div BEST_ELEMS_PER_BUCKET"
  define c1 where "c1 = (if c0 < 4 then 4 else c0)"
  have u: "unat c0 < 2 ^ 28" using c by (simp add: c0_def BEST_ELEMS_PER_BUCKET_def unat_div)
  have "4 \<le> unat c1" by (simp add: c1_def word_less_nat_alt)
  then obtain r where r: "round_down c1 = Some r" "is_power_of_2 r" "4 \<le> unat r" "unat r \<le> unat c1" by (rule round_down_ge4)
  have "unat c1 < 2 ^ 28" using u by (simp add: c1_def)
  then have b: "sizeof_list * unat r < 2 ^ 32" using r(4) by (simp add: sizeof_list_def)
  define h1 where "h1 = h\<lparr>buckets := replicate (unat r) [], bucket_cnt := r\<rparr>"
  have "sized h1" "placed h1" using r by (auto simp: h1_def sized_def placed_def)
  from move_buckets_ok [OF this, of "buckets h"] obtain bs where m: "move_buckets (buckets h) h1 = Some (h1\<lparr>buckets := bs\<rparr>)"
    "sized (h1\<lparr>buckets := bs\<rparr>)" "placed (h1\<lparr>buckets := bs\<rparr>)" "mset (concat bs) = mset (concat (buckets h1)) + mset (concat (buckets h))" by blast
  have "concat (replicate n []) = ([] :: 'a list)" for n by (induction n) auto
  then have n: "rearranged h (h1\<lparr>buckets := bs\<rparr>)" using m(2-4) by (simp add: rearranged_def h1_def)
  have k: "rearranged h h" using s p by (simp add: rearranged_def)
  have e: "rehash malloc h = (if r = bucket_cnt h then Some h
      else if \<not> malloc (sz (sizeof_list * unat r)) then Some h else Some (h1\<lparr>buckets := bs\<rparr>))"
    using r(1) b m(1) by (simp add: rehash_def Let_def c0_def [symmetric] c1_def [symmetric] h1_def)
  show ?thesis unfolding e using n k by auto
qed

lemma rearranged_wf:
  assumes "rearranged h h'" "distinct (concat (buckets h))" "functions_ok h" "elem_cnt h = of_nat (length (concat (buckets h)))"
    "length (concat (buckets h)) \<le> n" "\<forall>x \<in> elems h. \<forall>y \<in> elems h. same h x y \<longrightarrow> x = y"
  shows "hash_wf n h'" "elems h' = elems h" "same h' = same h"
proof -
  have m: "mset (concat (buckets h')) = mset (concat (buckets h))" and f: "elem_cnt h' = elem_cnt h" "hash_fn h' = hash_fn h" "less_fn h' = less_fn h"
    using assms(1) by (auto simp: rearranged_def)
  have l: "length (concat (buckets h')) = length (concat (buckets h))" using m by (rule mset_eq_length)
  have d: "distinct (concat (buckets h'))" using mset_eq_imp_distinct_iff [OF m] assms(2) by blast
  show e: "elems h' = elems h" unfolding elems_def using m by (rule mset_eq_setD)
  show s: "same h' = same h" by (intro ext) (simp add: same_def f)
  then have "functions_ok h'" using assms(3) by (simp add: functions_ok_def f)
  then show "hash_wf n h'" using assms d l f(1) by (simp add: hash_wf_def e s rearranged_def)
qed

section \<open>The operations on a well-formed table\<close>

definition contents :: "'e hash \<Rightarrow> 'e \<Rightarrow> 'e option" where
  "contents h e = (case hash_find h e of Some r \<Rightarrow> r | None \<Rightarrow> None)"

lemma in_bucket:
  assumes "hash_wf n h" "x \<in> elems h"
  shows "x \<in> set (buckets h ! idx h x)"
proof -
  obtain b where b: "b \<in> set (buckets h)" "x \<in> set b" using assms(2) by (auto simp: elems_def)
  from b(1) obtain i where "i < length (buckets h)" "buckets h ! i = b" by (auto simp: in_set_conv_nth)
  with b(2) show ?thesis using assms(1) by (auto simp: hash_wf_def placed_def)
qed

lemma found_iff:
  assumes wf: "hash_wf n h"
  shows "find_elem h (buckets h ! idx h e) e = Some x \<longleftrightarrow> x \<in> elems h \<and> same h x e"
proof
  assume "find_elem h (buckets h ! idx h e) e = Some x"
  then have "x \<in> set (buckets h ! idx h e)" "same h x e" using find_elem_Some by force+
  then show "x \<in> elems h \<and> same h x e" using sized_idx [of h e] wf by (auto simp: hash_wf_def elems_def)
next
  assume a: "x \<in> elems h \<and> same h x e"
  then have "hash_fn h x = hash_fn h e" using wf by (auto simp: hash_wf_def functions_ok_def)
  then have "idx h x = idx h e" by (simp add: idx_def)
  then have "x \<in> set (buckets h ! idx h e)" using in_bucket [OF wf] a by force
  then obtain y where y: "find_elem h (buckets h ! idx h e) e = Some y" using find_elem_None a by (metis option.exhaust)
  then have ym: "y \<in> set (buckets h ! idx h e)" "same h y e" using find_elem_Some by force+
  then have "y \<in> elems h" using sized_idx [of h e] wf by (auto simp: hash_wf_def elems_def)
  moreover have "same h y x" using ym(2) a wf same_sym [of h x e] unfolding hash_wf_def functions_ok_def by blast
  ultimately show "find_elem h (buckets h ! idx h e) e = Some x" using y a wf unfolding hash_wf_def by blast
qed

lemma hash_find_eq:
  assumes "hash_wf n h"
  shows "hash_find h e = Some (find_elem h (buckets h ! idx h e) e)" "contents h e = find_elem h (buckets h ! idx h e) e"
  using find_bucket_eq [of h e] assms by (simp_all add: hash_find_def contents_def hash_wf_def)

lemma contents_iff:
  assumes "hash_wf n h"
  shows "contents h e = Some x \<longleftrightarrow> x \<in> elems h \<and> same h x e"
  unfolding hash_find_eq(2) [OF assms] by (rule found_iff [OF assms])

lemma elems_insert:
  assumes "b < length (buckets h)"
  shows "elems (insert_elem h b e) = insert e (elems h)"
proof -
  have "set_mset (mset (concat ((buckets h)[b := e # buckets h ! b]))) = insert e (set_mset (mset (concat (buckets h))))"
    unfolding mset_push [OF assms] by simp
  then show ?thesis by (simp add: elems_def insert_elem_def)
qed

lemma elems_remove: "distinct (concat (buckets h)) \<Longrightarrow> elems (remove_elem h e) = elems h - {e}"
  by (auto simp: elems_def remove_elem_def distinct_concat_iff)

lemma concat_remove1:
  "distinct (concat bs) \<Longrightarrow> concat (map (remove1 e) bs) = remove1 e (concat bs)"
proof (induction bs)
  case (Cons b bs)
  then show ?case
  proof (cases "e \<in> set b")
    case True
    then have "e \<notin> set (concat bs)" using Cons.prems by auto
    then have "map (remove1 e) bs = bs" by (intro map_idI) (auto simp: remove1_idem)
    then show ?thesis using True by (simp add: remove1_append)
  next
    case False
    then show ?thesis using Cons by (simp add: remove1_append remove1_idem)
  qed
qed simp

lemma unat_of_nat_le: "unat (of_nat m :: u32) \<le> m"
  by (simp add: unat_of_nat)

lemma insert_elem_wf:
  assumes wf: "hash_wf n h" and n: "Suc n < 2 ^ 29" and c: "contents h e = None"
  shows "\<exists>h'. rehash malloc (insert_elem h (idx h e) e) = Some h' \<and> hash_wf (Suc n) h' \<and> elems h' = insert e (elems h) \<and> same h' = same h"
proof -
  define h1 where "h1 = insert_elem h (idx h e) e"
  have s: "sized h" and p: "placed h" and f: "functions_ok h" and d: "distinct (concat (buckets h))"
    and cnt: "elem_cnt h = of_nat (length (concat (buckets h)))" "length (concat (buckets h)) \<le> n"
    and u: "\<forall>x \<in> elems h. \<forall>y \<in> elems h. same h x y \<longrightarrow> x = y" using wf by (auto simp: hash_wf_def)
  have i: "idx h e < length (buckets h)" using s by (rule sized_idx)
  have no: "\<not> same h x e" if "x \<in> elems h" for x using contents_iff [OF wf, of e x] c that by simp
  have m: "mset (concat (buckets h1)) = add_mset e (mset (concat (buckets h)))" using mset_push [OF i, of e] by (simp add: h1_def insert_elem_def)
  have el: "elems h1 = insert e (elems h)" using elems_insert [OF i] by (simp add: h1_def)
  have sm: "same h1 = same h" by (intro ext) (simp add: same_def h1_def insert_elem_def)
  have "e \<notin> elems h" using no f by (auto simp: functions_ok_def)
  then have "distinct (e # concat (buckets h))" using d by (auto simp: elems_def)
  moreover have "mset (concat (buckets h1)) = mset (e # concat (buckets h))" using m by simp
  ultimately have d1: "distinct (concat (buckets h1))" using mset_eq_imp_distinct_iff by blast
  have "size (mset (concat (buckets h1))) = Suc (size (mset (concat (buckets h))))" unfolding m by simp
  then have l: "length (concat (buckets h1)) = Suc (length (concat (buckets h)))" by (simp only: size_mset)
  have c1: "elem_cnt h1 = of_nat (length (concat (buckets h1)))" unfolding l using cnt(1) by (simp add: h1_def insert_elem_def)
  have "unat (elem_cnt h1) < 2 ^ 29" unfolding c1 using l cnt(2) n unat_of_nat_le [of "length (concat (buckets h1))"] by simp
  moreover have "sized h1" using s by (simp add: h1_def insert_elem_def sized_def)
  moreover have "placed h1" by (rule placed_cong [OF _ _ _ placed_push [OF p i refl]]) (simp_all add: h1_def insert_elem_def)
  ultimately obtain h' where h': "rehash malloc h1 = Some h'" "rearranged h1 h'" using rehash_ok by blast
  have f1: "functions_ok h1" using f unfolding functions_ok_def sm by (simp add: h1_def insert_elem_def)
  have u1: "\<forall>x \<in> elems h1. \<forall>y \<in> elems h1. same h1 x y \<longrightarrow> x = y" unfolding el sm using u no same_sym [of h e] by blast
  have l1: "length (concat (buckets h1)) \<le> Suc n" using l cnt(2) by simp
  note r = rearranged_wf [OF h'(2) d1 f1 c1 l1 u1]
  show ?thesis using h'(1) r by (intro exI [of _ h']) (simp add: h1_def [symmetric] el sm)
qed

lemma word_pred_of_nat: "0 < m \<Longrightarrow> of_nat (m - 1) = (of_nat m - 1 :: u32)"
  by (cases m) simp_all

text \<open>The removal before the table is rearranged: \<open>hash_replace\<close> inserts next.\<close>

lemma remove_elem_wf:
  assumes wf: "hash_wf n h" and n: "n < 2 ^ 32" and x: "x \<in> elems h"
  shows "hash_wf n (remove_elem h x)" "elems (remove_elem h x) = elems h - {x}" "same (remove_elem h x) = same h"
    "idx (remove_elem h x) = idx h" "length (concat (buckets (remove_elem h x))) < n"
proof -
  have s: "sized h" and p: "placed h" and f: "functions_ok h" and d: "distinct (concat (buckets h))"
    and cnt: "elem_cnt h = of_nat (length (concat (buckets h)))" "length (concat (buckets h)) \<le> n"
    and u: "\<forall>x \<in> elems h. \<forall>y \<in> elems h. same h x y \<longrightarrow> x = y" using wf by (auto simp: hash_wf_def)
  show el: "elems (remove_elem h x) = elems h - {x}" using d by (rule elems_remove)
  show sm: "same (remove_elem h x) = same h" by (intro ext) (simp add: same_def remove_elem_def)
  show ix: "idx (remove_elem h x) = idx h" by (intro ext) (simp add: idx_def remove_elem_def)
  have c: "concat (buckets (remove_elem h x)) = remove1 x (concat (buckets h))" using concat_remove1 [OF d] by (simp add: remove_elem_def)
  have xs: "x \<in> set (concat (buckets h))" using x by (simp add: elems_def)
  then have ln: "length (remove1 x (concat (buckets h))) = length (concat (buckets h)) - 1" by (simp only: length_remove1) simp
  have pos: "0 < length (concat (buckets h))" using xs by (rule length_pos_if_in_set)
  then show l: "length (concat (buckets (remove_elem h x))) < n" unfolding c ln using cnt(2) by linarith
  have "elem_cnt (remove_elem h x) = of_nat (length (concat (buckets h))) - 1" using cnt(1) by (simp add: remove_elem_def)
  also have "\<dots> = of_nat (length (concat (buckets h)) - 1)" by (rule word_pred_of_nat [OF pos, symmetric])
  finally have e: "elem_cnt (remove_elem h x) = of_nat (length (concat (buckets (remove_elem h x))))" unfolding c ln .
  have "sized (remove_elem h x)" using s by (simp add: remove_elem_def sized_def)
  moreover have "placed (remove_elem h x)" unfolding placed_def ix
    using p set_remove1_subset by (fastforce simp: remove_elem_def placed_def)
  moreover have "functions_ok (remove_elem h x)" using f unfolding functions_ok_def sm by (simp add: remove_elem_def)
  moreover have "distinct (concat (buckets (remove_elem h x)))" unfolding c using d by (rule distinct_remove1)
  moreover have "\<forall>y \<in> elems (remove_elem h x). \<forall>z \<in> elems (remove_elem h x). same (remove_elem h x) y z \<longrightarrow> y = z" unfolding el sm using u by blast
  ultimately show "hash_wf n (remove_elem h x)" using e l unfolding hash_wf_def by simp
qed

section \<open>A table is a map\<close>

datatype 'e hash_op = Insert 'e | Replace 'e | Delete 'e | Find 'e

text \<open>The specification: a map from the elements to the stored element that equals them.\<close>

definition put :: "('e \<Rightarrow> 'e \<Rightarrow> bool) \<Rightarrow> 'e \<Rightarrow> 'e option \<Rightarrow> ('e \<Rightarrow> 'e option) \<Rightarrow> 'e \<Rightarrow> 'e option" where
  "put eqv e v m = (\<lambda>x. if eqv x e then v else m x)"

fun map_op :: "('e \<Rightarrow> 'e \<Rightarrow> bool) \<Rightarrow> 'e hash_op \<Rightarrow> ('e \<Rightarrow> 'e option) \<Rightarrow> 'e option \<times> ('e \<Rightarrow> 'e option)" where
  "map_op eqv (Insert e) m = (m e, if m e = None then put eqv e (Some e) m else m)"
| "map_op eqv (Replace e) m = (m e, put eqv e (Some e) m)"
| "map_op eqv (Delete e) m = (m e, put eqv e None m)"
| "map_op eqv (Find e) m = (m e, m)"

fun run_op :: "(nat \<Rightarrow> bool) \<Rightarrow> 'e hash_op \<Rightarrow> 'e hash \<Rightarrow> ('e option \<times> 'e hash) option" where
  "run_op malloc (Insert e) h = hash_insert malloc h e"
| "run_op malloc (Replace e) h = hash_replace malloc h e"
| "run_op malloc (Delete e) h = hash_delete malloc h e"
| "run_op malloc (Find e) h = do { r \<leftarrow> hash_find h e; Some (r, h) }"

lemma contents_eqI:
  assumes "hash_wf n h" "\<And>x y. m x = Some y \<longleftrightarrow> y \<in> elems h \<and> same h y x"
  shows "contents h = m"
proof
  fix x
  show "contents h x = m x" using contents_iff [OF assms(1), of x] assms(2) [of x] by (metis option.exhaust)
qed

lemma wf_mono: "hash_wf n h \<Longrightarrow> n \<le> k \<Longrightarrow> hash_wf k h"
  by (auto simp: hash_wf_def)

lemma wf_eqv:
  assumes "hash_wf n h"
  shows "same h x x" "same h x y \<Longrightarrow> same h y z \<Longrightarrow> same h x z" "x \<in> elems h \<Longrightarrow> y \<in> elems h \<Longrightarrow> same h x y \<Longrightarrow> x = y"
  using assms unfolding hash_wf_def functions_ok_def by blast+

lemma put_insert:
  assumes wf: "hash_wf n h" and c: "contents h e = None" and h': "hash_wf k h'" "elems h' = insert e (elems h)" "same h' = same h"
  shows "contents h' = put (same h) e (Some e) (contents h)"
proof (rule contents_eqI [OF h'(1)])
  fix x y
  have "contents h x = Some y \<longleftrightarrow> y \<in> elems h \<and> same h y x" by (rule contents_iff [OF wf])
  moreover have "\<not> same h y e" if "y \<in> elems h" using contents_iff [OF wf, of e y] c that by simp
  ultimately show "put (same h) e (Some e) (contents h) x = Some y \<longleftrightarrow> y \<in> elems h' \<and> same h' y x"
    unfolding put_def h'(2,3) using wf_eqv(2) [OF wf, of y x e] same_sym [of h x e] by auto
qed

lemma put_delete:
  assumes wf: "hash_wf n h" and c: "contents h e = Some f" and h': "hash_wf k h'" "elems h' = elems h - {f}" "same h' = same h"
  shows "contents h' = put (same h) e None (contents h)"
proof (rule contents_eqI [OF h'(1)])
  fix x y
  have xy: "contents h x = Some y \<longleftrightarrow> y \<in> elems h \<and> same h y x" by (rule contents_iff [OF wf])
  have f: "f \<in> elems h" "same h f e" using contents_iff [OF wf] c by auto
  have "y = f" if "same h x e" "y \<in> elems h" "same h y x"
    using wf_eqv(3) [OF wf that(2) f(1)] wf_eqv(2) [OF wf that(3,1)] wf_eqv(2) [OF wf, of y e f] same_sym [of h e f] f(2) by blast
  moreover have "same h x e" if "same h f x" using wf_eqv(2) [OF wf, of x f e] same_sym [of h f x] that f(2) by blast
  ultimately show "put (same h) e None (contents h) x = Some y \<longleftrightarrow> y \<in> elems h' \<and> same h' y x"
    unfolding put_def h'(2,3) using xy by auto
qed

lemma put_put: "put eqv e v (put eqv e w m) = put eqv e v m"
  by (rule ext) (simp add: put_def)

lemma put_None: "hash_wf n h \<Longrightarrow> contents h e = None \<Longrightarrow> put (same h) e None (contents h) = contents h"
proof
  fix x assume wf: "hash_wf n h" and c: "contents h e = None"
  have "contents h x = None" if "same h x e"
  proof (rule ccontr)
    assume "contents h x \<noteq> None"
    then obtain y where "contents h x = Some y" by blast
    then have "y \<in> elems h" "same h y e" using contents_iff [OF wf] wf_eqv(2) [OF wf _ that] by auto
    then show False using c contents_iff [OF wf, of e y] by simp
  qed
  then show "put (same h) e None (contents h) x = contents h x" by (simp add: put_def)
qed

lemma rehash_wf:
  assumes wf: "hash_wf n h" and n: "n < 2 ^ 29"
  shows "\<exists>h'. rehash malloc h = Some h' \<and> hash_wf n h' \<and> elems h' = elems h \<and> same h' = same h"
proof -
  have a: "distinct (concat (buckets h))" "functions_ok h" "elem_cnt h = of_nat (length (concat (buckets h)))"
    "length (concat (buckets h)) \<le> n" "\<forall>x \<in> elems h. \<forall>y \<in> elems h. same h x y \<longrightarrow> x = y" "sized h" "placed h"
    using wf unfolding hash_wf_def by blast+
  have "unat (elem_cnt h) < 2 ^ 29" unfolding a(3) using a(4) n unat_of_nat_le [of "length (concat (buckets h))"] by linarith
  then obtain h' where "rehash malloc h = Some h'" "rearranged h h'" using rehash_ok [OF a(6,7)] by blast
  then show ?thesis using rearranged_wf [OF _ a(1-5)] by blast
qed

lemma contents_same_elems:
  assumes "hash_wf n h" "hash_wf k h'" "elems h' = elems h" "same h' = same h"
  shows "contents h' = contents h"
  by (rule contents_eqI [OF assms(2)]) (simp add: contents_iff [OF assms(1)] assms(3,4))

lemma hash_insert_ok:
  assumes wf: "hash_wf n h" and n: "Suc n < 2 ^ 29"
  shows "\<exists>r h'. hash_insert malloc h e = Some (r, h') \<and> hash_wf (Suc n) h' \<and> same h' = same h
    \<and> map_op (same h) (Insert e) (contents h) = (r, contents h')"
proof -
  have b: "find_bucket h e = Some (idx h e)" using wf by (intro find_bucket_eq) (simp add: hash_wf_def)
  note f = hash_find_eq(2) [OF wf, of e, symmetric]
  show ?thesis
  proof (cases "contents h e")
    case None
    obtain h' where h': "rehash malloc (insert_elem h (idx h e) e) = Some h'" "hash_wf (Suc n) h'" "elems h' = insert e (elems h)" "same h' = same h"
      using insert_elem_wf [OF wf n None] by blast
    have "hash_insert malloc h e = Some (None, h')" using b h'(1) by (simp add: hash_insert_def f None)
    then show ?thesis using put_insert [OF wf None h'(2-4)] h'(2,4) None by simp
  next
    case (Some x)
    obtain h' where h': "rehash malloc h = Some h'" "hash_wf n h'" "elems h' = elems h" "same h' = same h" using rehash_wf [OF wf] n by auto
    have "hash_insert malloc h e = Some (Some x, h')" using b h'(1) by (simp add: hash_insert_def f Some)
    then show ?thesis using contents_same_elems [OF wf h'(2-4)] wf_mono [OF h'(2)] h'(4) Some by simp
  qed
qed

lemma hash_replace_ok:
  assumes wf: "hash_wf n h" and n: "Suc n < 2 ^ 29"
  shows "\<exists>r h'. hash_replace malloc h e = Some (r, h') \<and> hash_wf (Suc n) h' \<and> same h' = same h
    \<and> map_op (same h) (Replace e) (contents h) = (r, contents h')"
proof -
  have b: "find_bucket h e = Some (idx h e)" using wf by (intro find_bucket_eq) (simp add: hash_wf_def)
  note f = hash_find_eq(2) [OF wf, of e, symmetric]
  define g where "g = (case contents h e of Some x \<Rightarrow> remove_elem h x | None \<Rightarrow> h)"
  have g: "hash_wf n g \<and> same g = same h \<and> idx g = idx h \<and> contents g = put (same h) e None (contents h)"
  proof (cases "contents h e")
    case None
    then show ?thesis using wf put_None [OF wf None] by (simp add: g_def)
  next
    case (Some x)
    then have x: "x \<in> elems h" using contents_iff [OF wf] by blast
    have "n < 2 ^ 32" using n by simp
    note r = remove_elem_wf [OF wf this x]
    show ?thesis using r(1,3,4) put_delete [OF wf Some r(1-3)] Some by (simp add: g_def)
  qed
  then have "contents g e = None" using wf_eqv(1) [OF wf] by (simp add: put_def)
  with g obtain h' where h': "rehash malloc (insert_elem g (idx h e) e) = Some h'" "hash_wf (Suc n) h'" "elems h' = insert e (elems g)" "same h' = same g"
    using insert_elem_wf [OF _ n] by metis
  have "hash_replace malloc h e = Some (contents h e, h')" using b h'(1) by (simp add: hash_replace_def f g_def)
  moreover have "contents h' = put (same h) e (Some e) (contents h)"
    using put_insert [OF conjunct1 [OF g] \<open>contents g e = None\<close> h'(2-4)] g by (simp add: put_put)
  ultimately show ?thesis using h'(2,4) g by simp
qed

lemma hash_delete_ok:
  assumes wf: "hash_wf n h" and n: "Suc n < 2 ^ 29"
  shows "\<exists>r h'. hash_delete malloc h e = Some (r, h') \<and> hash_wf (Suc n) h' \<and> same h' = same h
    \<and> map_op (same h) (Delete e) (contents h) = (r, contents h')"
proof -
  have b: "find_bucket h e = Some (idx h e)" using wf by (intro find_bucket_eq) (simp add: hash_wf_def)
  note f = hash_find_eq(2) [OF wf, of e, symmetric]
  show ?thesis
  proof (cases "contents h e")
    case None
    have "hash_delete malloc h e = Some (None, h)" using b by (simp add: hash_delete_def f None)
    then show ?thesis using wf_mono [OF wf] put_None [OF wf None] None by simp
  next
    case (Some x)
    then have x: "x \<in> elems h" using contents_iff [OF wf] by blast
    have "n < 2 ^ 32" using n by simp
    note r = remove_elem_wf [OF wf this x]
    obtain h' where h': "rehash malloc (remove_elem h x) = Some h'" "hash_wf n h'" "elems h' = elems (remove_elem h x)" "same h' = same (remove_elem h x)"
      using rehash_wf [OF r(1)] n by auto
    have "hash_delete malloc h e = Some (Some x, h')" using b h'(1) by (simp add: hash_delete_def f Some)
    then show ?thesis using wf_mono [OF h'(2)] put_delete [OF wf Some h'(2) _ _] h'(3,4) r(2,3) Some by simp
  qed
qed

lemma run_op_ok:
  assumes "hash_wf n h" "Suc n < 2 ^ 29"
  shows "\<exists>r h'. run_op malloc p h = Some (r, h') \<and> hash_wf (Suc n) h' \<and> same h' = same h
    \<and> map_op (same h) p (contents h) = (r, contents h')"
proof (cases p)
  case (Find e)
  then show ?thesis using wf_mono [OF assms(1)] by (simp add: hash_find_eq [OF assms(1)])
qed (use hash_insert_ok [OF assms] hash_replace_ok [OF assms] hash_delete_ok [OF assms] in auto)

section \<open>Sequences of operations\<close>

fun map_ops :: "('e \<Rightarrow> 'e \<Rightarrow> bool) \<Rightarrow> 'e hash_op list \<Rightarrow> ('e \<Rightarrow> 'e option) \<Rightarrow> 'e option list \<times> ('e \<Rightarrow> 'e option)" where
  "map_ops eqv [] m = ([], m)"
| "map_ops eqv (p # ps) m = (let (r, m) = map_op eqv p m; (rs, m) = map_ops eqv ps m in (r # rs, m))"

fun run_with :: "('c \<Rightarrow> 'e hash_op \<Rightarrow> 'h \<Rightarrow> ('e option \<times> 'h) option) \<Rightarrow> ('c \<times> 'e hash_op) list \<Rightarrow> 'h \<Rightarrow> ('e option list \<times> 'h) option" where
  "run_with step [] h = Some ([], h)"
| "run_with step ((c, p) # ps) h = do { (r, h) \<leftarrow> step c p h; (rs, h) \<leftarrow> run_with step ps h; Some (r # rs, h) }"

text \<open>The contract of an implementation: each operation returns and does what the specification says, as long as the
  number of operations stays below \<open>cap\<close>. \<open>step c\<close> is an operation in circumstances \<open>c\<close> that the caller does not control.\<close>

locale dictionary =
  fixes inv :: "nat \<Rightarrow> 'h \<Rightarrow> bool"
    and eqv :: "'h \<Rightarrow> 'e \<Rightarrow> 'e \<Rightarrow> bool"
    and view :: "'h \<Rightarrow> 'e \<Rightarrow> 'e option"
    and step :: "'c \<Rightarrow> 'e hash_op \<Rightarrow> 'h \<Rightarrow> ('e option \<times> 'h) option"
    and cap :: nat
  assumes step_ok: "inv n h \<Longrightarrow> Suc n < cap \<Longrightarrow>
    \<exists>r h'. step c p h = Some (r, h') \<and> inv (Suc n) h' \<and> eqv h' = eqv h \<and> map_op (eqv h) p (view h) = (r, view h')"
begin

lemma run_with_ok:
  assumes "inv n h" "n + length ps < cap"
  shows "\<exists>rs h'. run_with step ps h = Some (rs, h') \<and> inv (n + length ps) h' \<and> map_ops (eqv h) (map snd ps) (view h) = (rs, view h')"
  using assms
proof (induction ps arbitrary: n h)
  case (Cons cp ps)
  obtain c p where cp: "cp = (c, p)" by (cases cp)
  obtain r h1 where s: "step c p h = Some (r, h1)" "inv (Suc n) h1" "eqv h1 = eqv h" "map_op (eqv h) p (view h) = (r, view h1)"
    using step_ok [of n h c p] Cons.prems by auto
  have "Suc n + length ps < cap" using Cons.prems by simp
  from Cons.IH [OF s(2) this] obtain rs h2 where "run_with step ps h1 = Some (rs, h2)" "inv (Suc n + length ps) h2"
    "map_ops (eqv h1) (map snd ps) (view h1) = (rs, view h2)" by blast
  then show ?case using s by (simp add: cp)
qed simp

end

interpretation table: dictionary hash_wf same contents run_op "2 ^ 29"
  by unfold_locales (rule run_op_ok)

section \<open>Load\<close>

text \<open>When memory is available, there are fewer than four elements per bucket after every rehash.\<close>

lemma move_bucket_cnt: "move_bucket b h = Some h' \<Longrightarrow> bucket_cnt h' = bucket_cnt h"
  by (induction b arbitrary: h) (auto simp: bind_eq_Some_conv)

lemma move_buckets_cnt: "move_buckets bs h = Some h' \<Longrightarrow> bucket_cnt h' = bucket_cnt h"
  by (induction bs arbitrary: h) (auto simp: bind_eq_Some_conv dest: move_bucket_cnt)

lemma rehash_load:
  assumes "sized h" "placed h" "unat (elem_cnt h) < 2 ^ 29" "\<And>n. malloc n" "rehash malloc h = Some h'"
  shows "unat (elem_cnt h') < 4 * unat (bucket_cnt h')"
proof -
  define c1 where "c1 = (let c0 = elem_cnt h div BEST_ELEMS_PER_BUCKET in if c0 < 4 then 4 else c0)"
  have "4 \<le> unat c1" by (simp add: c1_def Let_def word_less_nat_alt)
  then obtain r where r: "round_down c1 = Some r" "unat c1 < 2 * unat r" by (rule round_down_ge4)
  have "bucket_cnt h' = r" using assms(4,5) r(1)
    by (auto simp: rehash_def Let_def c1_def split: if_splits dest!: move_buckets_cnt)
  moreover have "unat (elem_cnt h) div 2 \<le> unat c1" by (auto simp: c1_def Let_def BEST_ELEMS_PER_BUCKET_def word_less_nat_alt unat_div)
  moreover have "elem_cnt h' = elem_cnt h" using rehash_ok [OF assms(1-3), of malloc] assms(5) by (auto simp: rearranged_def)
  ultimately show ?thesis using r(2) by simp
qed

section \<open>Iteration\<close>

fun iterate :: "nat \<Rightarrow> 'e hash \<Rightarrow> hash_iterator \<Rightarrow> 'e list option" where
  "iterate 0 h i = None"
| "iterate (Suc fuel) h i = do {
     (e, i) \<leftarrow> hash_next h i;
     case e of None \<Rightarrow> Some [] | Some e \<Rightarrow> do { es \<leftarrow> iterate fuel h i; Some (e # es) } }"

text \<open>The elements after position \<open>n\<close> of bucket \<open>b\<close>.\<close>

definition after :: "'e hash \<Rightarrow> nat \<Rightarrow> nat \<Rightarrow> 'e list" where
  "after h b n = drop n (buckets h ! b) @ concat (drop (Suc b) (buckets h))"

lemma next_loop_ok:
  assumes "b < length (buckets h)" "n \<le> length (buckets h ! b)"
  shows "case after h b n of
      [] \<Rightarrow> it_elem (next_loop h b (Suc n)) = None
    | e # es \<Rightarrow> (\<exists>b' n'. next_loop h b (Suc n) = \<lparr>it_bucket = b', it_elem = Some (Suc n')\<rparr> \<and> b' < length (buckets h)
        \<and> Suc n' \<le> length (buckets h ! b') \<and> buckets h ! b' ! n' = e \<and> after h b' (Suc n') = es)"
  using assms
proof (induction "length (buckets h) - b" arbitrary: b n rule: less_induct)
  case less
  consider (inside) "n < length (buckets h ! b)" | (stop) "n = length (buckets h ! b)" "Suc b \<ge> length (buckets h)"
    | (on) "n = length (buckets h ! b)" "Suc b < length (buckets h)" using less.prems by linarith
  then show ?case
  proof cases
    case inside
    then have "after h b n = buckets h ! b ! n # after h b (Suc n)" by (simp add: after_def Cons_nth_drop_Suc [symmetric])
    moreover have "next_loop h b (Suc n) = \<lparr>it_bucket = b, it_elem = Some (Suc n)\<rparr>" using inside by (subst next_loop.simps) simp
    ultimately show ?thesis using inside less.prems by auto
  next
    case stop
    then have "after h b n = []" by (simp add: after_def)
    moreover have "it_elem (next_loop h b (Suc n)) = None" using stop less.prems by (subst next_loop.simps) simp
    ultimately show ?thesis by simp
  next
    case on
    then have a: "after h b n = after h (Suc b) 0" by (simp add: after_def Cons_nth_drop_Suc [symmetric])
    have e: "next_loop h b (Suc n) = next_loop h (Suc b) (Suc 0)" using on less.prems by (subst next_loop.simps) simp
    show ?thesis unfolding a e using less.hyps [of "Suc b" 0] on by simp
  qed
qed

lemma iterate_after:
  assumes "b < length (buckets h)" "n \<le> length (buckets h ! b)"
  shows "iterate (Suc (length (after h b n))) h \<lparr>it_bucket = b, it_elem = Some n\<rparr> = Some (after h b n)"
  using assms
proof (induction "after h b n" arbitrary: b n)
  case Nil
  then show ?case using next_loop_ok [OF Nil.prems] by (simp add: hash_next_def hash_cur_def Let_def)
next
  case (Cons e es)
  obtain b' n' where l: "next_loop h b (Suc n) = \<lparr>it_bucket = b', it_elem = Some (Suc n')\<rparr>" "b' < length (buckets h)"
    "Suc n' \<le> length (buckets h ! b')" "buckets h ! b' ! n' = e" "after h b' (Suc n') = es"
    using next_loop_ok [OF Cons.prems] unfolding Cons.hyps(2) [symmetric] by auto
  have "iterate (Suc (length es)) h \<lparr>it_bucket = b', it_elem = Some (Suc n')\<rparr> = Some es" using Cons.hyps(1) [of b' "Suc n'"] l(2,3,5) by simp
  moreover have "hash_next h \<lparr>it_bucket = b, it_elem = Some n\<rparr> = Some (Some e, \<lparr>it_bucket = b', it_elem = Some (Suc n')\<rparr>)"
    using l(1,4) Cons.prems by (simp add: hash_next_def hash_cur_def Let_def)
  ultimately show ?case unfolding Cons.hyps(2) [symmetric] list.size(4) add_Suc_right add_0_right iterate.simps(2) [of "Suc (length es)"] by (simp del: iterate.simps)
qed

text \<open>The iteration idiom of \<open>hash.h\<close> visits every element once and then stops.\<close>

lemma iterate_all:
  assumes "0 < length (buckets h)"
  shows "iterate (Suc (length (concat (buckets h)))) h (hash_first h) = Some (concat (buckets h))"
proof -
  have "after h 0 0 = concat (buckets h)" using assms by (cases "buckets h") (auto simp: after_def)
  then show ?thesis using iterate_after [OF assms, of 0] by (simp add: hash_first_def)
qed

lemma apply_loop_eq: "apply_loop action bs s = fold action (concat bs) s"
proof -
  have "apply_bucket action b s = fold action b s" for b s by (induction b arbitrary: s) auto
  then show ?thesis by (induction bs arbitrary: s) auto
qed

lemma hash_apply_eq: "hash_apply h action s = fold action (concat (buckets h)) s"
  by (simp add: hash_apply_def apply_loop_eq)

lemma clear_loop_eq:
  "clear_loop d bs s = (replicate (length bs) [], case d of Some f \<Rightarrow> fold f (concat bs) s | None \<Rightarrow> s)"
proof -
  have "clear_bucket f b s = fold f b s" for f :: "'a \<Rightarrow> 'b \<Rightarrow> 'b" and b s by (induction b arbitrary: s) auto
  then show ?thesis by (induction bs arbitrary: s) (auto split: option.splits)
qed

lemma concat_replicate_Nil [simp]: "concat (replicate n []) = []"
  by (induction n) auto

lemma hash_clear_ok:
  assumes "hash_wf n h"
  shows "hash_wf 0 (fst (hash_clear h d s))" "elems (fst (hash_clear h d s)) = {}"
proof -
  obtain t where e: "hash_clear h d s = (h\<lparr>buckets := replicate (length (buckets h)) [], elem_cnt := 0\<rparr>, t)" by (simp add: hash_clear_def clear_loop_eq)
  let ?h = "h\<lparr>buckets := replicate (length (buckets h)) [], elem_cnt := 0\<rparr>"
  have "same ?h = same h" by (intro ext) (simp add: same_def)
  then have "functions_ok ?h" using assms unfolding hash_wf_def functions_ok_def by simp
  moreover have "sized ?h" "placed ?h" using assms by (simp_all add: hash_wf_def sized_def placed_def)
  ultimately show "hash_wf 0 (fst (hash_clear h d s))" "elems (fst (hash_clear h d s)) = {}" unfolding e by (simp_all add: hash_wf_def elems_def)
qed

lemma hash_init_ok:
  assumes "hash_init malloc junk hash lt = Some h" "functions_ok h"
  shows "hash_wf 0 h" "contents h = (\<lambda>e. None)" "hash_fn h = hash" "less_fn h = lt"
proof -
  have h: "h = \<lparr>elem_cnt = 0, bucket_cnt = 4, buckets = replicate 4 [], hash_fn = hash, less_fn = lt\<rparr>"
    using assms(1) by (auto simp: hash_init_def hash_clear_def clear_loop_eq Let_def split: if_splits)
  have "is_power_of_2 4" by (simp add: is_power_of_2_def turn_off_least_1bit_def)
  then show wf: "hash_wf 0 h" using assms(2) by (simp add: hash_wf_def h sized_def placed_def elems_def)
  show "contents h = (\<lambda>e. None)" by (rule contents_eqI [OF wf]) (simp add: h elems_def)
  show "hash_fn h = hash" "less_fn h = lt" by (simp_all add: h)
qed

section \<open>Properties\<close>

text \<open>C39. Every sequence of insertions, replacements, deletions and searches on a new table, whatever allocations fail,
  runs to the end and returns what a map from keys to elements returns; the table stays well-formed, its counter is the
  number of its elements, and its contents are those of the map. The sequences are shorter than \<open>2^29\<close>, the number of
  elements that fit in the address space.\<close>

theorem hash_refines_map:
  assumes "hash_init malloc junk hash lt = Some h" "functions_ok h" "length ps < 2 ^ 29"
  shows "\<exists>rs h'. run_with run_op ps h = Some (rs, h') \<and> hash_wf (length ps) h' \<and> unat (hash_size h') = card (elems h')
    \<and> map_ops (same h) (map snd ps) (\<lambda>e. None) = (rs, contents h')"
proof -
  note i = hash_init_ok [OF assms(1,2)]
  from table.run_with_ok [OF i(1), of ps] obtain rs h' where r: "run_with run_op ps h = Some (rs, h')" "hash_wf (length ps) h'"
    "map_ops (same h) (map snd ps) (\<lambda>e. None) = (rs, contents h')" using assms(3) i(2) by auto
  have "length (concat (buckets h')) \<le> length ps" using r(2) unfolding hash_wf_def by blast
  then have "length (concat (buckets h')) < 2 ^ 32" using assms(3) by simp
  then have "unat (of_nat (length (concat (buckets h'))) :: u32) = length (concat (buckets h'))" by (simp only: unat_of_nat) simp
  then have "unat (hash_size h') = card (elems h')"
    using r(2) distinct_card [of "concat (buckets h')"] by (simp only: hash_size_def hash_wf_def elems_def)
  then show ?thesis using r by blast
qed

theorem hash_refines_map_witness:
  "\<exists>h h'. hash_init (\<lambda>n. True) [] (\<lambda>e. hash_int (fst e)) (\<lambda>x y. fst x < fst y) = Some h
    \<and> run_with run_op [(\<lambda>n. True, Insert (1 :: u32, 10 :: u32)), (\<lambda>n. False, Insert (1, 20)), (\<lambda>n. True, Replace (1, 30)),
         (\<lambda>n. True, Find (1, 0)), (\<lambda>n. True, Delete (1, 0)), (\<lambda>n. False, Find (1, 0))] h
       = Some ([None, Some (1, 10), Some (1, 10), Some (1, 30), Some (1, 30), None], h')"
proof -
  define f where "f = (\<lambda>e :: u32 \<times> u32. hash_int (fst e))"
  define l where "l = (\<lambda>(x :: u32 \<times> u32) (y :: u32 \<times> u32). fst x < fst y)"
  obtain h where h: "hash_init (\<lambda>n. True) [] f l = Some h" by (simp add: hash_init_def Let_def)
  then have e: "hash_fn h = f" "less_fn h = l" by (auto simp: hash_init_def hash_clear_def clear_loop_eq Let_def)
  have s: "same h x y \<longleftrightarrow> fst x = fst y" for x y by (auto simp: same_def e l_def)
  have k: "functions_ok h" by (simp add: functions_ok_def s e f_def)
  show ?thesis
    using hash_refines_map [OF h k, of "[(\<lambda>n. True, Insert (1, 10)), (\<lambda>n. False, Insert (1, 20)), (\<lambda>n. True, Replace (1, 30)),
         (\<lambda>n. True, Find (1, 0)), (\<lambda>n. True, Delete (1, 0)), (\<lambda>n. False, Find (1, 0))]"] h
    unfolding f_def l_def by (auto simp: put_def s)
qed

end
