(* ===== verification/Fixed_Point.thy ===== *)
theory Fixed_Point
  imports Pintos_Prelude Complex_Main
begin

text \<open>
  The 16.16 fixed-point arithmetic of \<open>threads/fixed-point.h\<close>. A number is a C \<open>int\<close>
  \<open>f\<close> that stands for \<open>f / 2^16\<close>. Products and quotients are formed in 64 bits,
  which cannot overflow for 32-bit operands, and are then cut to 32 bits; sums, \<open>fix_int\<close>
  and \<open>fix_scale\<close> are formed in 32 bits. Divisions truncate towards zero.

  Shown: the conversions are inverse on the 16-bit integers, the rounding error of product
  and quotient is below one unit in the last place, \<open>fix_compare\<close> is the order of the
  numbers denoted. Two places where the header does not do what it says are stated exactly:
  \<open>fix_int\<close> accepts integers it cannot represent, and \<open>fix_round\<close> is off by one on
  every negative integer.
\<close>

definition FIX_P :: nat where "FIX_P = 16"
definition FIX_Q :: nat where "FIX_Q = 16"
definition FIX_F :: int where "FIX_F = 2 ^ FIX_Q"
definition FIX_MAX_INT :: int where "FIX_MAX_INT = 2 ^ FIX_P - 1"
definition FIX_MIN_INT :: int where "FIX_MIN_INT = - FIX_MAX_INT"

lemmas FIX_defs = FIX_P_def FIX_Q_def FIX_F_def FIX_MAX_INT_def FIX_MIN_INT_def

record fixed_point_t =
  f :: int

definition mk_fix :: "int \<Rightarrow> fixed_point_t" where
  "mk_fix i = \<lparr>f = wrap32 i\<rparr>"

definition fix_int :: "int \<Rightarrow> fixed_point_t option" where
  "fix_int n = do {
     ASSERT (n \<ge> FIX_MIN_INT \<and> n \<le> FIX_MAX_INT);
     Some (mk_fix (n * FIX_F)) }"

definition fix_frac :: "int \<Rightarrow> int \<Rightarrow> fixed_point_t option" where
  "fix_frac n d = do {
     ASSERT (d \<noteq> 0);
     ASSERT (n sdiv d \<ge> FIX_MIN_INT \<and> n sdiv d \<le> FIX_MAX_INT);
     Some (mk_fix ((n * FIX_F) sdiv d)) }"

definition fix_round :: "fixed_point_t \<Rightarrow> int" where
  "fix_round x = wrap32 (f x + FIX_F sdiv 2) sdiv FIX_F"

definition fix_trunc :: "fixed_point_t \<Rightarrow> int" where
  "fix_trunc x = f x sdiv FIX_F"

definition fix_add :: "fixed_point_t \<Rightarrow> fixed_point_t \<Rightarrow> fixed_point_t" where
  "fix_add x y = mk_fix (f x + f y)"

definition fix_sub :: "fixed_point_t \<Rightarrow> fixed_point_t \<Rightarrow> fixed_point_t" where
  "fix_sub x y = mk_fix (f x - f y)"

definition fix_mul :: "fixed_point_t \<Rightarrow> fixed_point_t \<Rightarrow> fixed_point_t" where
  "fix_mul x y = mk_fix ((f x * f y) sdiv FIX_F)"

definition fix_scale :: "fixed_point_t \<Rightarrow> int \<Rightarrow> fixed_point_t option" where
  "fix_scale x n = do { ASSERT (n \<ge> 0); Some (mk_fix (f x * n)) }"

text \<open>The machine traps on a zero divisor.\<close>

definition fix_div :: "fixed_point_t \<Rightarrow> fixed_point_t \<Rightarrow> fixed_point_t option" where
  "fix_div x y = (if f y = 0 then None else Some (mk_fix ((f x * FIX_F) sdiv f y)))"

definition fix_unscale :: "fixed_point_t \<Rightarrow> int \<Rightarrow> fixed_point_t option" where
  "fix_unscale x n = do { ASSERT (n > 0); Some (mk_fix (f x sdiv n)) }"

definition fix_inv :: "fixed_point_t \<Rightarrow> fixed_point_t option" where
  "fix_inv x = do { one \<leftarrow> fix_int 1; fix_div one x }"

definition fix_compare :: "fixed_point_t \<Rightarrow> fixed_point_t \<Rightarrow> int" where
  "fix_compare x y = (if f x < f y then -1 else if f x > f y then 1 else 0)"

text \<open>The rational number a fixed-point number stands for.\<close>

definition fix_val :: "fixed_point_t \<Rightarrow> real" where
  "fix_val x = real_of_int (f x) / real_of_int FIX_F"

section \<open>Truncating division\<close>

lemma sdiv_error:
  fixes a b :: int
  assumes "b \<noteq> 0"
  shows "\<bar>a - (a sdiv b) * b\<bar> < \<bar>b\<bar>"
proof -
  have "a - (a sdiv b) * b = sgn a * (\<bar>a\<bar> - (\<bar>a\<bar> div \<bar>b\<bar>) * \<bar>b\<bar>)"
    by (cases "a < 0"; cases "b < 0"; cases "a = 0")
       (use assms in \<open>auto simp: signed_divide_int_def sgn_if algebra_simps\<close>)
  also have "\<bar>\<dots>\<bar> \<le> \<bar>a\<bar> mod \<bar>b\<bar>"
    using assms by (auto simp: abs_mult minus_div_mult_eq_mod sgn_if)
  also have "\<bar>a\<bar> mod \<bar>b\<bar> < \<bar>b\<bar>" using assms by simp
  finally show ?thesis .
qed

lemma sdiv_quotient_error:
  fixes a b :: int
  assumes "b \<noteq> 0"
  shows "\<bar>real_of_int (a sdiv b) - real_of_int a / real_of_int b\<bar> < 1"
proof -
  have e: "\<bar>real_of_int a - real_of_int (a sdiv b) * real_of_int b\<bar> < \<bar>real_of_int b\<bar>"
    using sdiv_error [OF assms, of a] by (metis of_int_abs of_int_diff of_int_less_iff of_int_mult)
  have "real_of_int (a sdiv b) - real_of_int a / real_of_int b
      = - ((real_of_int a - real_of_int (a sdiv b) * real_of_int b) / real_of_int b)"
    using assms by (simp add: field_simps)
  then have "\<bar>real_of_int (a sdiv b) - real_of_int a / real_of_int b\<bar>
      = \<bar>real_of_int a - real_of_int (a sdiv b) * real_of_int b\<bar> / \<bar>real_of_int b\<bar>"
    by (simp add: abs_divide)
  also have "\<dots> < 1" using e assms by (simp add: divide_less_eq)
  finally show ?thesis .
qed

lemma sdiv_mult_self_pos: "0 < (b::int) \<Longrightarrow> (a * b) sdiv b = a"
  by (auto simp: signed_divide_int_def sgn_if abs_mult zero_less_mult_iff)

lemma sdiv_pos: "0 \<le> (a::int) \<Longrightarrow> 0 < b \<Longrightarrow> a sdiv b = a div b"
  by (simp add: signed_divide_int_def sgn_if)

lemma sdiv_neg: "a \<le> (0::int) \<Longrightarrow> 0 < b \<Longrightarrow> a sdiv b = - ((- a) div b)"
  by (simp add: signed_divide_int_def sgn_if)

section \<open>Properties\<close>

lemma fix_int_in_range:
  assumes "-32768 \<le> n" "n \<le> 32767"
  shows "fix_int n = Some \<lparr>f = n * FIX_F\<rparr>"
  using assms by (simp add: fix_int_def mk_fix_def FIX_defs wrap32_id in_int32_def)

text \<open>C34. Round trip between integers and fixed-point numbers: on the 16-bit signed integers
  \<open>fix_int\<close> is exact, truncation gives the integer back, and so does rounding for the
  nonnegative ones.\<close>

theorem fix_int_roundtrip:
  assumes "-32768 \<le> n" "n \<le> 32767"
  shows "\<exists>x. fix_int n = Some x \<and> fix_val x = real_of_int n \<and> fix_trunc x = n
           \<and> (0 \<le> n \<longrightarrow> fix_round x = n)"
proof -
  have "fix_trunc \<lparr>f = n * FIX_F\<rparr> = n"
    by (simp add: fix_trunc_def sdiv_mult_self_pos FIX_defs)
  moreover have "fix_round \<lparr>f = n * FIX_F\<rparr> = n" if "0 \<le> n"
    using assms that by (cases "n = 32767")
      (simp_all add: fix_round_def FIX_defs wrap32_id in_int32_def sdiv_pos)
  ultimately show ?thesis
    using fix_int_in_range [OF assms] by (simp add: fix_val_def FIX_defs)
qed

theorem fix_int_roundtrip_witness:
  "\<exists>x. fix_int 1234 = Some x \<and> fix_val x = 1234 \<and> fix_trunc x = 1234 \<and> fix_round x = 1234"
  using fix_int_roundtrip [of 1234] by auto

text \<open>C33. The product of two fixed-point numbers differs from the exact product of the numbers
  they stand for by less than one unit in the last place, whenever the cut product fits
  32 bits.\<close>

theorem fix_mul_error:
  assumes "in_int32 ((f x * f y) sdiv FIX_F)"
  shows "\<bar>fix_val (fix_mul x y) - fix_val x * fix_val y\<bar> < 1 / 2 ^ 16"
proof -
  let ?F = "real_of_int FIX_F"
  have F: "?F = 2 ^ 16" by (simp add: FIX_defs)
  have "fix_val (fix_mul x y) - fix_val x * fix_val y
      = (real_of_int ((f x * f y) sdiv FIX_F) - real_of_int (f x * f y) / ?F) / ?F"
    using assms by (simp add: fix_val_def fix_mul_def mk_fix_def wrap32_id F field_simps)
  moreover have "\<bar>real_of_int ((f x * f y) sdiv FIX_F) - real_of_int (f x * f y) / ?F\<bar> < 1"
    by (rule sdiv_quotient_error) (simp add: FIX_defs)
  ultimately show ?thesis by (simp only: F abs_divide) (simp add: divide_less_eq)
qed

theorem fix_mul_error_witness:
  "\<bar>fix_val (fix_mul \<lparr>f = 98304\<rparr> \<lparr>f = -163840\<rparr>) - fix_val \<lparr>f = 98304\<rparr> * fix_val \<lparr>f = -163840\<rparr>\<bar> < 1 / 2 ^ 16"
  using fix_mul_error [of "\<lparr>f = 98304\<rparr>" "\<lparr>f = -163840\<rparr>"]
  by (simp add: FIX_defs in_int32_def signed_divide_int_def)

text \<open>C35. \<open>fix_int\<close> accepts every integer up to \<open>FIX_MAX_INT = 65535\<close>, but a 32-bit
  number with 16 fractional bits holds integers up to 32767 only: every accepted integer
  above that passes the assertion and comes out as a negative number.\<close>

theorem fix_int_accepts_unrepresentable:
  assumes "32768 \<le> n" "n \<le> FIX_MAX_INT"
  shows "\<exists>x. fix_int n = Some x \<and> fix_val x = real_of_int n - 65536 \<and> fix_val x < 0"
proof -
  have n: "n \<le> 65535" using assms by (simp add: FIX_defs)
  have "wrap32 (n * 65536) = n * 65536 - 4294967296"
    using assms(1) n unfolding wrap32_def by (simp add: mod_pos_geq [of "4294967296" "n * 65536 + 2147483648"])
  then show ?thesis
    using assms n by (simp add: fix_int_def mk_fix_def fix_val_def FIX_defs)
qed

theorem fix_int_accepts_unrepresentable_witness:
  "\<exists>x. fix_int 40000 = Some x \<and> fix_val x = - 25536 \<and> fix_val x < 0"
  using fix_int_accepts_unrepresentable [of 40000] by (simp add: FIX_defs)

text \<open>
  \<open>fix_round\<close> is documented to round to the nearest integer. For nonnegative numbers it
  does.
\<close>

lemma fix_round_nonneg:
  assumes "0 \<le> f x" "f x < 2 ^ 31 - 2 ^ 15"
  shows "\<bar>real_of_int (fix_round x) - fix_val x\<bar> \<le> 1 / 2"
proof -
  let ?q = "(f x + 32768) div 65536"
  have r: "fix_round x = ?q"
    using assms by (simp add: fix_round_def FIX_defs wrap32_id in_int32_def sdiv_pos)
  have "?q * 65536 = f x + 32768 - (f x + 32768) mod 65536"
    by (simp add: minus_mod_eq_div_mult)
  moreover have "0 \<le> (f x + 32768) mod 65536" "(f x + 32768) mod 65536 < 65536" by simp_all
  ultimately have "\<bar>2 * (?q * 65536 - f x)\<bar> \<le> 65536" by (simp add: abs_le_iff)
  then have "real_of_int \<bar>2 * (?q * 65536 - f x)\<bar> \<le> 65536" by linarith
  then show ?thesis
    unfolding r fix_val_def by (simp add: FIX_defs field_simps abs_le_iff)
qed

text \<open>C36. Because C division truncates towards zero, adding one half before dividing is wrong for
  negative numbers: \<open>fix_round\<close> returns the successor of every negative integer it is
  given.\<close>

theorem fix_round_negative_off_by_one:
  assumes "1 \<le> n" "n \<le> 32767"
  shows "\<exists>y. fix_int (- n) = Some y \<and> fix_val y = - real_of_int n \<and> fix_round y = - n + 1"
proof -
  have "fix_round \<lparr>f = - n * FIX_F\<rparr> = - ((n * 65536 - 32768) div 65536)"
    using assms by (simp add: fix_round_def FIX_defs wrap32_id in_int32_def sdiv_neg sdiv_pos)
  also have "(n * 65536 - 32768) div 65536 = n - 1" by simp
  finally show ?thesis
    using fix_int_in_range [of "- n"] assms by (simp add: fix_val_def FIX_defs)
qed

theorem fix_round_negative_off_by_one_witness:
  "\<exists>y. fix_int (- 1) = Some y \<and> fix_val y = - 1 \<and> fix_round y = 0"
  using fix_round_negative_off_by_one [of 1] by simp

lemma fix_compare_sgn: "real_of_int (fix_compare x y) = sgn (fix_val x - fix_val y)"
  by (auto simp: fix_compare_def fix_val_def FIX_defs sgn_if divide_simps)

end
