(* ===== verification/Kernel_List.thy ===== *)
theory Kernel_List
  imports Pintos_Prelude "HOL-Library.Multiset"
begin

text \<open>
  The doubly linked lists of \<open>lib/kernel/list.c\<close>, at the level of pointers. The heap maps
  the address of a \<open>struct list_elem\<close> to its two links; a pointer is \<open>None\<close> (null) or
  an address. A \<open>struct list\<close> is the pair of addresses of its two header elements. Every
  assignment of the source is one heap update, in the order of the source, so that aliasing
  between the elements involved is part of the model; reading a link through a null pointer
  and a failing \<open>ASSERT\<close> are \<open>None\<close>. Loops that follow links are
  \<open>partial_function (option)\<close>: on a heap that is not a list they may not end.

  The abstraction is \<open>is_list h l xs\<close>: in heap \<open>h\<close>, list \<open>l\<close> holds exactly the
  elements \<open>xs\<close>, in this order, properly linked in both directions.
\<close>

type_synonym addr = nat
type_synonym ptr = "addr option"

record list_elem =
  prev :: ptr
  "next" :: ptr

type_synonym heap = "addr \<Rightarrow> list_elem"

record klist =
  head :: addr
  tail :: addr

section \<open>The operations of list.c\<close>

definition rd_prev :: "heap \<Rightarrow> ptr \<Rightarrow> ptr option" where
  "rd_prev h p = map_option (\<lambda>a. prev (h a)) p"

definition rd_next :: "heap \<Rightarrow> ptr \<Rightarrow> ptr option" where
  "rd_next h p = map_option (\<lambda>a. next (h a)) p"

definition set_prev :: "ptr \<Rightarrow> ptr \<Rightarrow> heap \<Rightarrow> heap option" where
  "set_prev p v h = map_option (\<lambda>a. h(a := (h a)\<lparr>prev := v\<rparr>)) p"

definition set_next :: "ptr \<Rightarrow> ptr \<Rightarrow> heap \<Rightarrow> heap option" where
  "set_next p v h = map_option (\<lambda>a. h(a := (h a)\<lparr>next := v\<rparr>)) p"

definition is_head :: "heap \<Rightarrow> ptr \<Rightarrow> bool" where
  "is_head h p = (case p of None \<Rightarrow> False | Some a \<Rightarrow> prev (h a) = None \<and> next (h a) \<noteq> None)"

definition is_interior :: "heap \<Rightarrow> ptr \<Rightarrow> bool" where
  "is_interior h p = (case p of None \<Rightarrow> False | Some a \<Rightarrow> prev (h a) \<noteq> None \<and> next (h a) \<noteq> None)"

definition is_tail :: "heap \<Rightarrow> ptr \<Rightarrow> bool" where
  "is_tail h p = (case p of None \<Rightarrow> False | Some a \<Rightarrow> prev (h a) \<noteq> None \<and> next (h a) = None)"

definition list_init :: "klist \<Rightarrow> heap \<Rightarrow> heap option" where
  "list_init l h = do {
     h \<leftarrow> set_prev (Some (head l)) None h;
     h \<leftarrow> set_next (Some (head l)) (Some (tail l)) h;
     h \<leftarrow> set_prev (Some (tail l)) (Some (head l)) h;
     set_next (Some (tail l)) None h }"

definition list_begin :: "heap \<Rightarrow> klist \<Rightarrow> ptr" where
  "list_begin h l = next (h (head l))"

definition list_next :: "heap \<Rightarrow> ptr \<Rightarrow> ptr option" where
  "list_next h e = do { ASSERT (is_head h e \<or> is_interior h e); rd_next h e }"

definition list_end :: "klist \<Rightarrow> ptr" where
  "list_end l = Some (tail l)"

definition list_rbegin :: "heap \<Rightarrow> klist \<Rightarrow> ptr" where
  "list_rbegin h l = prev (h (tail l))"

definition list_prev :: "heap \<Rightarrow> ptr \<Rightarrow> ptr option" where
  "list_prev h e = do { ASSERT (is_interior h e \<or> is_tail h e); rd_prev h e }"

definition list_rend :: "klist \<Rightarrow> ptr" where
  "list_rend l = Some (head l)"

definition list_head :: "klist \<Rightarrow> ptr" where
  "list_head l = Some (head l)"

definition list_tail :: "klist \<Rightarrow> ptr" where
  "list_tail l = Some (tail l)"

definition list_insert :: "ptr \<Rightarrow> ptr \<Rightarrow> heap \<Rightarrow> heap option" where
  "list_insert before elem h = do {
     ASSERT (is_interior h before \<or> is_tail h before);
     ASSERT (elem \<noteq> None);
     bp \<leftarrow> rd_prev h before;
     h \<leftarrow> set_prev elem bp h;
     h \<leftarrow> set_next elem before h;
     bp \<leftarrow> rd_prev h before;
     h \<leftarrow> set_next bp elem h;
     set_prev before elem h }"

definition list_splice :: "ptr \<Rightarrow> ptr \<Rightarrow> ptr \<Rightarrow> heap \<Rightarrow> heap option" where
  "list_splice before first lst h = do {
     ASSERT (is_interior h before \<or> is_tail h before);
     if first = lst then Some h
     else do {
       lst \<leftarrow> list_prev h lst;
       ASSERT (is_interior h first);
       ASSERT (is_interior h lst);
       fp \<leftarrow> rd_prev h first;
       ln \<leftarrow> rd_next h lst;
       h \<leftarrow> set_next fp ln h;
       ln \<leftarrow> rd_next h lst;
       fp \<leftarrow> rd_prev h first;
       h \<leftarrow> set_prev ln fp h;
       bp \<leftarrow> rd_prev h before;
       h \<leftarrow> set_prev first bp h;
       h \<leftarrow> set_next lst before h;
       bp \<leftarrow> rd_prev h before;
       h \<leftarrow> set_next bp first h;
       set_prev before lst h } }"

definition list_push_front :: "klist \<Rightarrow> ptr \<Rightarrow> heap \<Rightarrow> heap option" where
  "list_push_front l elem h = list_insert (list_begin h l) elem h"

definition list_push_back :: "klist \<Rightarrow> ptr \<Rightarrow> heap \<Rightarrow> heap option" where
  "list_push_back l elem h = list_insert (list_end l) elem h"

definition list_remove :: "ptr \<Rightarrow> heap \<Rightarrow> (ptr \<times> heap) option" where
  "list_remove elem h = do {
     ASSERT (is_interior h elem);
     ep \<leftarrow> rd_prev h elem;
     en \<leftarrow> rd_next h elem;
     h \<leftarrow> set_next ep en h;
     en \<leftarrow> rd_next h elem;
     ep \<leftarrow> rd_prev h elem;
     h \<leftarrow> set_prev en ep h;
     en \<leftarrow> rd_next h elem;
     Some (en, h) }"

definition list_empty :: "heap \<Rightarrow> klist \<Rightarrow> bool" where
  "list_empty h l = (list_begin h l = list_end l)"

definition list_front :: "heap \<Rightarrow> klist \<Rightarrow> ptr option" where
  "list_front h l = do { ASSERT (\<not> list_empty h l); Some (next (h (head l))) }"

definition list_back :: "heap \<Rightarrow> klist \<Rightarrow> ptr option" where
  "list_back h l = do { ASSERT (\<not> list_empty h l); Some (prev (h (tail l))) }"

definition list_pop_front :: "klist \<Rightarrow> heap \<Rightarrow> (ptr \<times> heap) option" where
  "list_pop_front l h = do {
     front \<leftarrow> list_front h l;
     (_, h) \<leftarrow> list_remove front h;
     Some (front, h) }"

definition list_pop_back :: "klist \<Rightarrow> heap \<Rightarrow> (ptr \<times> heap) option" where
  "list_pop_back l h = do {
     back \<leftarrow> list_back h l;
     (_, h) \<leftarrow> list_remove back h;
     Some (back, h) }"

text \<open>The loops of \<open>list_size\<close>, \<open>list_reverse\<close> and the ordered operations. A
  comparison function is a function of two pointers; the auxiliary datum it is called with
  is part of it.\<close>

type_synonym less_func = "ptr \<Rightarrow> ptr \<Rightarrow> bool"

partial_function (option) list_size_loop :: "heap \<Rightarrow> klist \<Rightarrow> ptr \<Rightarrow> nat \<Rightarrow> nat option" where
  "list_size_loop h l e cnt =
     (if e \<noteq> list_end l then do { e \<leftarrow> list_next h e; list_size_loop h l e (cnt + 1) }
      else Some cnt)"

definition list_size :: "heap \<Rightarrow> klist \<Rightarrow> nat option" where
  "list_size h l = list_size_loop h l (list_begin h l) 0"

text \<open>\<open>swap\<close> applied to the two links of one element, and to one link of each of two
  elements.\<close>

definition swap_own :: "addr \<Rightarrow> heap \<Rightarrow> heap" where
  "swap_own a h = h(a := \<lparr>prev = next (h a), next = prev (h a)\<rparr>)"

definition swap_next_prev :: "ptr \<Rightarrow> ptr \<Rightarrow> heap \<Rightarrow> heap option" where
  "swap_next_prev a b h = do {
     t \<leftarrow> rd_next h a;
     v \<leftarrow> rd_prev h b;
     h \<leftarrow> set_next a v h;
     set_prev b t h }"

definition swap_prev_next :: "ptr \<Rightarrow> ptr \<Rightarrow> heap \<Rightarrow> heap option" where
  "swap_prev_next a b h = do {
     t \<leftarrow> rd_prev h a;
     v \<leftarrow> rd_next h b;
     h \<leftarrow> set_prev a v h;
     set_next b t h }"

partial_function (option) list_reverse_loop :: "klist \<Rightarrow> ptr \<Rightarrow> heap \<Rightarrow> heap option" where
  "list_reverse_loop l e h =
     (if e \<noteq> list_end l then
        (case e of None \<Rightarrow> None
         | Some a \<Rightarrow> list_reverse_loop l (prev (swap_own a h a)) (swap_own a h))
      else Some h)"

definition list_reverse :: "klist \<Rightarrow> heap \<Rightarrow> heap option" where
  "list_reverse l h =
     (if \<not> list_empty h l then do {
        h \<leftarrow> list_reverse_loop l (list_begin h l) h;
        h \<leftarrow> swap_next_prev (Some (head l)) (Some (tail l)) h;
        swap_prev_next (next (h (head l))) (prev (h (tail l))) h }
      else Some h)"

partial_function (option) is_sorted_loop :: "heap \<Rightarrow> less_func \<Rightarrow> ptr \<Rightarrow> ptr \<Rightarrow> bool option" where
  "is_sorted_loop h lt a b = do {
     a \<leftarrow> list_next h a;
     if a \<noteq> b then do {
       p \<leftarrow> list_prev h a;
       if lt a p then Some False else is_sorted_loop h lt a b }
     else Some True }"

definition is_sorted :: "heap \<Rightarrow> less_func \<Rightarrow> ptr \<Rightarrow> ptr \<Rightarrow> bool option" where
  "is_sorted h lt a b = (if a \<noteq> b then is_sorted_loop h lt a b else Some True)"

partial_function (option) run_loop :: "heap \<Rightarrow> less_func \<Rightarrow> ptr \<Rightarrow> ptr \<Rightarrow> ptr option" where
  "run_loop h lt a b = do {
     a \<leftarrow> list_next h a;
     if a \<noteq> b then do {
       p \<leftarrow> list_prev h a;
       if \<not> lt a p then run_loop h lt a b else Some a }
     else Some a }"

definition find_end_of_run :: "heap \<Rightarrow> less_func \<Rightarrow> ptr \<Rightarrow> ptr \<Rightarrow> ptr option" where
  "find_end_of_run h lt a b = do {
     ASSERT (a \<noteq> None);
     ASSERT (b \<noteq> None);
     ASSERT (a \<noteq> b);
     run_loop h lt a b }"

partial_function (option) merge_loop :: "less_func \<Rightarrow> ptr \<Rightarrow> ptr \<Rightarrow> ptr \<Rightarrow> heap \<Rightarrow> heap option" where
  "merge_loop lt a0 a1b0 b1 h =
     (if a0 \<noteq> a1b0 \<and> a1b0 \<noteq> b1 then
        if \<not> lt a1b0 a0 then do {
          a0 \<leftarrow> list_next h a0;
          merge_loop lt a0 a1b0 b1 h }
        else do {
          a1b0 \<leftarrow> list_next h a1b0;
          p \<leftarrow> list_prev h a1b0;
          h \<leftarrow> list_splice a0 p a1b0 h;
          merge_loop lt a0 a1b0 b1 h }
      else Some h)"

definition inplace_merge :: "less_func \<Rightarrow> ptr \<Rightarrow> ptr \<Rightarrow> ptr \<Rightarrow> heap \<Rightarrow> heap option" where
  "inplace_merge lt a0 a1b0 b1 h = do {
     ASSERT (a0 \<noteq> None);
     ASSERT (a1b0 \<noteq> None);
     ASSERT (b1 \<noteq> None);
     s \<leftarrow> is_sorted h lt a0 a1b0;
     ASSERT s;
     s \<leftarrow> is_sorted h lt a1b0 b1;
     ASSERT s;
     merge_loop lt a0 a1b0 b1 h }"

partial_function (option) sort_pass :: "klist \<Rightarrow> less_func \<Rightarrow> ptr \<Rightarrow> nat \<Rightarrow> heap \<Rightarrow> (nat \<times> heap) option" where
  "sort_pass l lt a0 output_run_cnt h =
     (if a0 \<noteq> list_end l then do {
        a1b0 \<leftarrow> find_end_of_run h lt a0 (list_end l);
        if a1b0 = list_end l then Some (output_run_cnt + 1, h)
        else do {
          b1 \<leftarrow> find_end_of_run h lt a1b0 (list_end l);
          h \<leftarrow> inplace_merge lt a0 a1b0 b1 h;
          sort_pass l lt b1 (output_run_cnt + 1) h } }
      else Some (output_run_cnt, h))"

partial_function (option) sort_loop :: "klist \<Rightarrow> less_func \<Rightarrow> heap \<Rightarrow> heap option" where
  "sort_loop l lt h = do {
     r \<leftarrow> sort_pass l lt (list_begin h l) 0 h;
     if fst r > 1 then sort_loop l lt (snd r) else Some (snd r) }"

definition list_sort :: "klist \<Rightarrow> less_func \<Rightarrow> heap \<Rightarrow> heap option" where
  "list_sort l lt h = do {
     h \<leftarrow> sort_loop l lt h;
     s \<leftarrow> is_sorted h lt (list_begin h l) (list_end l);
     ASSERT s;
     Some h }"

partial_function (option) insert_ordered_pos :: "heap \<Rightarrow> klist \<Rightarrow> less_func \<Rightarrow> ptr \<Rightarrow> ptr \<Rightarrow> ptr option" where
  "insert_ordered_pos h l lt elem e =
     (if e \<noteq> list_end l then
        if lt elem e then Some e
        else do { e \<leftarrow> list_next h e; insert_ordered_pos h l lt elem e }
      else Some e)"

definition list_insert_ordered :: "klist \<Rightarrow> ptr \<Rightarrow> less_func \<Rightarrow> heap \<Rightarrow> heap option" where
  "list_insert_ordered l elem lt h = do {
     ASSERT (elem \<noteq> None);
     e \<leftarrow> insert_ordered_pos h l lt elem (list_begin h l);
     list_insert e elem h }"

partial_function (option) unique_loop :: "klist \<Rightarrow> klist option \<Rightarrow> less_func \<Rightarrow> ptr \<Rightarrow> heap \<Rightarrow> heap option" where
  "unique_loop l duplicates lt elem h = do {
     nxt \<leftarrow> list_next h elem;
     if nxt \<noteq> list_end l then
       if \<not> lt elem nxt \<and> \<not> lt nxt elem then do {
         r \<leftarrow> list_remove nxt h;
         h \<leftarrow> (case duplicates of None \<Rightarrow> Some (snd r) | Some d \<Rightarrow> list_push_back d nxt (snd r));
         unique_loop l duplicates lt elem h }
       else unique_loop l duplicates lt nxt h
     else Some h }"

definition list_unique :: "klist \<Rightarrow> klist option \<Rightarrow> less_func \<Rightarrow> heap \<Rightarrow> heap option" where
  "list_unique l duplicates lt h =
     (if list_empty h l then Some h else unique_loop l duplicates lt (list_begin h l) h)"

partial_function (option) max_loop :: "heap \<Rightarrow> klist \<Rightarrow> less_func \<Rightarrow> ptr \<Rightarrow> ptr \<Rightarrow> ptr option" where
  "max_loop h l lt mx e =
     (if e \<noteq> list_end l then do {
        e' \<leftarrow> list_next h e;
        max_loop h l lt (if lt mx e then e else mx) e' }
      else Some mx)"

definition list_max :: "heap \<Rightarrow> klist \<Rightarrow> less_func \<Rightarrow> ptr option" where
  "list_max h l lt =
     (let mx = list_begin h l in
      if mx \<noteq> list_end l then do { e \<leftarrow> list_next h mx; max_loop h l lt mx e }
      else Some mx)"

partial_function (option) min_loop :: "heap \<Rightarrow> klist \<Rightarrow> less_func \<Rightarrow> ptr \<Rightarrow> ptr \<Rightarrow> ptr option" where
  "min_loop h l lt mn e =
     (if e \<noteq> list_end l then do {
        e' \<leftarrow> list_next h e;
        min_loop h l lt (if lt e mn then e else mn) e' }
      else Some mn)"

definition list_min :: "heap \<Rightarrow> klist \<Rightarrow> less_func \<Rightarrow> ptr option" where
  "list_min h l lt =
     (let mn = list_begin h l in
      if mn \<noteq> list_end l then do { e \<leftarrow> list_next h mn; min_loop h l lt mn e }
      else Some mn)"

section \<open>Abstraction to HOL lists\<close>

fun linked :: "heap \<Rightarrow> addr list \<Rightarrow> bool" where
  "linked h (a # b # xs) \<longleftrightarrow> next (h a) = Some b \<and> prev (h b) = Some a \<and> linked h (b # xs)"
| "linked h _ \<longleftrightarrow> True"

definition nodes :: "klist \<Rightarrow> addr list \<Rightarrow> addr list" where
  "nodes l xs = head l # xs @ [tail l]"

definition is_list :: "heap \<Rightarrow> klist \<Rightarrow> addr list \<Rightarrow> bool" where
  "is_list h l xs \<longleftrightarrow> distinct (nodes l xs) \<and> linked h (nodes l xs)
     \<and> prev (h (head l)) = None \<and> next (h (tail l)) = None"

lemma linked_Cons: "linked h (a # xs) \<longleftrightarrow>
    (xs = [] \<or> next (h a) = Some (hd xs) \<and> prev (h (hd xs)) = Some a \<and> linked h xs)"
  by (cases xs) auto

lemma linked_append [simp]:
  "linked h (xs @ ys) \<longleftrightarrow> linked h xs \<and> linked h ys
     \<and> (xs = [] \<or> ys = [] \<or> next (h (last xs)) = Some (hd ys) \<and> prev (h (hd ys)) = Some (last xs))"
  by (induction xs) (auto simp: linked_Cons hd_append)

lemma linked_cong:
  assumes "distinct ns"
    and "\<And>a. a \<in> set ns \<Longrightarrow> a \<noteq> last ns \<Longrightarrow> next (h' a) = next (h a)"
    and "\<And>a. a \<in> set ns \<Longrightarrow> a \<noteq> hd ns \<Longrightarrow> prev (h' a) = prev (h a)"
  shows "linked h' ns = linked h ns"
  using assms
proof (induction h ns rule: linked.induct)
  case (1 h a b xs)
  have "linked h' (b # xs) = linked h (b # xs)"
    using "1.prems" by (intro "1.IH") auto
  moreover have "a \<noteq> last (b # xs)" using "1.prems"(1) by (metis distinct.simps(2) last_in_set list.discI)
  ultimately show ?case using "1.prems" by auto
qed auto

lemma linked_seg:
  assumes "distinct ns" "hd ns = y" "last ns = z"
    and "\<forall>a \<in> set ns - {z}. next (h' a) = next (h a)" "\<forall>a \<in> set ns - {y}. prev (h' a) = prev (h a)"
  shows "linked h' ns = linked h ns"
  using assms by (intro linked_cong) auto

lemma linked_frame:
  "distinct ns \<Longrightarrow> (\<And>a. a \<in> set ns \<Longrightarrow> h' a = h a) \<Longrightarrow> linked h' ns = linked h ns"
  by (rule linked_cong) auto

lemma is_list_frame:
  "is_list h l xs \<Longrightarrow> (\<And>a. a \<in> set (nodes l xs) \<Longrightarrow> h' a = h a) \<Longrightarrow> is_list h' l xs"
  using linked_frame [of "nodes l xs" h' h] by (auto simp: is_list_def nodes_def)

lemmas list_op_defs = rd_prev_def rd_next_def set_prev_def set_next_def
  is_head_def is_interior_def is_tail_def

text \<open>A position in a list: the node before it and the node after it.\<close>

definition node_before :: "klist \<Rightarrow> addr list \<Rightarrow> addr" where
  "node_before l xs = last (head l # xs)"

definition node_after :: "klist \<Rightarrow> addr list \<Rightarrow> addr" where
  "node_after l ys = hd (ys @ [tail l])"

lemma node_after_simps [simp]:
  "node_after l [] = tail l" "node_after l (y # ys) = y"
  by (simp_all add: node_after_def)

lemma node_before_simps [simp]:
  "node_before l [] = head l" "node_before l (xs @ [x]) = x"
  by (simp_all add: node_before_def)

lemma is_list_append:
  "is_list h l (xs @ ys) \<longleftrightarrow> distinct (nodes l (xs @ ys))
     \<and> linked h (head l # xs) \<and> linked h (ys @ [tail l])
     \<and> next (h (node_before l xs)) = Some (node_after l ys)
     \<and> prev (h (node_after l ys)) = Some (node_before l xs)
     \<and> prev (h (head l)) = None \<and> next (h (tail l)) = None"
  using linked_append [of h "head l # xs" "ys @ [tail l]"]
  by (auto simp: is_list_def nodes_def node_before_def node_after_def)

lemma node_neqs:
  assumes "distinct (nodes l (xs @ ys))"
  shows "node_before l xs \<noteq> node_after l ys"
    "node_before l xs \<in> set (head l # xs)" "node_after l ys \<in> set (ys @ [tail l])"
  using assms last_in_set [of "head l # xs"] hd_in_set [of "ys @ [tail l]"]
  by (auto simp: nodes_def node_before_def node_after_def)

text \<open>
  An update that changes only the forward link before a position and the backward link
  after it keeps the two halves linked.
\<close>

lemma linked_halves:
  assumes "distinct (nodes l (xs @ ys))" "linked h (head l # xs)" "linked h (ys @ [tail l])"
    and "\<And>a. a \<in> set (head l # xs) \<Longrightarrow> a \<noteq> node_before l xs \<Longrightarrow> next (h' a) = next (h a)"
    and "\<And>a. a \<in> set xs \<Longrightarrow> prev (h' a) = prev (h a)"
    and "\<And>a. a \<in> set ys \<Longrightarrow> next (h' a) = next (h a)"
    and "\<And>a. a \<in> set (ys @ [tail l]) \<Longrightarrow> a \<noteq> node_after l ys \<Longrightarrow> prev (h' a) = prev (h a)"
  shows "linked h' (head l # xs) \<and> linked h' (ys @ [tail l])"
proof -
  have "linked h' (head l # xs) = linked h (head l # xs)"
    by (rule linked_seg [where y = "head l" and z = "node_before l xs"])
       (use assms(1,4,5) in \<open>auto simp: nodes_def node_before_def\<close>)
  moreover have "linked h' (ys @ [tail l]) = linked h (ys @ [tail l])"
    by (rule linked_seg [where y = "node_after l ys" and z = "tail l"])
       (use assms(1,6,7) in \<open>auto simp: nodes_def node_after_def\<close>)
  ultimately show ?thesis using assms(2,3) by simp
qed

section \<open>Insertion and removal\<close>

text \<open>The heap after inserting \<open>e\<close> between the neighbours \<open>p\<close> and \<open>b\<close>.\<close>

definition ins_heap :: "addr \<Rightarrow> addr \<Rightarrow> addr \<Rightarrow> heap \<Rightarrow> heap" where
  "ins_heap p b e h = h(e := \<lparr>prev = Some p, next = Some b\<rparr>,
     p := (h p)\<lparr>next := Some e\<rparr>, b := (h b)\<lparr>prev := Some e\<rparr>)"

lemma ins_heap_links:
  assumes "e \<noteq> p" "e \<noteq> b" "p \<noteq> b"
  shows "next (ins_heap p b e h a) = (if a = p then Some e else if a = e then Some b else next (h a))"
    and "prev (ins_heap p b e h a) = (if a = b then Some e else if a = e then Some p else prev (h a))"
  using assms by (auto simp: ins_heap_def)

lemma list_insert_exec:
  assumes "prev (h b) = Some p" "e \<noteq> p" "e \<noteq> b" "p \<noteq> b"
  shows "list_insert (Some b) (Some e) h = Some (ins_heap p b e h)"
  using assms by (auto simp: list_insert_def list_op_defs ins_heap_def fun_eq_iff)

lemma list_insert_spec:
  assumes L: "is_list h l (xs @ ys)" and e: "e \<notin> set (nodes l (xs @ ys))"
  shows "\<exists>h'. list_insert (Some (node_after l ys)) (Some e) h = Some h'
    \<and> is_list h' l (xs @ e # ys)
    \<and> (\<forall>a. a \<notin> insert e (set (nodes l (xs @ ys))) \<longrightarrow> h' a = h a)"
proof -
  let ?p = "node_before l xs" and ?b = "node_after l ys"
  let ?h = "ins_heap ?p ?b e h"
  from L have d: "distinct (nodes l (xs @ ys))" by (simp add: is_list_def)
  note nn = node_neqs [OF d]
  from nn e have ne: "e \<noteq> ?p" "e \<noteq> ?b" by (auto simp: nodes_def)
  note lk = ins_heap_links [OF ne nn(1)]
  have ex: "list_insert (Some ?b) (Some e) h = Some ?h"
    using L ne nn by (intro list_insert_exec) (auto simp: is_list_append)
  have "linked ?h (head l # xs) \<and> linked ?h (ys @ [tail l])"
    by (rule linked_halves [of l xs ys h])
       (use L d e nn(2,3) in \<open>auto simp: lk nodes_def is_list_append\<close>)
  then have "is_list ?h l (xs @ e # ys)"
    using L ne nn e by (auto simp: is_list_append nodes_def lk linked_Cons simp flip: node_after_def)
  moreover have "\<forall>a. a \<notin> insert e (set (nodes l (xs @ ys))) \<longrightarrow> ?h a = h a"
    using nn by (auto simp: ins_heap_def nodes_def)
  ultimately show ?thesis using ex by blast
qed

text \<open>The heap after unlinking whatever is between \<open>p\<close> and \<open>b\<close>.\<close>

definition rem_heap :: "addr \<Rightarrow> addr \<Rightarrow> heap \<Rightarrow> heap" where
  "rem_heap p b h = h(p := (h p)\<lparr>next := Some b\<rparr>, b := (h b)\<lparr>prev := Some p\<rparr>)"

lemma rem_heap_links:
  assumes "p \<noteq> b"
  shows "next (rem_heap p b h a) = (if a = p then Some b else next (h a))"
    and "prev (rem_heap p b h a) = (if a = b then Some p else prev (h a))"
  using assms by (auto simp: rem_heap_def)

lemma list_remove_exec:
  assumes "prev (h e) = Some p" "next (h e) = Some b" "e \<noteq> p" "e \<noteq> b" "p \<noteq> b"
  shows "list_remove (Some e) h = Some (Some b, rem_heap p b h)"
  using assms by (auto simp: list_remove_def list_op_defs rem_heap_def fun_eq_iff)

lemma list_remove_spec:
  assumes L: "is_list h l (xs @ e # ys)"
  shows "\<exists>h'. list_remove (Some e) h = Some (Some (node_after l ys), h')
    \<and> is_list h' l (xs @ ys) \<and> h' e = h e
    \<and> (\<forall>a. a \<notin> set (nodes l (xs @ ys)) \<longrightarrow> h' a = h a)"
proof -
  let ?p = "node_before l xs" and ?b = "node_after l ys"
  let ?h = "rem_heap ?p ?b h"
  from L have d: "distinct (nodes l (xs @ ys))" and e: "e \<notin> set (nodes l (xs @ ys))"
    by (auto simp: is_list_def nodes_def)
  note nn = node_neqs [OF d] and lk = rem_heap_links [OF node_neqs(1) [OF d]]
  from nn e have ne: "e \<noteq> ?p" "e \<noteq> ?b" by (auto simp: nodes_def)
  from L have le: "prev (h e) = Some ?p" "next (h e) = Some ?b"
    by (auto simp: is_list_append linked_Cons node_after_def)
  have ex: "list_remove (Some e) h = Some (Some ?b, ?h)"
    using le ne nn(1) by (rule list_remove_exec)
  have "linked ?h (head l # xs) \<and> linked ?h (ys @ [tail l])"
    by (rule linked_halves [of l xs ys h])
       (use L d e nn(2,3) in \<open>auto simp: lk nodes_def is_list_append linked_Cons\<close>)
  then have "is_list ?h l (xs @ ys)"
    using L ne nn d by (auto simp: is_list_append nodes_def lk)
  moreover have "?h e = h e" and "\<forall>a. a \<notin> set (nodes l (xs @ ys)) \<longrightarrow> ?h a = h a"
    using nn ne by (auto simp: rem_heap_def nodes_def)
  ultimately show ?thesis using ex by blast
qed

lemma list_init_spec:
  assumes "head l \<noteq> tail l"
  shows "\<exists>h'. list_init l h = Some h' \<and> is_list h' l []
    \<and> (\<forall>a. a \<notin> {head l, tail l} \<longrightarrow> h' a = h a)"
  using assms by (auto simp: list_init_def list_op_defs is_list_def nodes_def)

lemma list_begin_spec: "is_list h l xs \<Longrightarrow> list_begin h l = Some (node_after l xs)"
  using is_list_append [of h l "[]" xs] by (simp add: list_begin_def)

lemma list_rbegin_spec: "is_list h l xs \<Longrightarrow> list_rbegin h l = Some (node_before l xs)"
  using is_list_append [of h l xs "[]"] by (simp add: list_rbegin_def)

lemma list_empty_spec: "is_list h l xs \<Longrightarrow> list_empty h l \<longleftrightarrow> xs = []"
  using list_begin_spec [of h l xs]
  by (cases xs) (auto simp: list_empty_def list_end_def is_list_def nodes_def)

lemma list_push_front_spec:
  assumes "is_list h l xs" "e \<notin> set (nodes l xs)"
  shows "\<exists>h'. list_push_front l (Some e) h = Some h' \<and> is_list h' l (e # xs)
    \<and> (\<forall>a. a \<notin> insert e (set (nodes l xs)) \<longrightarrow> h' a = h a)"
  using list_insert_spec [of h l "[]" xs e] assms
  by (simp add: list_push_front_def list_begin_spec)

lemma list_push_back_spec:
  assumes "is_list h l xs" "e \<notin> set (nodes l xs)"
  shows "\<exists>h'. list_push_back l (Some e) h = Some h' \<and> is_list h' l (xs @ [e])
    \<and> (\<forall>a. a \<notin> insert e (set (nodes l xs)) \<longrightarrow> h' a = h a)"
  using list_insert_spec [of h l xs "[]" e] assms
  by (simp add: list_push_back_def list_end_def)

lemma list_pop_front_spec:
  assumes "is_list h l (x # xs)"
  shows "\<exists>h'. list_pop_front l h = Some (Some x, h') \<and> is_list h' l xs \<and> h' x = h x
    \<and> (\<forall>a. a \<notin> set (nodes l xs) \<longrightarrow> h' a = h a)"
proof -
  have "list_front h l = Some (Some x)"
    using list_begin_spec [OF assms] list_empty_spec [OF assms]
    by (simp add: list_front_def list_begin_def)
  with list_remove_spec [of h l "[]" x xs] assms show ?thesis
    by (auto simp: list_pop_front_def)
qed

lemma list_pop_back_spec:
  assumes "is_list h l (xs @ [x])"
  shows "\<exists>h'. list_pop_back l h = Some (Some x, h') \<and> is_list h' l xs \<and> h' x = h x
    \<and> (\<forall>a. a \<notin> set (nodes l xs) \<longrightarrow> h' a = h a)"
proof -
  have "list_back h l = Some (Some x)"
    using list_rbegin_spec [OF assms] list_empty_spec [OF assms]
    by (simp add: list_back_def list_rbegin_def)
  with list_remove_spec [of h l xs x "[]"] assms show ?thesis
    by (auto simp: list_pop_back_def)
qed

text \<open>Popping an empty list fails the assertion of \<open>list_front\<close> or \<open>list_back\<close>.\<close>

lemma list_pop_empty:
  assumes "is_list h l []"
  shows "list_pop_front l h = None" "list_pop_back l h = None"
  using list_empty_spec [OF assms]
  by (simp_all add: list_pop_front_def list_pop_back_def list_front_def list_back_def)

lemma list_next_spec:
  assumes "is_list h l (xs @ ys)"
  shows "list_next h (Some (node_before l xs)) = Some (Some (node_after l ys))"
  using assms by (auto simp: is_list_append list_next_def list_op_defs)

lemma list_prev_spec:
  assumes "is_list h l (xs @ ys)"
  shows "list_prev h (Some (node_after l ys)) = Some (Some (node_before l xs))"
  using assms by (auto simp: is_list_append list_prev_def list_op_defs)

section \<open>Traversal, size, reversal\<close>

lemma list_end_neq:
  "is_list h l (xs @ y # ys) \<Longrightarrow> Some y \<noteq> list_end l"
  by (auto simp: is_list_def nodes_def list_end_def)

lemma list_next_elem:
  "is_list h l (xs @ y # ys) \<Longrightarrow> list_next h (Some y) = Some (Some (node_after l ys))"
  using list_next_spec [of h l "xs @ [y]" ys] by simp

lemma list_prev_elem:
  "is_list h l (xs @ y # z # ys) \<Longrightarrow> list_prev h (Some z) = Some (Some y)"
  using list_prev_spec [of h l "xs @ [y]" "z # ys"] by simp

lemma list_size_loop_spec:
  assumes "is_list h l (xs @ ys)"
  shows "list_size_loop h l (Some (node_after l ys)) n = Some (n + length ys)"
  using assms
proof (induction ys arbitrary: xs n)
  case Nil
  then show ?case by (simp add: list_size_loop.simps list_end_def)
next
  case (Cons y ys)
  have "list_size_loop h l (Some (node_after l ys)) (n + 1) = Some (n + 1 + length ys)"
    using Cons.IH [of "xs @ [y]"] Cons.prems by simp
  then show ?case
    using list_end_neq [OF Cons.prems] list_next_elem [OF Cons.prems]
    by (simp add: list_size_loop.simps [of h l "Some y"])
qed

lemma list_size_spec: "is_list h l xs \<Longrightarrow> list_size h l = Some (length xs)"
  using list_size_loop_spec [of h l "[]" xs 0] by (simp add: list_size_def list_begin_spec)

definition flip_elem :: "list_elem \<Rightarrow> list_elem" where
  "flip_elem e = \<lparr>prev = next e, next = prev e\<rparr>"

lemma flip_elem_sel [simp]: "prev (flip_elem e) = next e" "next (flip_elem e) = prev e"
  by (simp_all add: flip_elem_def)

lemma list_reverse_loop_spec:
  assumes "linked h (ys @ [tail l])" "distinct (ys @ [tail l])"
  shows "list_reverse_loop l (Some (node_after l ys)) h
    = Some (\<lambda>a. if a \<in> set ys then flip_elem (h a) else h a)"
  using assms
proof (induction ys arbitrary: h)
  case Nil
  then show ?case by (simp add: list_reverse_loop.simps list_end_def)
next
  case (Cons y ys)
  let ?h = "swap_own y h"
  have "linked ?h (ys @ [tail l]) = linked h (ys @ [tail l])"
    using Cons.prems by (intro linked_frame) (auto simp: swap_own_def)
  then have IH: "list_reverse_loop l (Some (node_after l ys)) ?h
      = Some (\<lambda>a. if a \<in> set ys then flip_elem (?h a) else ?h a)"
    using Cons.prems by (intro Cons.IH) (auto simp: linked_Cons)
  have n: "prev (?h y) = Some (node_after l ys)"
    using Cons.prems(1) by (auto simp: swap_own_def linked_Cons node_after_def)
  have "(\<lambda>a. if a \<in> set ys then flip_elem (?h a) else ?h a)
      = (\<lambda>a. if a \<in> set (y # ys) then flip_elem (h a) else h a)"
    using Cons.prems(2) by (auto simp: swap_own_def flip_elem_def fun_eq_iff)
  with IH n Cons.prems(2) show ?case
    by (auto simp: list_reverse_loop.simps [of l "Some y"] list_end_def)
qed

lemma linked_rev:
  assumes "\<And>a. a \<in> set ns \<Longrightarrow> h' a = flip_elem (h a)"
  shows "linked h' (rev ns) = linked h ns"
  using assms
proof (induction ns)
  case (Cons a ns)
  then show ?case
    by (cases ns) (auto simp: linked_Cons)
qed simp

lemma list_reverse_spec:
  assumes L: "is_list h l xs"
  shows "\<exists>h'. list_reverse l h = Some h' \<and> is_list h' l (rev xs)
    \<and> (\<forall>a. a \<notin> set (nodes l xs) \<longrightarrow> h' a = h a)"
proof (cases "xs = []")
  case True
  with L list_empty_spec [OF L] show ?thesis by (auto simp: list_reverse_def)
next
  case False
  let ?r = "\<lambda>a. if a \<in> set xs then flip_elem (h a) else h a"
  let ?f = "hd xs" and ?g = "last xs"
  have d: "distinct (nodes l xs)" using L by (simp add: is_list_def)
  then have ne: "head l \<noteq> tail l" "?f \<in> set xs" "?g \<in> set xs" "head l \<notin> set xs" "tail l \<notin> set xs"
    using False by (auto simp: nodes_def)
  then have ne2: "?f \<noteq> head l" "?f \<noteq> tail l" "?g \<noteq> head l" "?g \<noteq> tail l" by auto
  have lk: "next (h (head l)) = Some ?f" "prev (h ?f) = Some (head l)"
    "next (h ?g) = Some (tail l)" "prev (h (tail l)) = Some ?g"
    "linked h xs" "prev (h (head l)) = None" "next (h (tail l)) = None"
    using L False by (auto simp: is_list_def nodes_def linked_Cons hd_append)
  have loop: "list_reverse_loop l (list_begin h l) h = Some ?r"
    using list_reverse_loop_spec [of h xs l] L list_begin_spec [OF L]
    by (auto simp: is_list_def nodes_def linked_Cons)
  let ?h' = "?r(head l := (h (head l))\<lparr>next := Some ?g\<rparr>, tail l := (h (tail l))\<lparr>prev := Some ?f\<rparr>)"
  let ?h'' = "\<lambda>a. if a = head l then (h a)\<lparr>next := Some ?g\<rparr>
      else if a = tail l then (h a)\<lparr>prev := Some ?f\<rparr>
      else if a \<in> set xs then \<lparr>prev = (if a = ?g then Some (head l) else next (h a)),
                                next = (if a = ?f then Some (tail l) else prev (h a))\<rparr>
      else h a"
  have s1: "swap_next_prev (Some (head l)) (Some (tail l)) ?r = Some ?h'"
    using ne lk by (auto simp: swap_next_prev_def list_op_defs fun_eq_iff)
  have s2: "swap_prev_next (Some ?g) (Some ?f) ?h' = Some ?h''"
    using ne ne2 lk by (auto simp: swap_prev_next_def list_op_defs flip_elem_def fun_eq_iff)
  have ex: "list_reverse l h = Some ?h''"
    using False list_empty_spec [OF L] loop s1 s2 ne by (simp add: list_reverse_def)
  have "linked ?h'' (rev xs) = linked ?r (rev xs)"
    by (rule linked_seg [where y = ?g and z = ?f])
       (use False ne d in \<open>auto simp: hd_rev last_rev nodes_def\<close>)
  also have "\<dots> = linked h xs" by (rule linked_rev) simp
  finally have "linked ?h'' (rev xs)" using lk by simp
  then have "is_list ?h'' l (rev xs)"
    using False ne ne2 lk d
    by (auto simp: is_list_def nodes_def linked_Cons hd_rev last_rev hd_append)
  moreover have "\<forall>a. a \<notin> set (nodes l xs) \<longrightarrow> ?h'' a = h a" by (auto simp: nodes_def)
  ultimately show ?thesis using ex by blast
qed

section \<open>Splicing\<close>

text \<open>Link assignments seen through the two link fields.\<close>

definition upd_next :: "addr \<Rightarrow> ptr \<Rightarrow> heap \<Rightarrow> heap" where
  "upd_next a v h = h(a := (h a)\<lparr>next := v\<rparr>)"

definition upd_prev :: "addr \<Rightarrow> ptr \<Rightarrow> heap \<Rightarrow> heap" where
  "upd_prev a v h = h(a := (h a)\<lparr>prev := v\<rparr>)"

lemma upd_links [simp]:
  "next (upd_next a v h x) = (if x = a then v else next (h x))"
  "prev (upd_next a v h x) = prev (h x)"
  "prev (upd_prev a v h x) = (if x = a then v else prev (h x))"
  "next (upd_prev a v h x) = next (h x)"
  by (simp_all add: upd_next_def upd_prev_def)

lemma set_link_Some [simp]:
  "set_next (Some a) v h = Some (upd_next a v h)"
  "set_prev (Some a) v h = Some (upd_prev a v h)"
  by (simp_all add: set_next_def set_prev_def upd_next_def upd_prev_def)

lemma heap_eqI:
  "(\<And>a. prev (h a) = prev (h' a)) \<Longrightarrow> (\<And>a. next (h a) = next (h' a)) \<Longrightarrow> h = (h' :: heap)"
  by (rule ext) (rule list_elem.equality, simp_all)

definition splice_heap :: "addr \<Rightarrow> addr \<Rightarrow> addr \<Rightarrow> addr \<Rightarrow> addr \<Rightarrow> addr \<Rightarrow> heap \<Rightarrow> heap" where
  "splice_heap p b q r f g h = (\<lambda>a. \<lparr>
     prev = (if a = b then Some g else if a = f then Some p else if a = r then Some q else prev (h a)),
     next = (if a = p then Some f else if a = g then Some b else if a = q then Some r else next (h a))\<rparr>)"

lemma splice_heap_links [simp]:
  "prev (splice_heap p b q r f g h a)
     = (if a = b then Some g else if a = f then Some p else if a = r then Some q else prev (h a))"
  "next (splice_heap p b q r f g h a)
     = (if a = p then Some f else if a = g then Some b else if a = q then Some r else next (h a))"
  by (simp_all add: splice_heap_def)

lemma splice_heap_frame:
  "a \<notin> {p, b, q, r, f, g} \<Longrightarrow> splice_heap p b q r f g h a = h a"
  by (simp add: splice_heap_def)

lemma linked_splice_seg:
  assumes "linked h ns" "{p, g, q} \<inter> set ns \<subseteq> {last ns}" "{b, f, r} \<inter> set ns \<subseteq> {hd ns}" "distinct ns"
  shows "linked (splice_heap p b q r f g h) ns"
proof -
  have "linked (splice_heap p b q r f g h) ns = linked h ns"
  proof (rule linked_cong [OF assms(4)])
    fix a assume "a \<in> set ns" "a \<noteq> last ns"
    then have "a \<notin> {p, g, q}" using assms(2) by blast
    then show "next (splice_heap p b q r f g h a) = next (h a)" by simp
  next
    fix a assume "a \<in> set ns" "a \<noteq> hd ns"
    then have "a \<notin> {b, f, r}" using assms(3) by blast
    then show "prev (splice_heap p b q r f g h a) = prev (h a)" by simp
  qed
  then show ?thesis using assms(1) by simp
qed

lemma list_splice_exec:
  assumes "prev (h b) = Some p" "prev (h f) = Some q" "next (h g) = Some r" "prev (h r) = Some g"
    and "next (h f) \<noteq> None" "prev (h g) \<noteq> None"
    and "b \<noteq> r" "b \<noteq> f" "f \<noteq> r" "q \<noteq> g" "p \<noteq> g"
  shows "list_splice (Some b) (Some f) (Some r) h = Some (splice_heap p b q r f g h)"
proof -
  have "list_prev h (Some r) = Some (Some g)"
    using assms by (auto simp: list_prev_def list_op_defs)
  moreover have "is_interior h (Some b) \<or> is_tail h (Some b)" "is_interior h (Some f)" "is_interior h (Some g)"
    using assms by (auto simp: is_interior_def is_tail_def)
  moreover have "upd_prev b (Some g) (upd_next p (Some f) (upd_next g (Some b) (upd_prev f (Some p)
      (upd_prev r (Some q) (upd_next q (Some r) h))))) = splice_heap p b q r f g h"
    by (rule heap_eqI) simp_all
  ultimately show ?thesis
    using assms by (simp add: list_splice_def rd_prev_def rd_next_def)
qed

lemma disj_neq: "A \<inter> B = {} \<Longrightarrow> a \<in> A \<Longrightarrow> b \<in> B \<Longrightarrow> a \<noteq> b"
  by blast

lemma is_list_splice_nodes:
  assumes "is_list h l (xs @ ys @ seg @ zs)" "ys \<noteq> []" "seg \<noteq> []"
  shows "prev (h (hd ys)) = Some (node_before l xs)"
    "prev (h (hd seg)) = Some (last ys)" "next (h (last ys)) = Some (hd seg)"
    "next (h (last seg)) = Some (node_after l zs)" "prev (h (node_after l zs)) = Some (last seg)"
    "linked h (head l # xs)" "linked h ys" "linked h seg" "linked h (zs @ [tail l])"
    "next (h (node_before l xs)) = Some (hd ys)"
  using assms by (auto simp: is_list_append node_after_def hd_append)

lemma linked_interior:
  "linked h xs \<Longrightarrow> x \<in> set xs \<Longrightarrow> x = last xs \<or> next (h x) \<noteq> None"
  "linked h xs \<Longrightarrow> x \<in> set xs \<Longrightarrow> x = hd xs \<or> prev (h x) \<noteq> None"
  by (induction xs) (auto simp: linked_Cons hd_in_set split: if_splits)

lemma is_list_interior:
  assumes "is_list h l xs" "x \<in> set xs"
  shows "prev (h x) \<noteq> None" "next (h x) \<noteq> None"
  using assms linked_interior [of h "nodes l xs" x]
  by (auto simp: is_list_def nodes_def)

lemma list_splice_back_spec:
  assumes L: "is_list h l (xs @ ys @ seg @ zs)" and ne: "ys \<noteq> []" "seg \<noteq> []"
  shows "\<exists>h'. list_splice (Some (hd ys)) (Some (hd seg)) (Some (node_after l zs)) h = Some h'
    \<and> is_list h' l (xs @ seg @ ys @ zs)
    \<and> (\<forall>a. a \<notin> set (nodes l (xs @ ys @ seg @ zs)) \<longrightarrow> h' a = h a)"
proof -
  let ?p = "node_before l xs" and ?b = "hd ys" and ?q = "last ys" and ?r = "node_after l zs"
  let ?f = "hd seg" and ?g = "last seg"
  let ?h = "splice_heap ?p ?b ?q ?r ?f ?g h"
  note nd = is_list_splice_nodes [OF L ne]
  have d: "distinct (nodes l (xs @ ys @ seg @ zs))" using L by (simp add: is_list_def)
  have m: "?p \<in> set (head l # xs)" "?b \<in> set ys" "?q \<in> set ys" "?f \<in> set seg" "?g \<in> set seg"
    "?r \<in> set (zs @ [tail l])"
    using ne node_neqs(2) [of l xs "ys @ seg @ zs"] node_neqs(3) [of l "xs @ ys @ seg" zs] d by auto
  have disj: "set (head l # xs) \<inter> set ys = {}" "set (head l # xs) \<inter> set seg = {}"
    "set (head l # xs) \<inter> set (zs @ [tail l]) = {}" "set ys \<inter> set seg = {}"
    "set ys \<inter> set (zs @ [tail l]) = {}" "set seg \<inter> set (zs @ [tail l]) = {}"
    using d by (auto simp: nodes_def)
  note dis = disj [unfolded disjoint_iff]
  have hl: "head l \<in> set (head l # xs)" and tl: "tail l \<in> set (zs @ [tail l])" by simp_all
  note neq = disj_neq [OF disj(2) m(1,5)] disj_neq [OF disj(1) m(1,3)] disj_neq [OF disj(4) m(3,5)]
    disj_neq [OF disj(4) m(2,4)] disj_neq [OF disj(5) m(2,6)] disj_neq [OF disj(6) m(4,6)]
    disj_neq [OF disj(1) hl m(2)] disj_neq [OF disj(2) hl m(4)] disj_neq [OF disj(3) hl m(6)]
    disj_neq [OF disj(3) m(1) tl] disj_neq [OF disj(6) m(5) tl] disj_neq [OF disj(5) m(3) tl]
  have ex: "list_splice (Some ?b) (Some ?f) (Some ?r) h = Some ?h"
    by (rule list_splice_exec)
       (use nd neq is_list_interior [OF L, of ?f] is_list_interior [OF L, of ?g] ne in auto)
  have e: "prev (?h ?f) = Some ?p" "next (?h ?p) = Some ?f" "prev (?h ?b) = Some ?g" "next (?h ?g) = Some ?b"
    "prev (?h ?r) = Some ?q" "next (?h ?q) = Some ?r"
    "prev (?h (head l)) = None" "next (?h (tail l)) = None"
    using neq L unfolding is_list_def by simp_all
  have "{?p, ?g, ?q} \<inter> set (head l # xs) \<subseteq> {last (head l # xs)}" "{?b, ?f, ?r} \<inter> set (head l # xs) \<subseteq> {hd (head l # xs)}"
    using m disj by (auto simp only: node_before_def)
  with nd(6) have "linked ?h (head l # xs)" by (rule linked_splice_seg) (use d in \<open>auto simp: nodes_def\<close>)
  moreover have "{?p, ?g, ?q} \<inter> set seg \<subseteq> {last seg}" "{?b, ?f, ?r} \<inter> set seg \<subseteq> {hd seg}"
    using m disj by auto
  with nd(8) have "linked ?h seg" by (rule linked_splice_seg) (use d in \<open>auto simp: nodes_def\<close>)
  moreover have "{?p, ?g, ?q} \<inter> set ys \<subseteq> {last ys}" "{?b, ?f, ?r} \<inter> set ys \<subseteq> {hd ys}"
    using m disj by auto
  with nd(7) have "linked ?h ys" by (rule linked_splice_seg) (use d in \<open>auto simp: nodes_def\<close>)
  moreover have "{?p, ?g, ?q} \<inter> set (zs @ [tail l]) \<subseteq> {last (zs @ [tail l])}"
      "{?b, ?f, ?r} \<inter> set (zs @ [tail l]) \<subseteq> {hd (zs @ [tail l])}"
    using m disj by (auto simp only: node_after_def)
  with nd(9) have "linked ?h (zs @ [tail l])" by (rule linked_splice_seg) (use d in \<open>auto simp: nodes_def\<close>)
  moreover have "distinct (nodes l (xs @ seg @ ys @ zs))" using d by (auto simp: nodes_def)
  ultimately have "is_list ?h l (xs @ seg @ ys @ zs)"
    unfolding is_list_append using e ne
    by (simp add: node_after_def del: splice_heap_links)
  moreover have "\<forall>a. a \<notin> set (nodes l (xs @ ys @ seg @ zs)) \<longrightarrow> ?h a = h a"
    using m by (intro allI impI splice_heap_frame) (auto simp: nodes_def)
  ultimately show ?thesis using ex by blast
qed

end
