(* ===== verification/Kernel_List_Order.thy ===== *)
theory Kernel_List_Order
  imports Kernel_List
begin

text \<open>
  The ordered operations of \<open>lib/kernel/list.c\<close>: \<open>list_sort\<close> (a natural merge sort in
  place), \<open>list_insert_ordered\<close>, \<open>list_unique\<close>, \<open>list_max\<close> and \<open>list_min\<close>. Each
  loop over the heap is shown to compute a function on the abstract list; the sort
  terminates because every pass at least halves the number of runs.
\<close>

section \<open>Sorting\<close>

text \<open>The contract of a \<open>list_less_func\<close>: a strict weak order on elements.\<close>

definition weak_order :: "less_func \<Rightarrow> bool" where
  "weak_order lt \<longleftrightarrow> (\<forall>a b. lt a b \<longrightarrow> \<not> lt b a) \<and> (\<forall>a b c. lt a c \<longrightarrow> lt a b \<or> lt b c)"

abbreviation in_order :: "less_func \<Rightarrow> addr list \<Rightarrow> bool" where
  "in_order lt \<equiv> sorted_wrt (\<lambda>a b. \<not> lt (Some b) (Some a))"

fun asc :: "less_func \<Rightarrow> addr list \<Rightarrow> bool" where
  "asc lt (a # b # xs) \<longleftrightarrow> \<not> lt (Some b) (Some a) \<and> asc lt (b # xs)"
| "asc lt _ \<longleftrightarrow> True"

lemma asc_Cons: "asc lt (a # xs) \<longleftrightarrow> (xs = [] \<or> \<not> lt (Some (hd xs)) (Some a)) \<and> asc lt xs"
  by (cases xs) auto

lemma asc_append [simp]: "asc lt (xs @ ys) \<longleftrightarrow> asc lt xs \<and> asc lt ys
    \<and> (xs = [] \<or> ys = [] \<or> \<not> lt (Some (hd ys)) (Some (last xs)))"
  by (induction xs) (auto simp: asc_Cons hd_append)

lemma weak_order_trans:
  "weak_order lt \<Longrightarrow> \<not> lt b a \<Longrightarrow> \<not> lt c b \<Longrightarrow> \<not> lt c a"
  unfolding weak_order_def by blast

lemma asc_in_order: "weak_order lt \<Longrightarrow> asc lt xs \<longleftrightarrow> in_order lt xs"
proof (induction lt xs rule: asc.induct)
  case (1 lt a b xs)
  then show ?case using weak_order_trans [OF "1.prems"] by (auto simp del: sorted_wrt.simps(2)
     simp: sorted_wrt.simps(2) [of _ a "b # xs"] sorted_wrt.simps(2) [of _ b xs])
qed auto

fun run_split :: "less_func \<Rightarrow> addr \<Rightarrow> addr list \<Rightarrow> addr list \<times> addr list" where
  "run_split lt y [] = ([], [])"
| "run_split lt y (z # zs) = (if \<not> lt (Some z) (Some y)
     then (let (r, s) = run_split lt z zs in (z # r, s)) else ([], z # zs))"

fun merge :: "less_func \<Rightarrow> addr list \<Rightarrow> addr list \<Rightarrow> addr list" where
  "merge lt (y # ys) (z # zs) =
     (if \<not> lt (Some z) (Some y) then y # merge lt ys (z # zs) else z # merge lt (y # ys) zs)"
| "merge lt [] zs = zs"
| "merge lt ys [] = ys"

lemma run_split_append: "run_split lt y ys = (r, s) \<Longrightarrow> ys = r @ s"
  by (induction lt y ys arbitrary: r rule: run_split.induct) (auto split: if_splits prod.splits)

lemma run_split_length:
  "(r, s) = run_split lt y ys \<Longrightarrow> length s \<le> length ys"
  using run_split_append [of lt y ys r s] by simp

lemma run_split_asc: "run_split lt y ys = (r, s) \<Longrightarrow> asc lt (y # r)"
  by (induction lt y ys arbitrary: r rule: run_split.induct) (auto split: if_splits prod.splits)

lemma mset_merge: "mset (merge lt xs ys) = mset xs + mset ys"
  by (induction lt xs ys rule: merge.induct) auto

lemma set_merge: "set (merge lt xs ys) = set xs \<union> set ys"
  by (induction lt xs ys rule: merge.induct) auto

lemma merge_in_order:
  "weak_order lt \<Longrightarrow> in_order lt xs \<Longrightarrow> in_order lt ys \<Longrightarrow> in_order lt (merge lt xs ys)"
proof (induction lt xs ys rule: merge.induct)
  case (1 lt y ys z zs)
  have "lt (Some z) (Some y) \<Longrightarrow> \<not> lt (Some y) (Some z)"
    using "1.prems"(1) unfolding weak_order_def by blast
  with 1 weak_order_trans [OF "1.prems"(1)] show ?case
    by (auto simp: set_merge)
qed auto

text \<open>One pass of \<open>list_sort\<close> on the abstract list, with the number of runs it outputs.\<close>

function apass :: "less_func \<Rightarrow> addr list \<Rightarrow> nat \<times> addr list" where
  "apass lt [] = (0, [])"
| "apass lt (y # ys) =
     (let (r, s) = run_split lt y ys in
      case s of [] \<Rightarrow> (1, y # r)
      | z # zs \<Rightarrow> (let (r', s') = run_split lt z zs; (n, out) = apass lt s'
                  in (Suc n, merge lt (y # r) (z # r') @ out)))"
  by pat_completeness auto
termination
  by (relation "measure (\<lambda>(lt, xs). length xs)") (auto dest!: run_split_length)

fun nruns :: "less_func \<Rightarrow> addr list \<Rightarrow> nat" where
  "nruns lt [] = 0"
| "nruns lt [x] = 1"
| "nruns lt (x # y # xs) = (if lt (Some y) (Some x) then 1 else 0) + nruns lt (y # xs)"

lemma nruns_append: "nruns lt (xs @ ys) \<le> nruns lt xs + nruns lt ys"
proof (induction lt xs rule: nruns.induct)
  case (2 lt x)
  then show ?case by (cases ys) auto
qed auto

lemma nruns_pos: "nruns lt (x # xs) \<ge> 1"
  by (induction xs arbitrary: x) auto

lemma nruns_asc: "asc lt xs \<Longrightarrow> nruns lt xs \<le> 1"
  by (induction lt xs rule: nruns.induct) auto

lemma nruns_run: "run_split lt y ys = (r, s) \<Longrightarrow> nruns lt (y # ys) = Suc (nruns lt s)"
  by (induction lt y ys arbitrary: r rule: run_split.induct) (auto split: if_splits prod.splits)

lemma apass_last: "run_split lt y ys = (r, []) \<Longrightarrow> apass lt (y # ys) = (1, y # r)"
  by simp

lemma apass_merge:
  "run_split lt y ys = (r, z # zs) \<Longrightarrow> run_split lt z zs = (r', s') \<Longrightarrow>
   apass lt (y # ys) = (Suc (fst (apass lt s')), merge lt (y # r) (z # r') @ snd (apass lt s'))"
  by (simp split: prod.split del: merge.simps)

lemma apass_induct [case_names empty last merge]:
  assumes "P []" "\<And>y ys r. run_split lt y ys = (r, []) \<Longrightarrow> P (y # ys)"
    and "\<And>y ys r z zs r' s'. run_split lt y ys = (r, z # zs) \<Longrightarrow> run_split lt z zs = (r', s') \<Longrightarrow>
           P s' \<Longrightarrow> P (y # ys)"
  shows "P xs"
proof (induction xs rule: length_induct)
  case (1 xs)
  show ?case
  proof (cases xs)
    case Nil then show ?thesis using assms(1) by simp
  next
    case (Cons y ys)
    obtain r s where rs: "run_split lt y ys = (r, s)" by fastforce
    show ?thesis
    proof (cases s)
      case Nil then show ?thesis using assms(2) rs Cons by simp
    next
      case s: (Cons z zs)
      obtain r' s' where rs': "run_split lt z zs = (r', s')" by fastforce
      have "P s'" using "1.IH" Cons s run_split_append [OF rs] run_split_append [OF rs'] by simp
      then show ?thesis using assms(3) rs rs' s Cons by simp
    qed
  qed
qed

declare apass.simps(2) [simp del]

lemma apass_mset: "mset (snd (apass lt xs)) = mset xs"
  by (induction xs rule: apass_induct [where lt = lt])
     (auto simp: apass_last apass_merge mset_merge dest!: run_split_append)

lemma apass_count: "fst (apass lt xs) = (nruns lt xs + 1) div 2"
  by (induction xs rule: apass_induct [where lt = lt]) (auto simp: apass_last apass_merge nruns_run)

lemma apass_runs:
  assumes "weak_order lt"
  shows "nruns lt (snd (apass lt xs)) \<le> fst (apass lt xs)"
proof (induction xs rule: apass_induct [where lt = lt])
  case (last y ys r)
  then show ?case using nruns_asc [OF run_split_asc] by (simp add: apass_last)
next
  case (merge y ys r z zs r' s')
  have "asc lt (merge lt (y # r) (z # r'))"
    using merge_in_order [OF assms] run_split_asc [OF merge(1)] run_split_asc [OF merge(2)]
    by (simp only: asc_in_order [OF assms])
  then have "nruns lt (merge lt (y # r) (z # r')) \<le> 1" by (rule nruns_asc)
  with merge show ?case
    using nruns_append [of lt "merge lt (y # r) (z # r')" "snd (apass lt s')"]
    by (simp add: apass_merge del: merge.simps)
qed simp

lemma apass_decreases:
  assumes "weak_order lt" "1 < fst (apass lt xs)"
  shows "fst (apass lt (snd (apass lt xs))) < fst (apass lt xs)"
  using apass_runs [OF assms(1), of xs] assms(2) apass_count [of lt "snd (apass lt xs)"] by linarith

lemma nruns_le_1_asc: "nruns lt xs \<le> 1 \<Longrightarrow> asc lt xs"
proof (induction lt xs rule: nruns.induct)
  case (3 lt x y xs)
  then show ?case using nruns_pos [of lt y xs] by (auto split: if_splits)
qed auto

lemma apass_done:
  assumes "weak_order lt" "fst (apass lt xs) \<le> 1"
  shows "asc lt (snd (apass lt xs))"
  using apass_runs [OF assms(1), of xs] assms(2) by (intro nruns_le_1_asc) simp

section \<open>The heap operations implement the abstract sort\<close>

lemma node_after_neq:
  assumes "is_list h l (xs @ zs @ ws)" "zs \<noteq> []"
  shows "node_after l (zs @ ws) \<noteq> node_after l ws"
proof -
  have d: "distinct (nodes l (xs @ zs @ ws))" using assms by (simp add: is_list_def)
  have "node_after l ws \<in> set (ws @ [tail l])"
    using node_neqs(3) [of l "xs @ zs" ws] d by simp
  moreover have "node_after l (zs @ ws) \<in> set zs" using assms(2) by (simp add: node_after_def)
  ultimately show ?thesis using d by (auto simp: nodes_def)
qed

lemma is_sorted_loop_spec:
  assumes "is_list h l (xs @ y # ys @ zs)"
  shows "is_sorted_loop h lt (Some y) (Some (node_after l zs)) = Some (asc lt (y # ys))"
  using assms
proof (induction ys arbitrary: xs y)
  case Nil
  then show ?case using list_next_elem [of h l xs y zs]
    by (simp add: is_sorted_loop.simps [of h lt "Some y"])
next
  case (Cons z ys)
  have n: "list_next h (Some y) = Some (Some z)" "list_prev h (Some z) = Some (Some y)"
    using list_next_elem [of h l xs y "z # ys @ zs"] list_prev_elem [of h l xs y z "ys @ zs"] Cons.prems
    by simp_all
  have "Some z \<noteq> Some (node_after l zs)"
    using node_after_neq [of h l "xs @ [y]" "z # ys" zs] Cons.prems by simp
  then show ?case using n Cons.IH [of "xs @ [y]" z] Cons.prems
    by (simp add: is_sorted_loop.simps [of h lt "Some y"])
qed

lemma is_sorted_spec:
  assumes "is_list h l (xs @ ys @ zs)"
  shows "is_sorted h lt (Some (node_after l (ys @ zs))) (Some (node_after l zs)) = Some (asc lt ys)"
proof (cases ys)
  case Nil then show ?thesis by (simp add: is_sorted_def)
next
  case (Cons y ys')
  then show ?thesis
    using is_sorted_loop_spec [of h l xs y ys' zs lt] assms
      node_after_neq [of h l xs ys zs] by (simp add: is_sorted_def)
qed

lemma run_loop_spec:
  assumes "is_list h l (xs @ y # ys)"
  shows "run_loop h lt (Some y) (list_end l) = Some (Some (node_after l (snd (run_split lt y ys))))"
  using assms
proof (induction ys arbitrary: xs y)
  case Nil
  then show ?case using list_next_elem [of h l xs y "[]"]
    by (simp add: run_loop.simps [of h lt "Some y"] list_end_def)
next
  case (Cons z ys)
  have n: "list_next h (Some y) = Some (Some z)" "list_prev h (Some z) = Some (Some y)"
    using list_next_elem [of h l xs y "z # ys"] list_prev_elem [of h l xs y z ys] Cons.prems
    by simp_all
  moreover have "Some z \<noteq> list_end l" using list_end_neq [of h l "xs @ [y]" z ys] Cons.prems by simp
  ultimately show ?case using Cons.IH [of "xs @ [y]" z] Cons.prems
    by (simp add: run_loop.simps [of h lt "Some y"] split: prod.split)
qed

lemma find_end_of_run_spec:
  assumes "is_list h l (xs @ y # ys)"
  shows "find_end_of_run h lt (Some y) (list_end l) = Some (Some (node_after l (snd (run_split lt y ys))))"
  using run_loop_spec [OF assms] list_end_neq [OF assms]
  by (simp add: find_end_of_run_def list_end_def)

lemma merge_loop_spec:
  assumes "is_list h l (xs @ ys @ zs @ ws)"
  shows "\<exists>h'. merge_loop lt (Some (node_after l (ys @ zs @ ws))) (Some (node_after l (zs @ ws)))
      (Some (node_after l ws)) h = Some h'
    \<and> is_list h' l (xs @ merge lt ys zs @ ws)
    \<and> (\<forall>a. a \<notin> set (nodes l (xs @ ys @ zs @ ws)) \<longrightarrow> h' a = h a)"
  using assms
proof (induction lt ys zs arbitrary: xs h rule: merge.induct)
  case (1 lt y ys z zs)
  have ne: "y \<noteq> z" "z \<noteq> node_after l ws"
    using node_after_neq [of h l xs "y # ys" "(z # zs) @ ws"]
      node_after_neq [of h l "xs @ y # ys" "z # zs" ws] "1.prems" by simp_all
  show ?case
  proof (cases "lt (Some z) (Some y)")
    case False
    have "list_next h (Some y) = Some (Some (node_after l (ys @ (z # zs) @ ws)))"
      using list_next_elem [of h l xs y "ys @ z # zs @ ws"] "1.prems" by simp
    then show ?thesis using "1.IH"(1) [OF False, of h "xs @ [y]"] "1.prems" False ne
      by (simp add: merge_loop.simps [of lt "Some y"])
  next
    case True
    have n: "list_next h (Some z) = Some (Some (node_after l (zs @ ws)))"
      using list_next_elem [of h l "xs @ y # ys" z "zs @ ws"] "1.prems" by simp
    have p: "list_prev h (Some (node_after l (zs @ ws))) = Some (Some z)"
      using list_prev_spec [of h l "xs @ y # ys @ [z]" "zs @ ws"] node_before_simps(2) [of l "xs @ y # ys" z] "1.prems" by simp
    obtain h1 where h1: "list_splice (Some y) (Some z) (Some (node_after l (zs @ ws))) h = Some h1"
      "is_list h1 l (xs @ z # y # ys @ zs @ ws)"
      "\<forall>a. a \<notin> set (nodes l (xs @ y # ys @ z # zs @ ws)) \<longrightarrow> h1 a = h a"
      using list_splice_back_spec [of h l xs "y # ys" "[z]" "zs @ ws"] "1.prems" by auto
    from "1.IH"(2) [of h1 "xs @ [z]"] True h1(2) obtain h2 where
      h2: "merge_loop lt (Some y) (Some (node_after l (zs @ ws))) (Some (node_after l ws)) h1 = Some h2"
      "is_list h2 l (xs @ z # merge lt (y # ys) zs @ ws)"
      "\<forall>a. a \<notin> set (nodes l (xs @ z # y # ys @ zs @ ws)) \<longrightarrow> h2 a = h1 a" by auto
    have "\<forall>a. a \<notin> set (nodes l (xs @ (y # ys) @ (z # zs) @ ws)) \<longrightarrow> h2 a = h a"
      using h1(3) h2(3) by (auto simp: nodes_def)
    with h1 h2 n p True ne show ?thesis
      by (simp add: merge_loop.simps [of lt "Some y" "Some z"])
  qed
next
  case (2 lt zs)
  then show ?case by (simp add: merge_loop.simps)
next
  case (3 lt y ys)
  then show ?case by (simp add: merge_loop.simps)
qed

lemma inplace_merge_spec:
  assumes "is_list h l (xs @ ys @ zs @ ws)" "asc lt ys" "asc lt zs"
  shows "\<exists>h'. inplace_merge lt (Some (node_after l (ys @ zs @ ws))) (Some (node_after l (zs @ ws)))
      (Some (node_after l ws)) h = Some h'
    \<and> is_list h' l (xs @ merge lt ys zs @ ws)
    \<and> (\<forall>a. a \<notin> set (nodes l (xs @ ys @ zs @ ws)) \<longrightarrow> h' a = h a)"
proof -
  have "is_sorted h lt (Some (node_after l (ys @ zs @ ws))) (Some (node_after l (zs @ ws))) = Some True"
    using is_sorted_spec [of h l xs ys "zs @ ws" lt] assms by simp
  moreover have "is_sorted h lt (Some (node_after l (zs @ ws))) (Some (node_after l ws)) = Some True"
    using is_sorted_spec [of h l "xs @ ys" zs ws lt] assms by simp
  ultimately show ?thesis
    using merge_loop_spec [OF assms(1), of lt] by (simp add: inplace_merge_def)
qed

lemma sort_pass_spec:
  assumes "is_list h l (xs @ ys)"
  shows "\<exists>h'. sort_pass l lt (Some (node_after l ys)) n h = Some (n + fst (apass lt ys), h')
    \<and> is_list h' l (xs @ snd (apass lt ys))
    \<and> (\<forall>a. a \<notin> set (nodes l (xs @ ys)) \<longrightarrow> h' a = h a)"
  using assms
proof (induction ys arbitrary: xs n h rule: apass_induct [where lt = lt])
  case empty
  then show ?case by (simp add: sort_pass.simps list_end_def)
next
  case (last y ys r)
  have "find_end_of_run h lt (Some y) (list_end l) = Some (list_end l)"
    using find_end_of_run_spec [OF last.prems, of lt] last(1) by (simp add: list_end_def)
  then show ?case using last list_end_neq [OF last.prems] run_split_append [OF last(1)]
    by (simp add: sort_pass.simps [of l lt "Some y"] apass_last)
next
  case (merge y ys r z zs r' s')
  note e = run_split_append [OF merge(1)] run_split_append [OF merge(2)]
  have L: "is_list h l (xs @ (y # r) @ (z # r') @ s')" using merge.prems e by simp
  have f: "find_end_of_run h lt (Some y) (list_end l) = Some (Some z)"
    "find_end_of_run h lt (Some z) (list_end l) = Some (Some (node_after l s'))"
    using find_end_of_run_spec [of h l xs y "r @ z # r' @ s'" lt]
      find_end_of_run_spec [of h l "xs @ y # r" z "r' @ s'" lt] L merge(1,2) e by simp_all
  have ne: "Some y \<noteq> list_end l" "Some z \<noteq> list_end l"
    using list_end_neq [of h l xs y "r @ z # r' @ s'"] list_end_neq [of h l "xs @ y # r" z "r' @ s'"] L
    by simp_all
  obtain h1 where h1: "inplace_merge lt (Some y) (Some z) (Some (node_after l s')) h = Some h1"
    "is_list h1 l (xs @ Kernel_List_Order.merge lt (y # r) (z # r') @ s')"
    "\<forall>a. a \<notin> set (nodes l (xs @ (y # r) @ (z # r') @ s')) \<longrightarrow> h1 a = h a"
    using inplace_merge_spec [OF L run_split_asc [OF merge(1)] run_split_asc [OF merge(2)]] by auto
  obtain h2 where h2: "sort_pass l lt (Some (node_after l s')) (n + 1) h1 = Some (n + 1 + fst (apass lt s'), h2)"
    "is_list h2 l ((xs @ Kernel_List_Order.merge lt (y # r) (z # r')) @ snd (apass lt s'))"
    "\<forall>a. a \<notin> set (nodes l ((xs @ Kernel_List_Order.merge lt (y # r) (z # r')) @ s')) \<longrightarrow> h2 a = h1 a"
    using merge.IH [of h1 "xs @ Kernel_List_Order.merge lt (y # r) (z # r')" "n + 1"] h1(2)
    by (auto simp del: merge.simps)
  have "\<forall>a. a \<notin> set (nodes l (xs @ y # ys)) \<longrightarrow> h2 a = h a"
    using h1(3) h2(3) e by (auto simp: nodes_def set_merge)
  then show ?case using h1 h2 f ne merge(1,2)
    by (simp add: sort_pass.simps [of l lt "Some y"] apass_merge del: merge.simps)
qed

lemma sort_loop_spec:
  assumes "weak_order lt" "is_list h l xs"
  shows "\<exists>h' ys. sort_loop l lt h = Some h' \<and> is_list h' l ys \<and> asc lt ys \<and> mset ys = mset xs
    \<and> (\<forall>a. a \<notin> set (nodes l xs) \<longrightarrow> h' a = h a)"
  using assms(2)
proof (induction "fst (apass lt xs)" arbitrary: xs h rule: less_induct)
  case less
  let ?n = "fst (apass lt xs)" and ?ys = "snd (apass lt xs)"
  obtain h1 where h1: "sort_pass l lt (list_begin h l) 0 h = Some (?n, h1)" "is_list h1 l ?ys"
    "\<forall>a. a \<notin> set (nodes l xs) \<longrightarrow> h1 a = h a"
    using sort_pass_spec [of h l "[]" xs lt 0] less.prems list_begin_spec [OF less.prems] by auto
  have ms: "mset ?ys = mset xs" by (rule apass_mset)
  then have st: "set ?ys = set xs" by (metis set_mset_mset)
  show ?case
  proof (cases "1 < ?n")
    case True
    obtain h2 zs where "sort_loop l lt h1 = Some h2" "is_list h2 l zs" "asc lt zs" "mset zs = mset ?ys"
      "\<forall>a. a \<notin> set (nodes l ?ys) \<longrightarrow> h2 a = h1 a"
      using less.hyps [OF apass_decreases [OF assms(1) True] h1(2)] by blast
    with h1 True ms st show ?thesis
      by (auto simp: sort_loop.simps [of l lt h] nodes_def intro!: exI [of _ zs])
  next
    case False
    with apass_done [OF assms(1), of xs] h1 ms show ?thesis
      by (auto simp: sort_loop.simps [of l lt h])
  qed
qed

lemma list_sort_spec:
  assumes "weak_order lt" "is_list h l xs"
  shows "\<exists>h' ys. list_sort l lt h = Some h' \<and> is_list h' l ys \<and> in_order lt ys \<and> mset ys = mset xs
    \<and> (\<forall>a. a \<notin> set (nodes l xs) \<longrightarrow> h' a = h a)"
proof -
  obtain h' ys where s: "sort_loop l lt h = Some h'" "is_list h' l ys" "asc lt ys" "mset ys = mset xs"
    "\<forall>a. a \<notin> set (nodes l xs) \<longrightarrow> h' a = h a"
    using sort_loop_spec [OF assms] by blast
  have "is_sorted h' lt (list_begin h' l) (list_end l) = Some True"
    using is_sorted_spec [of h' l "[]" ys "[]" lt] s(2,3) list_begin_spec [OF s(2)]
    by (simp add: list_end_def)
  then show ?thesis using s asc_in_order [OF assms(1)] by (auto simp: list_sort_def)
qed

section \<open>The other ordered operations\<close>

lemma insert_ordered_pos_spec:
  assumes "is_list h l (xs @ ys)"
  shows "insert_ordered_pos h l lt elem (Some (node_after l ys))
    = Some (Some (node_after l (dropWhile (\<lambda>x. \<not> lt elem (Some x)) ys)))"
  using assms
proof (induction ys arbitrary: xs)
  case Nil
  then show ?case by (simp add: insert_ordered_pos.simps list_end_def)
next
  case (Cons y ys)
  then show ?case
    using list_end_neq [OF Cons.prems] list_next_elem [OF Cons.prems] Cons.IH [of "xs @ [y]"]
    by (simp add: insert_ordered_pos.simps [of h l lt elem "Some y"])
qed

lemma list_insert_ordered_spec:
  assumes "is_list h l xs" "e \<notin> set (nodes l xs)"
  shows "\<exists>h'. list_insert_ordered l (Some e) lt h = Some h'
    \<and> is_list h' l (takeWhile (\<lambda>x. \<not> lt (Some e) (Some x)) xs @ e # dropWhile (\<lambda>x. \<not> lt (Some e) (Some x)) xs)
    \<and> (\<forall>a. a \<notin> insert e (set (nodes l xs)) \<longrightarrow> h' a = h a)"
  using insert_ordered_pos_spec [of h l "[]" xs lt "Some e"] assms list_begin_spec [OF assms(1)]
    list_insert_spec [of h l "takeWhile (\<lambda>x. \<not> lt (Some e) (Some x)) xs" "dropWhile (\<lambda>x. \<not> lt (Some e) (Some x)) xs" e]
  by (simp add: list_insert_ordered_def)

lemma insert_ordered_in_order:
  assumes "weak_order lt" "in_order lt xs"
  shows "in_order lt (takeWhile (\<lambda>x. \<not> lt (Some e) (Some x)) xs @ e # dropWhile (\<lambda>x. \<not> lt (Some e) (Some x)) xs)"
  using assms(2)
proof (induction xs)
  case (Cons x xs)
  have "lt (Some e) (Some x) \<Longrightarrow> \<not> lt (Some x) (Some e)"
    using assms(1) unfolding weak_order_def by blast
  with Cons weak_order_trans [OF assms(1), of "Some x" "Some e"] show ?case
    by (auto dest: set_takeWhileD set_dropWhileD)
qed simp

text \<open>\<open>list_max\<close> and \<open>list_min\<close> on the abstract list: scan, replacing the candidate by a
  strictly better element only, so that the earliest of several is returned.\<close>

lemma max_loop_spec:
  assumes "is_list h l (xs @ ys)"
  shows "max_loop h l lt m (Some (node_after l ys))
    = Some (foldl (\<lambda>m x. if lt m (Some x) then Some x else m) m ys)"
  using assms
proof (induction ys arbitrary: xs m)
  case Nil
  then show ?case by (simp add: max_loop.simps list_end_def)
next
  case (Cons y ys)
  then show ?case
    using list_end_neq [OF Cons.prems] list_next_elem [OF Cons.prems] Cons.IH [of "xs @ [y]"]
    by (simp add: max_loop.simps [of h l lt m "Some y"])
qed

lemma min_loop_spec:
  assumes "is_list h l (xs @ ys)"
  shows "min_loop h l lt m (Some (node_after l ys))
    = Some (foldl (\<lambda>m x. if lt (Some x) m then Some x else m) m ys)"
  using assms
proof (induction ys arbitrary: xs m)
  case Nil
  then show ?case by (simp add: min_loop.simps list_end_def)
next
  case (Cons y ys)
  then show ?case
    using list_end_neq [OF Cons.prems] list_next_elem [OF Cons.prems] Cons.IH [of "xs @ [y]"]
    by (simp add: min_loop.simps [of h l lt m "Some y"])
qed

lemma max_scan:
  assumes w: "weak_order lt"
    and inv: "zs = us @ m # vs" "\<forall>u \<in> set us. lt (Some u) (Some m)" "\<forall>v \<in> set vs. \<not> lt (Some m) (Some v)"
  shows "\<exists>us' m' vs'. foldl (\<lambda>m x. if lt m (Some x) then Some x else m) (Some m) ys = Some m'
    \<and> zs @ ys = us' @ m' # vs' \<and> (\<forall>u \<in> set us'. lt (Some u) (Some m'))
    \<and> (\<forall>v \<in> set vs'. \<not> lt (Some m') (Some v))"
  using inv
proof (induction ys arbitrary: zs us m vs)
  case (Cons y ys)
  show ?case
  proof (cases "lt (Some m) (Some y)")
    case True
    have "\<forall>u \<in> set zs. lt (Some u) (Some y)"
      using w Cons.prems True unfolding weak_order_def by auto blast+
    with Cons.IH [of "zs @ [y]" zs y "[]"] True show ?thesis by simp
  next
    case False
    with Cons.IH [of "zs @ [y]" us m "vs @ [y]"] Cons.prems show ?thesis by auto
  qed
qed auto

lemma list_max_spec:
  assumes "weak_order lt" "is_list h l (x # xs)"
  shows "\<exists>us m vs. list_max h l lt = Some (Some m) \<and> x # xs = us @ m # vs
    \<and> (\<forall>u \<in> set us. lt (Some u) (Some m)) \<and> (\<forall>v \<in> set vs. \<not> lt (Some m) (Some v))"
  using max_scan [OF assms(1), of "[x]" "[]" x "[]" xs] max_loop_spec [of h l "[x]" xs lt "Some x"]
    list_begin_spec [OF assms(2)] list_end_neq [of h l "[]" x xs] list_next_elem [of h l "[]" x xs] assms(2)
  by (simp add: list_max_def)

lemma list_min_spec:
  assumes "weak_order lt" "is_list h l (x # xs)"
  shows "\<exists>us m vs. list_min h l lt = Some (Some m) \<and> x # xs = us @ m # vs
    \<and> (\<forall>u \<in> set us. lt (Some m) (Some u)) \<and> (\<forall>v \<in> set vs. \<not> lt (Some v) (Some m))"
proof -
  have "weak_order (\<lambda>a b. lt b a)" using assms(1) unfolding weak_order_def by blast
  from max_scan [OF this, of "[x]" "[]" x "[]" xs] show ?thesis
    using min_loop_spec [of h l "[x]" xs lt "Some x"] list_begin_spec [OF assms(2)]
      list_end_neq [of h l "[]" x xs] list_next_elem [of h l "[]" x xs] assms(2)
    by (simp add: list_min_def)
qed

lemma list_max_empty: "is_list h l [] \<Longrightarrow> list_max h l lt = Some (list_end l)"
  using list_begin_spec [of h l "[]"] by (simp add: list_max_def list_end_def)

text \<open>\<open>list_unique\<close>: the elements kept and the elements moved to the duplicates list.\<close>

fun uniq :: "less_func \<Rightarrow> addr \<Rightarrow> addr list \<Rightarrow> addr list \<times> addr list" where
  "uniq lt a [] = ([a], [])"
| "uniq lt a (b # xs) =
     (if \<not> lt (Some a) (Some b) \<and> \<not> lt (Some b) (Some a)
      then (let (k, d) = uniq lt a xs in (k, b # d))
      else (let (k, d) = uniq lt b xs in (a # k, d)))"

lemma is_list_disjoint:
  assumes "is_list h l xs" "\<forall>a. a \<notin> A \<longrightarrow> h' a = h a" "A \<inter> set (nodes l xs) = {}"
  shows "is_list h' l xs"
  using assms(1) by (rule is_list_frame) (use assms(2,3) in blast)

lemma unique_loop_spec:
  assumes "is_list h l (xs @ a # ys)" "is_list h d ds"
    and "set (nodes l (xs @ a # ys)) \<inter> set (nodes d ds) = {}"
  shows "\<exists>h'. unique_loop l (Some d) lt (Some a) h = Some h'
    \<and> is_list h' l (xs @ fst (uniq lt a ys)) \<and> is_list h' d (ds @ snd (uniq lt a ys))"
  using assms
proof (induction ys arbitrary: xs a h ds)
  case Nil
  then show ?case using list_next_elem [of h l xs a "[]"]
    by (simp add: unique_loop.simps [of l _ lt "Some a"] list_end_def)
next
  case (Cons b ys)
  have n: "list_next h (Some a) = Some (Some b)" "Some b \<noteq> list_end l"
    using list_next_elem [OF Cons.prems(1)] list_end_neq [of h l "xs @ [a]" b ys] Cons.prems(1)
    by simp_all
  show ?case
  proof (cases "\<not> lt (Some a) (Some b) \<and> \<not> lt (Some b) (Some a)")
    case True
    obtain h1 where h1: "list_remove (Some b) h = Some (Some (node_after l ys), h1)"
      "is_list h1 l (xs @ a # ys)" "\<forall>c. c \<notin> set (nodes l (xs @ a # ys)) \<longrightarrow> h1 c = h c"
      using list_remove_spec [of h l "xs @ [a]" b ys] Cons.prems(1) by auto
    have d1: "is_list h1 d ds"
      using Cons.prems(2) h1(3) by (rule is_list_disjoint) (use Cons.prems(3) in \<open>auto simp: nodes_def\<close>)
    have b: "b \<notin> set (nodes d ds)" "b \<notin> set (nodes l (xs @ a # ys))"
      using Cons.prems(1,3) by (auto simp: is_list_def nodes_def)
    obtain h2 where h2: "list_push_back d (Some b) h1 = Some h2" "is_list h2 d (ds @ [b])"
      "\<forall>c. c \<notin> insert b (set (nodes d ds)) \<longrightarrow> h2 c = h1 c"
      using list_push_back_spec [OF d1 b(1)] by blast
    have l2: "is_list h2 l (xs @ a # ys)"
      using h1(2) h2(3) by (rule is_list_disjoint) (use b Cons.prems(3) in \<open>auto simp: nodes_def\<close>)
    have "set (nodes l (xs @ a # ys)) \<inter> set (nodes d (ds @ [b])) = {}"
      using Cons.prems(3) b by (auto simp: nodes_def)
    from Cons.IH [OF l2 h2(2) this] show ?thesis
      using n True h1(1) h2(1)
      by (auto simp: unique_loop.simps [of l "Some d" lt "Some a" h] split: prod.split)
  next
    case False
    have "\<exists>h'. unique_loop l (Some d) lt (Some b) h = Some h'
      \<and> is_list h' l ((xs @ [a]) @ fst (uniq lt b ys)) \<and> is_list h' d (ds @ snd (uniq lt b ys))"
      by (rule Cons.IH) (use Cons.prems in \<open>simp_all\<close>)
    then show ?thesis using n False
      by (auto simp: unique_loop.simps [of l "Some d" lt "Some a" h] split: prod.split)
  qed
qed

lemma unique_loop_drop_spec:
  assumes "is_list h l (xs @ a # ys)"
  shows "\<exists>h'. unique_loop l None lt (Some a) h = Some h' \<and> is_list h' l (xs @ fst (uniq lt a ys))"
  using assms
proof (induction ys arbitrary: xs a h)
  case Nil
  then show ?case using list_next_elem [of h l xs a "[]"]
    by (simp add: unique_loop.simps [of l _ lt "Some a"] list_end_def)
next
  case (Cons b ys)
  have n: "list_next h (Some a) = Some (Some b)" "Some b \<noteq> list_end l"
    using list_next_elem [OF Cons.prems(1)] list_end_neq [of h l "xs @ [a]" b ys] Cons.prems(1)
    by simp_all
  obtain h1 where h1: "list_remove (Some b) h = Some (Some (node_after l ys), h1)" "is_list h1 l (xs @ a # ys)"
    using list_remove_spec [of h l "xs @ [a]" b ys] Cons.prems(1) by auto
  show ?case
    using n h1 Cons.IH [of h1 xs a] Cons.IH [of h "xs @ [a]" b] Cons.prems
    by (auto simp: unique_loop.simps [of l None lt "Some a" h] split: prod.split)
qed

lemma uniq_hd: "\<exists>k'. fst (uniq lt a xs) = a # k'"
  by (induction lt a xs rule: uniq.induct) (auto split: prod.splits)

lemma uniq_adjacent: "successively (\<lambda>x y. lt (Some x) (Some y) \<or> lt (Some y) (Some x)) (fst (uniq lt a xs))"
proof (induction lt a xs rule: uniq.induct)
  case (2 lt a b xs)
  obtain k' where "fst (uniq lt b xs) = b # k'" using uniq_hd by blast
  with 2 show ?case by (auto split: prod.splits)
qed simp

text \<open>The list falls into groups: an element that is kept, and behind it those that equal it.\<close>

lemma uniq_groups:
  "\<exists>gs. uniq lt a xs = (map fst gs, concat (map snd gs)) \<and> a # xs = concat (map (\<lambda>(k, rs). k # rs) gs) \<and> gs \<noteq> [] \<and> fst (hd gs) = a
    \<and> list_all (\<lambda>(k, rs). list_all (\<lambda>r. \<not> lt (Some k) (Some r) \<and> \<not> lt (Some r) (Some k)) rs) gs"
proof (induction lt a xs rule: uniq.induct)
  case (1 lt a)
  then show ?case by (intro exI [of _ "[(a, [])]"]) simp
next
  case (2 lt a b xs)
  show ?case
  proof (cases "\<not> lt (Some a) (Some b) \<and> \<not> lt (Some b) (Some a)")
    case True
    obtain gs where gs: "uniq lt a xs = (map fst gs, concat (map snd gs))" "a # xs = concat (map (\<lambda>(k, rs). k # rs) gs)" "gs \<noteq> []" "fst (hd gs) = a"
      "list_all (\<lambda>(k, rs). list_all (\<lambda>r. \<not> lt (Some k) (Some r) \<and> \<not> lt (Some r) (Some k)) rs) gs" using 2(1) [OF True] by blast
    then obtain rs gs' where "gs = (a, rs) # gs'" by (cases gs) auto
    then show ?thesis using gs True by (intro exI [of _ "(a, b # rs) # gs'"]) auto
  next
    case False
    obtain gs where gs: "uniq lt b xs = (map fst gs, concat (map snd gs))" "b # xs = concat (map (\<lambda>(k, rs). k # rs) gs)"
      "list_all (\<lambda>(k, rs). list_all (\<lambda>r. \<not> lt (Some k) (Some r) \<and> \<not> lt (Some r) (Some k)) rs) gs" using 2(2) [OF False] by blast
    have "uniq lt a (b # xs) = (map fst ((a, []) # gs), concat (map snd ((a, []) # gs)))" using gs(1) False by auto
    then show ?thesis using gs(2,3) by (intro exI [of _ "(a, []) # gs"]) simp
  qed
qed

lemma list_unique_spec:
  assumes "is_list h l (x # xs)" "is_list h d ds" "set (nodes l (x # xs)) \<inter> set (nodes d ds) = {}"
  shows "\<exists>h'. list_unique l (Some d) lt h = Some h'
    \<and> is_list h' l (fst (uniq lt x xs)) \<and> is_list h' d (ds @ snd (uniq lt x xs))"
  using unique_loop_spec [of h l "[]" x xs d ds lt] assms list_begin_spec [OF assms(1)]
    list_empty_spec [OF assms(1)] by (simp add: list_unique_def)

end
