(* ===== verification/Kernel_List_Props.thy ===== *)
theory Kernel_List_Props
  imports Kernel_List_Order
begin

text \<open>
  What the clients of \<open>list.c\<close> rely on. The locale \<open>fifo_queue\<close> is the contract of a
  first-in first-out queue, as the ready list of \<open>thread.c\<close> and the waiter lists of
  \<open>synch.c\<close> use one; it is interpreted on \<open>list_push_back\<close> and \<open>list_pop_front\<close> of the
  pointer-level model. The properties of the operations follow, with a list of three elements
  on which they are applied.
\<close>

section \<open>The queue contract\<close>

locale fifo_queue =
  fixes holds :: "'s \<Rightarrow> 'a list \<Rightarrow> bool"
    and may_add :: "'a \<Rightarrow> 'a list \<Rightarrow> bool"
    and push :: "'a \<Rightarrow> 's \<Rightarrow> 's option"
    and pop :: "'s \<Rightarrow> ('a \<times> 's) option"
  assumes push_law: "holds s xs \<Longrightarrow> may_add x xs \<Longrightarrow> \<exists>s'. push x s = Some s' \<and> holds s' (xs @ [x])"
    and pop_law: "holds s (x # xs) \<Longrightarrow> \<exists>s'. pop s = Some (x, s') \<and> holds s' xs"
    and pop_empty_law: "holds s [] \<Longrightarrow> pop s = None"
begin

primrec push_all :: "'a list \<Rightarrow> 's \<Rightarrow> 's option" where
  "push_all [] s = Some s"
| "push_all (x # xs) s = push x s \<bind> push_all xs"

primrec pop_n :: "nat \<Rightarrow> 's \<Rightarrow> ('a list \<times> 's) option" where
  "pop_n 0 s = Some ([], s)"
| "pop_n (Suc n) s = do { (x, s) \<leftarrow> pop s; (xs, s) \<leftarrow> pop_n n s; Some (x # xs, s) }"

lemma push_all_holds:
  assumes "holds s xs" "\<forall>us x vs. ys = us @ x # vs \<longrightarrow> may_add x (xs @ us)"
  shows "\<exists>s'. push_all ys s = Some s' \<and> holds s' (xs @ ys)"
  using assms
proof (induction ys arbitrary: s xs)
  case (Cons y ys)
  from Cons.prems(2) have "may_add y xs" by (metis append_Nil append_Nil2)
  then obtain s' where s': "push y s = Some s'" "holds s' (xs @ [y])"
    using push_law [OF Cons.prems(1)] by blast
  have "\<forall>us x vs. ys = us @ x # vs \<longrightarrow> may_add x ((xs @ [y]) @ us)"
    using Cons.prems(2) by (metis append.assoc append_Cons append_Nil)
  from Cons.IH [OF s'(2) this] s'(1) show ?case by auto
qed simp

lemma pop_n_holds:
  "holds s (xs @ ys) \<Longrightarrow> \<exists>s'. pop_n (length xs) s = Some (xs, s') \<and> holds s' ys"
proof (induction xs arbitrary: s)
  case (Cons x xs)
  then obtain s' where "pop s = Some (x, s')" "holds s' (xs @ ys)"
    using pop_law by fastforce
  with Cons.IH show ?case by fastforce
qed simp

text \<open>Elements come out in the order in which they went in, and then the queue is empty.\<close>

lemma fifo_order:
  assumes "holds s []" "\<forall>us x vs. ys = us @ x # vs \<longrightarrow> may_add x us"
  shows "\<exists>s1 s2. push_all ys s = Some s1 \<and> pop_n (length ys) s1 = Some (ys, s2) \<and> pop s2 = None"
proof -
  obtain s1 where "push_all ys s = Some s1" "holds s1 ys"
    using push_all_holds [OF assms(1), of ys] assms(2) by auto
  moreover from this obtain s2 where "pop_n (length ys) s1 = Some (ys, s2)" "holds s2 []"
    using pop_n_holds [of s1 ys "[]"] by auto
  ultimately show ?thesis using pop_empty_law by blast
qed

end

text \<open>\<open>pop_elem\<close> is \<open>list_pop_front\<close> seen as a partial operation on addresses: the returned
  pointer of a nonempty list is never null.\<close>

definition push_elem :: "klist \<Rightarrow> addr \<Rightarrow> heap \<Rightarrow> heap option" where
  "push_elem l e h = list_push_back l (Some e) h"

definition pop_elem :: "klist \<Rightarrow> heap \<Rightarrow> (addr \<times> heap) option" where
  "pop_elem l h = do { (p, h) \<leftarrow> list_pop_front l h; e \<leftarrow> p; Some (e, h) }"

interpretation kq: fifo_queue "\<lambda>h. is_list h l" "\<lambda>e xs. e \<notin> set (nodes l xs)" "push_elem l" "pop_elem l"
  for l
proof
  show "\<exists>h'. push_elem l e h = Some h' \<and> is_list h' l (xs @ [e])"
    if "is_list h l xs" "e \<notin> set (nodes l xs)" for h xs e
    using list_push_back_spec [OF that] by (auto simp: push_elem_def)
  show "\<exists>h'. pop_elem l h = Some (x, h') \<and> is_list h' l xs" if "is_list h l (x # xs)" for h x xs
    using list_pop_front_spec [OF that] by (auto simp: pop_elem_def)
  show "pop_elem l h = None" if "is_list h l []" for h
    using list_pop_empty [OF that] by (simp add: pop_elem_def)
qed

section \<open>A concrete list\<close>

text \<open>Header elements 0 and 1, elements 4, 2, 3 in this order; 5 is an element in no list, and
  6, 7 are the header elements of an empty second list.\<close>

definition ex_list :: klist where
  "ex_list = \<lparr>head = 0, tail = 1\<rparr>"

definition ex_dups :: klist where
  "ex_dups = \<lparr>head = 6, tail = 7\<rparr>"

definition ex_heap :: heap where
  "ex_heap a =
     (if a = 0 then \<lparr>prev = None, next = Some 4\<rparr>
      else if a = 4 then \<lparr>prev = Some 0, next = Some 2\<rparr>
      else if a = 2 then \<lparr>prev = Some 4, next = Some 3\<rparr>
      else if a = 3 then \<lparr>prev = Some 2, next = Some 1\<rparr>
      else if a = 1 then \<lparr>prev = Some 3, next = None\<rparr>
      else if a = 6 then \<lparr>prev = None, next = Some 7\<rparr>
      else if a = 7 then \<lparr>prev = Some 6, next = None\<rparr>
      else \<lparr>prev = None, next = None\<rparr>)"

definition ex_less :: less_func where
  "ex_less p q = (case_option 0 id p < case_option 0 id q)"

definition ex_desc :: less_func where
  "ex_desc p q = (case_option 0 id q div 2 < case_option 0 id p div 2)"

lemma ex_is_list: "is_list ex_heap ex_list [4, 2, 3]" "is_list ex_heap ex_dups []"
  by (simp_all add: is_list_def nodes_def ex_heap_def ex_list_def ex_dups_def)

lemma ex_nodes: "nodes ex_list xs = 0 # xs @ [1]" "nodes ex_dups xs = 6 # xs @ [7]"
  by (simp_all add: nodes_def ex_list_def ex_dups_def)

lemma ex_weak_order: "weak_order ex_less" "weak_order ex_desc"
  by (auto simp: weak_order_def ex_less_def ex_desc_def)

lemma is_list_same:
  assumes "is_list h l xs" "is_list h' l xs" "a \<in> set (nodes l xs)"
  shows "h' a = h a"
proof -
  consider "a = head l" | "a = tail l" | us vs where "xs = us @ a # vs"
    using assms(3) by (auto simp: nodes_def dest: split_list)
  then show ?thesis
  proof cases
    case 1
    then show ?thesis using is_list_append [of h l "[]" xs] is_list_append [of h' l "[]" xs] assms(1,2)
      by (simp add: is_list_def)
  next
    case 2
    then show ?thesis using is_list_append [of h l xs "[]"] is_list_append [of h' l xs "[]"] assms(1,2)
      by (simp add: is_list_def)
  next
    case 3
    then show ?thesis
      using is_list_append [of h l us "a # vs"] is_list_append [of h' l us "a # vs"]
        is_list_append [of h l "us @ [a]" vs] is_list_append [of h' l "us @ [a]" vs] assms(1,2) by simp
  qed
qed

lemma dropWhile_in_order:
  assumes "weak_order lt" "in_order lt xs" "v \<in> set (dropWhile (\<lambda>x. \<not> lt (Some e) (Some x)) xs)"
  shows "lt (Some e) (Some v)"
  using assms(2,3)
proof (induction xs)
  case (Cons x xs)
  show ?case
  proof (cases "lt (Some e) (Some x)")
    case True
    then have "v = x \<or> v \<in> set xs" using Cons.prems(2) by simp
    then show ?thesis using True Cons.prems(1) assms(1) unfolding weak_order_def sorted_wrt.simps by blast
  next
    case False
    then have "v \<in> set (dropWhile (\<lambda>x. \<not> lt (Some e) (Some x)) xs)" using Cons.prems(2) by simp
    moreover have "in_order lt xs" using Cons.prems(1) unfolding sorted_wrt.simps by blast
    ultimately show ?thesis using Cons.IH by blast
  qed
qed simp

section \<open>Properties of the operations\<close>

text \<open>C8. \<open>list_sort\<close> (a natural merge sort in place) always returns, and leaves in the list
  exactly its old elements, in ascending order, properly linked; no element outside the list
  is touched. The comparison is any strict weak order.\<close>

theorem list_sort_correct:
  assumes "weak_order lt" "is_list h l xs"
  shows "\<exists>h' ys. list_sort l lt h = Some h' \<and> is_list h' l ys \<and> in_order lt ys \<and> mset ys = mset xs
    \<and> (\<forall>a. a \<notin> set (nodes l xs) \<longrightarrow> h' a = h a)"
  by (rule list_sort_spec [OF assms])

theorem list_sort_correct_witness:
  "\<exists>h' ys. list_sort ex_list ex_less ex_heap = Some h' \<and> is_list h' ex_list ys \<and> in_order ex_less ys
    \<and> mset ys = mset [4, 2, 3] \<and> h' 6 = ex_heap 6"
proof -
  have "(6 :: addr) \<notin> set (nodes ex_list [4, 2, 3])" by (simp add: ex_nodes)
  with list_sort_correct [OF ex_weak_order(1) ex_is_list(1)] show ?thesis by blast
qed

text \<open>C27. \<open>list_reverse\<close> reverses the list and touches nothing else.\<close>

theorem list_reverse_correct:
  assumes "is_list h l xs"
  shows "\<exists>h'. list_reverse l h = Some h' \<and> is_list h' l (rev xs)
    \<and> (\<forall>a. a \<notin> set (nodes l xs) \<longrightarrow> h' a = h a)"
  by (rule list_reverse_spec [OF assms])

theorem list_reverse_correct_witness:
  "\<exists>h'. list_reverse ex_list ex_heap = Some h' \<and> is_list h' ex_list [3, 2, 4]"
  using list_reverse_correct [OF ex_is_list(1)] by auto

text \<open>C26. Removing an element that was just inserted restores the links of every element of
  the list, wherever the insertion took place.\<close>

theorem list_insert_remove:
  assumes "is_list h l (xs @ ys)" "e \<notin> set (nodes l (xs @ ys))"
  shows "\<exists>h1 h2. list_insert (Some (node_after l ys)) (Some e) h = Some h1
    \<and> is_list h1 l (xs @ e # ys)
    \<and> list_remove (Some e) h1 = Some (Some (node_after l ys), h2)
    \<and> (\<forall>a. a \<noteq> e \<longrightarrow> h2 a = h a)"
proof -
  obtain h1 where h1: "list_insert (Some (node_after l ys)) (Some e) h = Some h1"
    "is_list h1 l (xs @ e # ys)" "\<forall>a. a \<notin> insert e (set (nodes l (xs @ ys))) \<longrightarrow> h1 a = h a"
    using list_insert_spec [OF assms] by blast
  obtain h2 where h2: "list_remove (Some e) h1 = Some (Some (node_after l ys), h2)"
    "is_list h2 l (xs @ ys)" "\<forall>a. a \<notin> set (nodes l (xs @ ys)) \<longrightarrow> h2 a = h1 a"
    using list_remove_spec [OF h1(2)] by blast
  have "h2 a = h a" if "a \<noteq> e" for a
    using is_list_same [OF assms(1) h2(2), of a] h1(3) h2(3) that by (cases "a \<in> set (nodes l (xs @ ys))") auto
  with h1 h2 show ?thesis by blast
qed

theorem list_insert_remove_witness:
  "\<exists>h1 h2. list_insert (Some 2) (Some 5) ex_heap = Some h1 \<and> is_list h1 ex_list [4, 5, 2, 3]
    \<and> list_remove (Some 5) h1 = Some (Some 2, h2) \<and> h2 4 = ex_heap 4"
  using list_insert_remove [of ex_heap ex_list "[4]" "[2, 3]" 5] ex_is_list(1)
  by (auto simp: ex_nodes node_after_def)

text \<open>C28. \<open>list_insert_ordered\<close> keeps an ordered list ordered, and puts the element behind
  those it is equivalent to.\<close>

theorem list_insert_ordered_correct:
  assumes "weak_order lt" "is_list h l xs" "in_order lt xs" "e \<notin> set (nodes l xs)"
  shows "\<exists>h' us vs. list_insert_ordered l (Some e) lt h = Some h' \<and> is_list h' l (us @ e # vs)
    \<and> xs = us @ vs \<and> in_order lt (us @ e # vs) \<and> (\<forall>v \<in> set vs. lt (Some e) (Some v))"
proof -
  let ?us = "takeWhile (\<lambda>x. \<not> lt (Some e) (Some x)) xs"
  let ?vs = "dropWhile (\<lambda>x. \<not> lt (Some e) (Some x)) xs"
  have "\<forall>v \<in> set ?vs. lt (Some e) (Some v)"
    using dropWhile_in_order [OF assms(1,3)] by blast
  moreover have "in_order lt (?us @ e # ?vs)" by (rule insert_ordered_in_order [OF assms(1,3)])
  moreover have "xs = ?us @ ?vs" by simp
  ultimately show ?thesis using list_insert_ordered_spec [OF assms(2,4), of lt] by blast
qed

theorem list_insert_ordered_correct_witness:
  "\<exists>h' us vs. list_insert_ordered ex_list (Some 5) ex_desc ex_heap = Some h'
    \<and> is_list h' ex_list (us @ 5 # vs) \<and> [4, 2, 3] = us @ vs \<and> in_order ex_desc (us @ 5 # vs)"
proof -
  have "in_order ex_desc [4, 2, 3]" by (simp add: ex_desc_def)
  moreover have "5 \<notin> set (nodes ex_list [4, 2, 3])" by (simp add: ex_nodes)
  ultimately show ?thesis
    using list_insert_ordered_correct [OF ex_weak_order(2) ex_is_list(1)] by blast
qed

text \<open>C29. \<open>list_unique\<close> with a list for the duplicates: the list falls into groups of an element and the elements behind it that
  equal it. Exactly the first element of every group is kept, the others are appended to the duplicates, both in order, and no
  two adjacent elements of the result are equal.\<close>

theorem list_unique_correct:
  assumes "is_list h l (x # xs)" "is_list h d ds" "set (nodes l (x # xs)) \<inter> set (nodes d ds) = {}"
  shows "\<exists>h' gs. list_unique l (Some d) lt h = Some h' \<and> x # xs = concat (map (\<lambda>(k, rs). k # rs) gs)
    \<and> list_all (\<lambda>(k, rs). list_all (\<lambda>r. \<not> lt (Some k) (Some r) \<and> \<not> lt (Some r) (Some k)) rs) gs
    \<and> is_list h' l (map fst gs) \<and> is_list h' d (ds @ concat (map snd gs))
    \<and> successively (\<lambda>a b. lt (Some a) (Some b) \<or> lt (Some b) (Some a)) (map fst gs)"
proof -
  obtain gs where "uniq lt x xs = (map fst gs, concat (map snd gs))" "x # xs = concat (map (\<lambda>(k, rs). k # rs) gs)"
    "list_all (\<lambda>(k, rs). list_all (\<lambda>r. \<not> lt (Some k) (Some r) \<and> \<not> lt (Some r) (Some k)) rs) gs" using uniq_groups by blast
  then show ?thesis using list_unique_spec [OF assms, of lt] uniq_adjacent [of lt x xs] by auto
qed

text \<open>Two elements are equal if both are even or both are odd.\<close>

definition ex_parity :: less_func where
  "ex_parity a b \<longleftrightarrow> (case (a, b) of (Some x, Some y) \<Rightarrow> even x \<and> odd y | _ \<Rightarrow> False)"

theorem list_unique_correct_witness:
  "\<exists>h'. list_unique ex_list (Some ex_dups) ex_parity ex_heap = Some h' \<and> is_list h' ex_list [4, 3] \<and> is_list h' ex_dups [2]"
proof -
  obtain h' gs where h': "list_unique ex_list (Some ex_dups) ex_parity ex_heap = Some h'" and c: "[4, 2, 3] = concat (map (\<lambda>(k, rs). k # rs) gs)"
    and e: "list_all (\<lambda>(k, rs). list_all (\<lambda>r. \<not> ex_parity (Some k) (Some r) \<and> \<not> ex_parity (Some r) (Some k)) rs) gs"
    and l: "is_list h' ex_list (map fst gs)" "is_list h' ex_dups (concat (map snd gs))"
    and s: "successively (\<lambda>a b. ex_parity (Some a) (Some b) \<or> ex_parity (Some b) (Some a)) (map fst gs)"
    using list_unique_correct [OF ex_is_list, of ex_parity] by (auto simp: ex_nodes)
  have "gs = [(4, [2]), (3, [])]" using c e s by (cases gs; cases "tl gs"; cases "tl (tl gs)")
      (auto simp: ex_parity_def Cons_eq_append_conv append_eq_Cons_conv split: prod.splits)
  then show ?thesis using h' l by auto
qed

text \<open>C30. \<open>list_max\<close> returns the earliest of the greatest elements of a nonempty list.\<close>

theorem list_max_earliest:
  assumes "weak_order lt" "is_list h l (x # xs)"
  shows "\<exists>us m vs. list_max h l lt = Some (Some m) \<and> x # xs = us @ m # vs
    \<and> (\<forall>u \<in> set us. lt (Some u) (Some m)) \<and> (\<forall>v \<in> set vs. \<not> lt (Some m) (Some v))"
  by (rule list_max_spec [OF assms])

theorem list_max_earliest_witness:
  "\<exists>us m vs. list_max ex_heap ex_list ex_desc = Some (Some m) \<and> [4, 2, 3] = us @ m # vs
    \<and> (\<forall>u \<in> set us. ex_desc (Some u) (Some m)) \<and> (\<forall>v \<in> set vs. \<not> ex_desc (Some m) (Some v))"
  by (rule list_max_earliest [OF ex_weak_order(2) ex_is_list(1)])

text \<open>C20. The list is a first-in first-out queue under \<open>list_push_back\<close> and
  \<open>list_pop_front\<close>: distinct elements pushed on an empty list are popped in the order of
  the pushes, after which popping is an assertion failure.\<close>

theorem list_fifo:
  assumes "is_list h l []" "distinct ys" "head l \<notin> set ys" "tail l \<notin> set ys"
  shows "\<exists>h1 h2. kq.push_all l ys h = Some h1 \<and> kq.pop_n l (length ys) h1 = Some (ys, h2)
    \<and> pop_elem l h2 = None"
proof (rule kq.fifo_order [OF assms(1)], intro allI impI)
  fix us x vs
  assume "ys = us @ x # vs"
  with assms(2-4) show "x \<notin> set (nodes l us)" by (auto simp: nodes_def)
qed

theorem list_fifo_witness:
  "\<exists>h1 h2. kq.push_all ex_dups [5, 8] ex_heap = Some h1
    \<and> kq.pop_n ex_dups 2 h1 = Some ([5, 8], h2) \<and> pop_elem ex_dups h2 = None"
  using list_fifo [OF ex_is_list(2), of "[5, 8]"] by (simp add: ex_dups_def numeral_2_eq_2)

end
