(* ===== verification/Bitmap.thy ===== *)
theory Bitmap
  imports Pintos_Prelude
begin

unbundle bit_operations_syntax

text \<open>
  The bitmaps of \<open>lib/kernel/bitmap.c\<close>: an array of 32-bit elements that simulates an
  array of bits. Sizes and indices are \<open>size_t\<close> values (below \<open>2^32\<close>, with the
  wrap-around of additions written out by \<open>sz\<close>); an access to \<open>bits\<close> outside the
  array has no defined result and is \<open>None\<close>, like a failed assertion. The abstraction is
  \<open>getb b i\<close>, bit number \<open>i\<close>.
\<close>

definition ELEM_BITS :: nat where "ELEM_BITS = 32"

definition BITMAP_ERROR :: nat where "BITMAP_ERROR = 2 ^ 32 - 1"

record bitmap =
  bit_cnt :: nat
  bits :: "u32 list"

definition elem_idx :: "nat \<Rightarrow> nat" where
  "elem_idx bit_idx = bit_idx div ELEM_BITS"

definition bit_mask :: "nat \<Rightarrow> u32" where
  "bit_mask bit_idx = push_bit (bit_idx mod ELEM_BITS) 1"

definition elem_cnt :: "nat \<Rightarrow> nat" where
  "elem_cnt n = sz (n + ELEM_BITS - 1) div ELEM_BITS"

definition byte_cnt :: "nat \<Rightarrow> nat" where
  "byte_cnt n = sz (4 * elem_cnt n)"

definition last_mask :: "bitmap \<Rightarrow> u32" where
  "last_mask b = (let last_bits = bit_cnt b mod ELEM_BITS in
     if last_bits \<noteq> 0 then push_bit last_bits 1 - 1 else - 1)"

definition bitmap_size :: "bitmap \<Rightarrow> nat" where
  "bitmap_size b = bit_cnt b"

definition rd_elem :: "bitmap \<Rightarrow> nat \<Rightarrow> u32 option" where
  "rd_elem b i = (if i < length (bits b) then Some (bits b ! i) else None)"

definition bitmap_mark :: "bitmap \<Rightarrow> nat \<Rightarrow> bitmap option" where
  "bitmap_mark b bit_idx = do {
     e \<leftarrow> rd_elem b (elem_idx bit_idx);
     Some (b\<lparr>bits := (bits b)[elem_idx bit_idx := e OR bit_mask bit_idx]\<rparr>) }"

definition bitmap_reset :: "bitmap \<Rightarrow> nat \<Rightarrow> bitmap option" where
  "bitmap_reset b bit_idx = do {
     e \<leftarrow> rd_elem b (elem_idx bit_idx);
     Some (b\<lparr>bits := (bits b)[elem_idx bit_idx := e AND NOT (bit_mask bit_idx)]\<rparr>) }"

definition bitmap_flip :: "bitmap \<Rightarrow> nat \<Rightarrow> bitmap option" where
  "bitmap_flip b bit_idx = do {
     e \<leftarrow> rd_elem b (elem_idx bit_idx);
     Some (b\<lparr>bits := (bits b)[elem_idx bit_idx := e XOR bit_mask bit_idx]\<rparr>) }"

definition bitmap_set :: "bitmap \<Rightarrow> nat \<Rightarrow> bool \<Rightarrow> bitmap option" where
  "bitmap_set b idx v = do {
     ASSERT (idx < bit_cnt b);
     if v then bitmap_mark b idx else bitmap_reset b idx }"

definition bitmap_test :: "bitmap \<Rightarrow> nat \<Rightarrow> bool option" where
  "bitmap_test b idx = do {
     ASSERT (idx < bit_cnt b);
     e \<leftarrow> rd_elem b (elem_idx idx);
     Some (e AND bit_mask idx \<noteq> 0) }"

function set_multiple_loop :: "bitmap \<Rightarrow> nat \<Rightarrow> nat \<Rightarrow> nat \<Rightarrow> bool \<Rightarrow> bitmap option" where
  "set_multiple_loop b start i cnt v =
     (if i < cnt then do {
        b \<leftarrow> bitmap_set b (sz (start + i)) v;
        set_multiple_loop b start (i + 1) cnt v }
      else Some b)"
  by pat_completeness auto
termination
  by (relation "measure (\<lambda>(b, start, i, cnt, v). cnt - i)") auto

definition bitmap_set_multiple :: "bitmap \<Rightarrow> nat \<Rightarrow> nat \<Rightarrow> bool \<Rightarrow> bitmap option" where
  "bitmap_set_multiple b start cnt v = do {
     ASSERT (start \<le> bit_cnt b);
     ASSERT (sz (start + cnt) \<le> bit_cnt b);
     set_multiple_loop b start 0 cnt v }"

definition bitmap_set_all :: "bitmap \<Rightarrow> bool \<Rightarrow> bitmap option" where
  "bitmap_set_all b v = bitmap_set_multiple b 0 (bitmap_size b) v"

text \<open>The two allocations of \<open>bitmap_create\<close>: \<open>mem\<close> is the uninitialised array
  \<open>malloc\<close> returned for the elements, \<open>None\<close> if it failed; the outer \<open>option\<close> is
  the assertion failure, the inner one the null pointer. \<open>malloc\<close> of zero bytes returns
  a null pointer.\<close>

definition bitmap_create :: "bool \<Rightarrow> u32 list option \<Rightarrow> nat \<Rightarrow> bitmap option option" where
  "bitmap_create got_b mem n =
     (if got_b then
        if mem \<noteq> None \<or> n = 0 then do {
          b \<leftarrow> bitmap_set_all \<lparr>bit_cnt = n, bits = (case mem of Some m \<Rightarrow> m | None \<Rightarrow> [])\<rparr> False;
          Some (Some b) }
        else Some None
      else Some None)"

text \<open>\<open>mem\<close> holds the elements in the block after the \<open>struct bitmap\<close>, which
  takes 8 bytes.\<close>

definition bitmap_buf_size :: "nat \<Rightarrow> nat" where
  "bitmap_buf_size n = sz (8 + byte_cnt n)"

definition bitmap_create_in_buf :: "nat \<Rightarrow> u32 list \<Rightarrow> nat \<Rightarrow> bitmap option" where
  "bitmap_create_in_buf n mem block_size = do {
     ASSERT (block_size \<ge> bitmap_buf_size n);
     bitmap_set_all \<lparr>bit_cnt = n, bits = mem\<rparr> False }"

function count_loop :: "bitmap \<Rightarrow> nat \<Rightarrow> nat \<Rightarrow> nat \<Rightarrow> bool \<Rightarrow> nat \<Rightarrow> nat option" where
  "count_loop b start i cnt v value_cnt =
     (if i < cnt then do {
        t \<leftarrow> bitmap_test b (sz (start + i));
        count_loop b start (i + 1) cnt v (if t = v then value_cnt + 1 else value_cnt) }
      else Some value_cnt)"
  by pat_completeness auto
termination
  by (relation "measure (\<lambda>(b, start, i, cnt, v, c). cnt - i)") auto

definition bitmap_count :: "bitmap \<Rightarrow> nat \<Rightarrow> nat \<Rightarrow> bool \<Rightarrow> nat option" where
  "bitmap_count b start cnt v = do {
     ASSERT (start \<le> bit_cnt b);
     ASSERT (sz (start + cnt) \<le> bit_cnt b);
     count_loop b start 0 cnt v 0 }"

function contains_loop :: "bitmap \<Rightarrow> nat \<Rightarrow> nat \<Rightarrow> nat \<Rightarrow> bool \<Rightarrow> bool option" where
  "contains_loop b start i cnt v =
     (if i < cnt then do {
        t \<leftarrow> bitmap_test b (sz (start + i));
        if t = v then Some True else contains_loop b start (i + 1) cnt v }
      else Some False)"
  by pat_completeness auto
termination
  by (relation "measure (\<lambda>(b, start, i, cnt, v). cnt - i)") auto

definition bitmap_contains :: "bitmap \<Rightarrow> nat \<Rightarrow> nat \<Rightarrow> bool \<Rightarrow> bool option" where
  "bitmap_contains b start cnt v = do {
     ASSERT (start \<le> bit_cnt b);
     ASSERT (sz (start + cnt) \<le> bit_cnt b);
     contains_loop b start 0 cnt v }"

definition bitmap_any :: "bitmap \<Rightarrow> nat \<Rightarrow> nat \<Rightarrow> bool option" where
  "bitmap_any b start cnt = bitmap_contains b start cnt True"

definition bitmap_none :: "bitmap \<Rightarrow> nat \<Rightarrow> nat \<Rightarrow> bool option" where
  "bitmap_none b start cnt = map_option Not (bitmap_contains b start cnt True)"

definition bitmap_all :: "bitmap \<Rightarrow> nat \<Rightarrow> nat \<Rightarrow> bool option" where
  "bitmap_all b start cnt = map_option Not (bitmap_contains b start cnt False)"

function scan_loop :: "bitmap \<Rightarrow> nat \<Rightarrow> nat \<Rightarrow> nat \<Rightarrow> bool \<Rightarrow> nat option" where
  "scan_loop b i lst cnt v =
     (if i \<le> lst then do {
        c \<leftarrow> bitmap_contains b i cnt (\<not> v);
        if \<not> c then Some i else scan_loop b (i + 1) lst cnt v }
      else Some BITMAP_ERROR)"
  by pat_completeness auto
termination
  by (relation "measure (\<lambda>(b, i, lst, cnt, v). Suc lst - i)") auto

definition bitmap_scan :: "bitmap \<Rightarrow> nat \<Rightarrow> nat \<Rightarrow> bool \<Rightarrow> nat option" where
  "bitmap_scan b start cnt v = do {
     ASSERT (start \<le> bit_cnt b);
     if cnt \<le> bit_cnt b then scan_loop b start (bit_cnt b - cnt) cnt v
     else Some BITMAP_ERROR }"

definition bitmap_scan_and_flip :: "bitmap \<Rightarrow> nat \<Rightarrow> nat \<Rightarrow> bool \<Rightarrow> (nat \<times> bitmap) option" where
  "bitmap_scan_and_flip b start cnt v = do {
     idx \<leftarrow> bitmap_scan b start cnt v;
     b \<leftarrow> (if idx \<noteq> BITMAP_ERROR then bitmap_set_multiple b idx cnt (\<not> v) else Some b);
     Some (idx, b) }"

definition bitmap_file_size :: "bitmap \<Rightarrow> nat" where
  "bitmap_file_size b = byte_cnt (bit_cnt b)"

declare set_multiple_loop.simps [simp del] count_loop.simps [simp del]
  contains_loop.simps [simp del] scan_loop.simps [simp del]

section \<open>Abstraction and invariant\<close>

definition getb :: "bitmap \<Rightarrow> nat \<Rightarrow> bool" where
  "getb b i = bit (bits b ! (i div 32)) (i mod 32)"

definition bitmap_wf :: "bitmap \<Rightarrow> bool" where
  "bitmap_wf b \<longleftrightarrow> bit_cnt b + 31 < 2 ^ 32 \<and> length (bits b) = (bit_cnt b + 31) div 32"

definition bitmap_upd :: "bitmap \<Rightarrow> (nat \<Rightarrow> bool) \<Rightarrow> bitmap \<Rightarrow> bool" where
  "bitmap_upd b g b' \<longleftrightarrow> bitmap_wf b' \<and> bit_cnt b' = bit_cnt b \<and> (\<forall>j. j < bit_cnt b \<longrightarrow> getb b' j = g j)"

text \<open>A group of \<open>cnt\<close> bits at \<open>i\<close> that all have value \<open>v\<close>, and the first such
  group at or after \<open>start\<close>.\<close>

definition bit_group :: "bitmap \<Rightarrow> nat \<Rightarrow> bool \<Rightarrow> nat \<Rightarrow> bool" where
  "bit_group b cnt v i \<longleftrightarrow> i + cnt \<le> bit_cnt b \<and> (\<forall>j. i \<le> j \<and> j < i + cnt \<longrightarrow> getb b j = v)"

definition first_group :: "bitmap \<Rightarrow> nat \<Rightarrow> bool \<Rightarrow> nat \<Rightarrow> nat \<Rightarrow> bool" where
  "first_group b cnt v start r \<longleftrightarrow>
     start \<le> r \<and> bit_group b cnt v r \<and> (\<forall>k. start \<le> k \<and> k < r \<longrightarrow> \<not> bit_group b cnt v k)"

lemma elem_cnt_eq: "n + 31 < 2 ^ 32 \<Longrightarrow> elem_cnt n = (n + 31) div 32"
  by (simp add: elem_cnt_def ELEM_BITS_def sz_id)

lemma elem_idx_bound: "bitmap_wf b \<Longrightarrow> i < bit_cnt b \<Longrightarrow> elem_idx i < length (bits b)"
  by (simp add: bitmap_wf_def elem_idx_def ELEM_BITS_def)

lemma rd_elem_wf: "bitmap_wf b \<Longrightarrow> i < bit_cnt b \<Longrightarrow> rd_elem b (elem_idx i) = Some (bits b ! elem_idx i)"
  by (simp add: rd_elem_def elem_idx_bound)

lemma bit_bit_mask: "bit (bit_mask i) n \<longleftrightarrow> n = i mod 32"
  by (auto simp: bit_mask_def ELEM_BITS_def bit_simps)

lemma div_mod_eq32: "(i::nat) div 32 = j div 32 \<and> i mod 32 = j mod 32 \<longleftrightarrow> i = j"
  by (metis div_mult_mod_eq)

lemma bitmap_test_spec:
  assumes "bitmap_wf b"
  shows "bitmap_test b i = (if i < bit_cnt b then Some (getb b i) else None)"
proof -
  have "w AND bit_mask i \<noteq> 0 \<longleftrightarrow> bit w (i mod 32)" for w :: u32
    unfolding bit_eq_iff [of "w AND bit_mask i"] by (auto simp: bit_and_iff bit_bit_mask)
  then show ?thesis
    using assms rd_elem_wf [OF assms, of i]
    by (simp add: bitmap_test_def getb_def elem_idx_def ELEM_BITS_def)
qed

lemma bitmap_upd_elem:
  assumes "bitmap_wf b" "i < bit_cnt b"
    and e: "\<And>n. n < 32 \<Longrightarrow> bit e n = (if n = i mod 32 then v else bit (bits b ! elem_idx i) n)"
  shows "bitmap_upd b (\<lambda>j. if j = i then v else getb b j) (b\<lparr>bits := (bits b)[elem_idx i := e]\<rparr>)"
proof -
  have "getb (b\<lparr>bits := (bits b)[elem_idx i := e]\<rparr>) j = (if j = i then v else getb b j)" for j
  proof (cases "j div 32 = i div 32")
    case True
    then have "j mod 32 = i mod 32 \<longleftrightarrow> j = i" using div_mod_eq32 [of j i] by blast
    moreover have "i div 32 < length (bits b)"
      using elem_idx_bound [OF assms(1,2)] by (simp add: elem_idx_def ELEM_BITS_def)
    ultimately show ?thesis using True e [of "j mod 32"]
      by (simp add: getb_def elem_idx_def ELEM_BITS_def)
  next
    case False
    then show ?thesis by (auto simp: getb_def elem_idx_def ELEM_BITS_def)
  qed
  then show ?thesis using assms(1) by (simp add: bitmap_upd_def bitmap_wf_def)
qed

lemma bitmap_set_spec:
  assumes "bitmap_wf b" "i < bit_cnt b"
  shows "\<exists>b'. bitmap_set b i v = Some b' \<and> bitmap_upd b (\<lambda>j. if j = i then v else getb b j) b'"
proof (cases v)
  case True
  have "bitmap_upd b (\<lambda>j. if j = i then v else getb b j)
      (b\<lparr>bits := (bits b)[elem_idx i := bits b ! elem_idx i OR bit_mask i]\<rparr>)"
    by (rule bitmap_upd_elem [OF assms]) (use True in \<open>auto simp: bit_or_iff bit_bit_mask\<close>)
  then show ?thesis using assms True by (simp add: bitmap_set_def bitmap_mark_def rd_elem_wf)
next
  case False
  have "bitmap_upd b (\<lambda>j. if j = i then v else getb b j)
      (b\<lparr>bits := (bits b)[elem_idx i := bits b ! elem_idx i AND NOT (bit_mask i)]\<rparr>)"
    by (rule bitmap_upd_elem [OF assms]) (use False in \<open>auto simp: bit_and_iff bit_not_iff bit_bit_mask\<close>)
  then show ?thesis using assms False by (simp add: bitmap_set_def bitmap_reset_def rd_elem_wf)
qed

lemma bitmap_flip_spec:
  assumes "bitmap_wf b" "i < bit_cnt b"
  shows "\<exists>b'. bitmap_flip b i = Some b' \<and> bitmap_upd b (\<lambda>j. if j = i then \<not> getb b i else getb b j) b'"
proof -
  have "bitmap_upd b (\<lambda>j. if j = i then \<not> getb b i else getb b j)
      (b\<lparr>bits := (bits b)[elem_idx i := bits b ! elem_idx i XOR bit_mask i]\<rparr>)"
    by (rule bitmap_upd_elem [OF assms])
      (auto simp: bit_xor_iff bit_bit_mask getb_def elem_idx_def ELEM_BITS_def)
  then show ?thesis using assms by (simp add: bitmap_flip_def rd_elem_wf)
qed

section \<open>Ranges of bits\<close>

lemma sz_in_bitmap: "bitmap_wf b \<Longrightarrow> n \<le> bit_cnt b \<Longrightarrow> sz n = n"
  by (rule sz_id) (simp add: bitmap_wf_def)

lemma set_multiple_loop_spec:
  assumes "bitmap_wf b" "start + cnt \<le> bit_cnt b"
  shows "\<exists>b'. set_multiple_loop b start i cnt v = Some b'
    \<and> bitmap_upd b (\<lambda>j. if start + i \<le> j \<and> j < start + cnt then v else getb b j) b'"
  using assms
proof (induction b start i cnt v rule: set_multiple_loop.induct)
  case (1 b start i cnt v)
  show ?case
  proof (cases "i < cnt")
    case True
    have s: "sz (start + i) = start + i"
      using 1(2,3) True by (intro sz_in_bitmap) auto
    obtain b1 where b1: "bitmap_set b (start + i) v = Some b1"
      "bitmap_upd b (\<lambda>j. if j = start + i then v else getb b j) b1"
      using bitmap_set_spec [OF 1(2), of "start + i" v] True 1(3) by auto
    obtain b2 where b2: "set_multiple_loop b1 start (i + 1) cnt v = Some b2"
      "bitmap_upd b1 (\<lambda>j. if start + (i + 1) \<le> j \<and> j < start + cnt then v else getb b1 j) b2"
      using 1(1) [OF True, of b1] b1 s 1(3) by (auto simp: bitmap_upd_def)
    have "bitmap_upd b (\<lambda>j. if start + i \<le> j \<and> j < start + cnt then v else getb b j) b2"
      using b1(2) b2(2) True 1(3) by (auto simp: bitmap_upd_def)
    then show ?thesis using True b1 b2 s by (simp add: set_multiple_loop.simps [of b])
  next
    case False
    then show ?thesis using 1(2) by (auto simp: set_multiple_loop.simps [of b] bitmap_upd_def)
  qed
qed

lemma contains_loop_spec:
  assumes "bitmap_wf b" "start + cnt \<le> bit_cnt b"
  shows "contains_loop b start i cnt v = Some (\<exists>j. start + i \<le> j \<and> j < start + cnt \<and> getb b j = v)"
  using assms
proof (induction b start i cnt v rule: contains_loop.induct)
  case (1 b start i cnt v)
  show ?case
  proof (cases "i < cnt")
    case True
    have s: "sz (start + i) = start + i"
      using 1(2,3) True by (intro sz_in_bitmap) auto
    have t: "bitmap_test b (start + i) = Some (getb b (start + i))"
      using bitmap_test_spec [OF 1(2)] True 1(3) by simp
    have "start + i \<le> j \<longleftrightarrow> j = start + i \<or> start + (i + 1) \<le> j" for j by auto
    then have "(\<exists>j. start + i \<le> j \<and> j < start + cnt \<and> getb b j = v)
        \<longleftrightarrow> getb b (start + i) = v \<or> (\<exists>j. start + (i + 1) \<le> j \<and> j < start + cnt \<and> getb b j = v)"
      using True by (metis add_less_cancel_left)
    then show ?thesis using 1(1) [OF True, of "getb b (start + i)"] 1(2,3) t s True
      by (simp add: contains_loop.simps [of b start i])
  next
    case False
    then show ?thesis by (auto simp: contains_loop.simps [of b])
  qed
qed

lemma bitmap_contains_spec:
  assumes "bitmap_wf b" "start + cnt \<le> bit_cnt b"
  shows "bitmap_contains b start cnt v = Some (\<exists>j. start \<le> j \<and> j < start + cnt \<and> getb b j = v)"
  using contains_loop_spec [OF assms, of 0 v] sz_in_bitmap [OF assms] assms
  by (simp add: bitmap_contains_def)

lemma bitmap_all_spec:
  assumes "bitmap_wf b" "start + cnt \<le> bit_cnt b"
  shows "bitmap_all b start cnt = Some (\<forall>j. start \<le> j \<and> j < start + cnt \<longrightarrow> getb b j)"
  using bitmap_contains_spec [OF assms] by (auto simp: bitmap_all_def)

lemma bitmap_set_multiple_spec:
  assumes "bitmap_wf b" "start + cnt \<le> bit_cnt b"
  shows "\<exists>b'. bitmap_set_multiple b start cnt v = Some b'
    \<and> bitmap_upd b (\<lambda>j. if start \<le> j \<and> j < start + cnt then v else getb b j) b'"
  using set_multiple_loop_spec [OF assms, of 0 v] sz_in_bitmap [OF assms] assms
  by (simp add: bitmap_set_multiple_def)

lemma count_loop_spec:
  assumes "bitmap_wf b" "start + cnt \<le> bit_cnt b"
  shows "count_loop b start i cnt v n = Some (n + length (filter (\<lambda>j. getb b j = v) [start + i ..< start + cnt]))"
  using assms
proof (induction b start i cnt v n rule: count_loop.induct)
  case (1 b start i cnt v n)
  show ?case
  proof (cases "i < cnt")
    case True
    have s: "sz (start + i) = start + i"
      using 1(2,3) True by (intro sz_in_bitmap) auto
    have t: "bitmap_test b (start + i) = Some (getb b (start + i))"
      using bitmap_test_spec [OF 1(2)] True 1(3) by simp
    have "[start + i ..< start + cnt] = (start + i) # [start + (i + 1) ..< start + cnt]"
      using True by (simp add: upt_conv_Cons)
    then show ?thesis using 1(1) [OF True, of "getb b (start + i)"] 1(2,3) t s True
      by (simp add: count_loop.simps [of b start i])
  next
    case False
    then show ?thesis by (simp add: count_loop.simps [of b])
  qed
qed

lemma bitmap_count_spec:
  assumes "bitmap_wf b" "start + cnt \<le> bit_cnt b"
  shows "bitmap_count b start cnt v = Some (length (filter (\<lambda>j. getb b j = v) [start ..< start + cnt]))"
  using count_loop_spec [OF assms, of 0 v 0] sz_in_bitmap [OF assms] assms
  by (simp add: bitmap_count_def)

lemma first_group_step:
  assumes "\<not> bit_group b cnt v i" "first_group b cnt v (i + 1) r"
  shows "first_group b cnt v i r"
proof -
  have "i \<le> k \<longleftrightarrow> k = i \<or> i + 1 \<le> k" for k by auto
  then show ?thesis using assms by (auto simp: first_group_def)
qed

lemma no_group_step: "\<not> bit_group b cnt v i \<Longrightarrow> \<forall>k \<ge> i + 1. \<not> bit_group b cnt v k \<Longrightarrow> \<forall>k \<ge> i. \<not> bit_group b cnt v k"
  by (metis Suc_eq_plus1 le_antisym not_less_eq_eq)

lemma scan_loop_spec:
  assumes "bitmap_wf b" "cnt \<le> bit_cnt b" "lst = bit_cnt b - cnt"
  shows "\<exists>r. scan_loop b i lst cnt v = Some r
    \<and> (r = BITMAP_ERROR \<and> (\<forall>k \<ge> i. \<not> bit_group b cnt v k) \<or> first_group b cnt v i r)"
  using assms
proof (induction b i lst cnt v rule: scan_loop.induct)
  case (1 b i lst cnt v)
  show ?case
  proof (cases "i \<le> lst")
    case True
    then have c: "bitmap_contains b i cnt (\<not> v) = Some (\<not> bit_group b cnt v i)"
      using bitmap_contains_spec [OF 1(2), of i cnt "\<not> v"] 1(3,4) by (auto simp: bit_group_def)
    show ?thesis
    proof (cases "bit_group b cnt v i")
      case g: True
      then show ?thesis using True c by (auto simp: scan_loop.simps [of b i] first_group_def)
    next
      case g: False
      obtain r where r: "scan_loop b (i + 1) lst cnt v = Some r"
        "r = BITMAP_ERROR \<and> (\<forall>k \<ge> i + 1. \<not> bit_group b cnt v k) \<or> first_group b cnt v (i + 1) r"
        using 1(1) [OF True, of True] 1(2-4) c g by auto
      then have "r = BITMAP_ERROR \<and> (\<forall>k \<ge> i. \<not> bit_group b cnt v k) \<or> first_group b cnt v i r"
        using first_group_step [OF g] no_group_step [OF g] by blast
      then show ?thesis using True c g r(1) by (simp add: scan_loop.simps [of b i])
    qed
  next
    case False
    then have "\<forall>k \<ge> i. \<not> bit_group b cnt v k" using 1(3,4) by (auto simp: bit_group_def)
    then show ?thesis using False by (simp add: scan_loop.simps [of b i])
  qed
qed

lemma bitmap_scan_spec:
  assumes "bitmap_wf b" "start \<le> bit_cnt b"
  shows "\<exists>r. bitmap_scan b start cnt v = Some r
    \<and> (r = BITMAP_ERROR \<and> (\<forall>k \<ge> start. \<not> bit_group b cnt v k) \<or> first_group b cnt v start r)"
proof (cases "cnt \<le> bit_cnt b")
  case True
  then show ?thesis using scan_loop_spec [OF assms(1) True refl, of start v] assms(2)
    by (simp add: bitmap_scan_def)
next
  case False
  then show ?thesis using assms(2) by (simp add: bitmap_scan_def bit_group_def)
qed

lemma first_group_not_error: "bitmap_wf b \<Longrightarrow> first_group b cnt v start r \<Longrightarrow> r \<noteq> BITMAP_ERROR"
  by (auto simp: bitmap_wf_def first_group_def bit_group_def BITMAP_ERROR_def)

lemma bitmap_scan_and_flip_spec:
  assumes "bitmap_wf b" "start \<le> bit_cnt b"
  shows "\<exists>r b'. bitmap_scan_and_flip b start cnt v = Some (r, b')
    \<and> (r = BITMAP_ERROR \<and> b' = b \<and> (\<forall>k \<ge> start. \<not> bit_group b cnt v k)
       \<or> r \<noteq> BITMAP_ERROR \<and> first_group b cnt v start r
         \<and> bitmap_upd b (\<lambda>j. if r \<le> j \<and> j < r + cnt then \<not> v else getb b j) b')"
proof -
  obtain r where r: "bitmap_scan b start cnt v = Some r"
    "r = BITMAP_ERROR \<and> (\<forall>k \<ge> start. \<not> bit_group b cnt v k) \<or> first_group b cnt v start r"
    using bitmap_scan_spec [OF assms] by blast
  show ?thesis
  proof (cases "first_group b cnt v start r")
    case True
    then obtain b' where "bitmap_set_multiple b r cnt (\<not> v) = Some b'"
      "bitmap_upd b (\<lambda>j. if r \<le> j \<and> j < r + cnt then \<not> v else getb b j) b'"
      using bitmap_set_multiple_spec [OF assms(1), of r cnt "\<not> v"] by (auto simp: first_group_def bit_group_def)
    then show ?thesis using r(1) True first_group_not_error [OF assms(1) True]
      by (simp add: bitmap_scan_and_flip_def)
  next
    case False
    then show ?thesis using r by (simp add: bitmap_scan_and_flip_def)
  qed
qed

lemma set_multiple_loop_fails:
  assumes "bitmap_wf b" "bit_cnt b < start + cnt" "start + i \<le> bit_cnt b"
  shows "set_multiple_loop b start i cnt v = None"
  using assms
proof (induction b start i cnt v rule: set_multiple_loop.induct)
  case (1 b start i cnt v)
  have s: "sz (start + i) = start + i" using 1(2,4) by (rule sz_in_bitmap)
  have c: "i < cnt" using 1(3,4) by linarith
  show ?case
  proof (cases "start + i < bit_cnt b")
    case True
    obtain b1 where b1: "bitmap_set b (start + i) v = Some b1"
      "bitmap_upd b (\<lambda>j. if j = start + i then v else getb b j) b1"
      using bitmap_set_spec [OF 1(2) True, of v] by blast
    then have "set_multiple_loop b1 start (i + 1) cnt v = None"
      using 1(1) [OF c, of b1] s 1(3) True by (simp add: bitmap_upd_def)
    then show ?thesis using b1 s c by (simp add: set_multiple_loop.simps [of b])
  next
    case False
    then show ?thesis using s c by (simp add: set_multiple_loop.simps [of b] bitmap_set_def)
  qed
qed

text \<open>A range that leaves the bitmap is refused, also when \<open>start + cnt\<close> wraps around.\<close>

lemma bitmap_set_multiple_fails:
  assumes "bitmap_wf b" "bit_cnt b < start + cnt"
  shows "bitmap_set_multiple b start cnt v = None"
  using set_multiple_loop_fails [OF assms, of 0 v] by (auto simp: bitmap_set_multiple_def)

lemma bitmap_create_spec:
  assumes "n + 31 < 2 ^ 32" "length mem = elem_cnt n"
  shows "\<exists>b. bitmap_create True (Some mem) n = Some (Some b) \<and> bitmap_wf b \<and> bit_cnt b = n
    \<and> (\<forall>j < n. \<not> getb b j)"
proof -
  have "bitmap_wf \<lparr>bit_cnt = n, bits = mem\<rparr>"
    using assms by (simp add: bitmap_wf_def elem_cnt_eq)
  from bitmap_set_multiple_spec [OF this, of 0 n False] show ?thesis
    by (auto simp: bitmap_create_def bitmap_set_all_def bitmap_size_def bitmap_upd_def)
qed

section \<open>Properties\<close>

definition ex_bitmap :: bitmap where
  "ex_bitmap = \<lparr>bit_cnt = 8, bits = [5]\<rparr>"

lemma ex_bitmap_wf: "bitmap_wf ex_bitmap" "bit_cnt ex_bitmap = 8"
  by (simp_all add: bitmap_wf_def ex_bitmap_def)

lemmas bitmap_eval =
  bitmap_scan_and_flip_def bitmap_scan_def scan_loop.simps bitmap_contains_def contains_loop.simps
  bitmap_set_multiple_def set_multiple_loop.simps bitmap_set_def bitmap_mark_def bitmap_reset_def
  bitmap_count_def count_loop.simps bitmap_test_def rd_elem_def elem_idx_def bit_mask_def
  ELEM_BITS_def sz_def BITMAP_ERROR_def

text \<open>An empty group is found at \<open>start\<close>.\<close>

lemma bitmap_scan_and_flip_empty:
  assumes "bitmap_wf b" "start \<le> bit_cnt b"
  shows "bitmap_scan_and_flip b start 0 v = Some (start, b)"
proof -
  have "start < 2 ^ 32" "start \<noteq> BITMAP_ERROR" using assms by (auto simp: bitmap_wf_def BITMAP_ERROR_def)
  then have "bitmap_contains b start 0 w = Some False" "bitmap_set_multiple b start 0 w = Some b" for w
    using assms(2) by (simp_all add: bitmap_contains_def contains_loop.simps bitmap_set_multiple_def set_multiple_loop.simps sz_id)
  then show ?thesis using assms(2) \<open>start \<noteq> BITMAP_ERROR\<close>
    by (simp add: bitmap_scan_and_flip_def bitmap_scan_def scan_loop.simps)
qed

text \<open>C10. \<open>bitmap_scan_and_flip\<close> is first fit: it returns the lowest index at or after
  \<open>start\<close> at which \<open>cnt\<close> consecutive bits have value \<open>v\<close> and flips exactly those bits;
  if no group exists it returns \<open>BITMAP_ERROR\<close> and leaves the bitmap alone. No index it
  returns for a group is mistaken for the error value. For \<open>cnt = 0\<close> the group at \<open>start\<close> is empty:
  the result is \<open>start\<close>, where the comment in the source promises 0, and no bit changes.\<close>

theorem bitmap_scan_and_flip_first_fit:
  assumes "bitmap_wf b" "start \<le> bit_cnt b"
  shows "\<exists>r b'. bitmap_scan_and_flip b start cnt v = Some (r, b')
    \<and> (r = BITMAP_ERROR \<and> b' = b \<and> (\<forall>k \<ge> start. \<not> bit_group b cnt v k)
       \<or> r \<noteq> BITMAP_ERROR \<and> first_group b cnt v start r
         \<and> bitmap_upd b (\<lambda>j. if r \<le> j \<and> j < r + cnt then \<not> v else getb b j) b')
    \<and> (cnt = 0 \<longrightarrow> r = start \<and> b' = b)"
proof (cases "cnt = 0")
  case False
  then show ?thesis using bitmap_scan_and_flip_spec [OF assms, of cnt v] by blast
next
  case True
  have "bitmap_scan_and_flip b start 0 v = Some (start, b)" by (rule bitmap_scan_and_flip_empty [OF assms])
  then show ?thesis using bitmap_scan_and_flip_spec [OF assms, of 0 v] True by fastforce
qed

theorem bitmap_scan_and_flip_first_fit_witness:
  "(\<exists>r b'. bitmap_scan_and_flip ex_bitmap 0 2 False = Some (r, b') \<and> r = 3 \<and> bits b' = [29]
      \<and> first_group ex_bitmap 2 False 0 3)
    \<and> bitmap_scan_and_flip ex_bitmap 5 0 False = Some (5, ex_bitmap)"
proof -
  have "bitmap_scan_and_flip ex_bitmap 0 2 False = Some (3, \<lparr>bit_cnt = 8, bits = [29]\<rparr>)"
    by (simp add: ex_bitmap_def bitmap_eval)
  then show ?thesis
    using bitmap_scan_and_flip_first_fit [OF ex_bitmap_wf(1), of 0 2 False]
      bitmap_scan_and_flip_first_fit [OF ex_bitmap_wf(1), of 5 0 False]
    by (auto simp: BITMAP_ERROR_def ex_bitmap_wf(2))
qed

text \<open>C31. \<open>bitmap_set_multiple\<close> sets exactly the bits of its range when the range lies in the
  bitmap and is an assertion failure otherwise. This includes the ranges whose end
  \<open>start + cnt\<close> wraps around and passes the assertion of the source: then the assertion of
  \<open>bitmap_set\<close> stops the loop.\<close>

theorem bitmap_set_multiple_exact:
  assumes "bitmap_wf b"
  shows "case bitmap_set_multiple b start cnt v of
      None \<Rightarrow> bit_cnt b < start + cnt
    | Some b' \<Rightarrow> start + cnt \<le> bit_cnt b
        \<and> bitmap_upd b (\<lambda>j. if start \<le> j \<and> j < start + cnt then v else getb b j) b'"
proof (cases "start + cnt \<le> bit_cnt b")
  case True
  then obtain b' where b': "bitmap_set_multiple b start cnt v = Some b'"
    "bitmap_upd b (\<lambda>j. if start \<le> j \<and> j < start + cnt then v else getb b j) b'"
    using bitmap_set_multiple_spec [OF assms] by blast
  show ?thesis unfolding b'(1) option.case using True b'(2) by blast
next
  case False
  then show ?thesis using bitmap_set_multiple_fails [OF assms, of start cnt v] by simp
qed

theorem bitmap_set_multiple_exact_witness:
  "bitmap_set_multiple ex_bitmap 4 4294967295 True = None
    \<and> (\<exists>b'. bitmap_set_multiple ex_bitmap 4 2 True = Some b' \<and> getb b' 4 \<and> getb b' 5 \<and> \<not> getb b' 6)"
proof -
  have "\<not> getb ex_bitmap 6" by (simp add: getb_def ex_bitmap_def bit_numeral_rec)
  then show ?thesis
    using bitmap_set_multiple_exact [OF ex_bitmap_wf(1), of 4 2 True]
      bitmap_set_multiple_exact [OF ex_bitmap_wf(1), of 4 4294967295 True]
    by (auto simp: ex_bitmap_wf(2) bitmap_upd_def split: option.splits)
qed

text \<open>C32. \<open>bitmap_count\<close> counts the bits with the given value in its range, and
  \<open>bitmap_contains\<close>, \<open>bitmap_any\<close>, \<open>bitmap_all\<close> and \<open>bitmap_none\<close> decide the quantified statements they stand for,
  for every range in the bitmap.\<close>

theorem bitmap_queries_correct:
  assumes "bitmap_wf b" "start + cnt \<le> bit_cnt b"
  shows "bitmap_count b start cnt v = Some (card {j. start \<le> j \<and> j < start + cnt \<and> getb b j = v})
    \<and> bitmap_contains b start cnt v = Some (\<exists>j. start \<le> j \<and> j < start + cnt \<and> getb b j = v)
    \<and> bitmap_all b start cnt = Some (\<forall>j. start \<le> j \<and> j < start + cnt \<longrightarrow> getb b j)
    \<and> bitmap_none b start cnt = Some (\<forall>j. start \<le> j \<and> j < start + cnt \<longrightarrow> \<not> getb b j)
    \<and> bitmap_any b start cnt = Some (\<exists>j. start \<le> j \<and> j < start + cnt \<and> getb b j)"
proof -
  have "length (filter (\<lambda>j. getb b j = v) [start ..< start + cnt])
      = card (set (filter (\<lambda>j. getb b j = v) [start ..< start + cnt]))"
    by (rule distinct_card [symmetric]) simp
  moreover have "set (filter (\<lambda>j. getb b j = v) [start ..< start + cnt])
      = {j. start \<le> j \<and> j < start + cnt \<and> getb b j = v}" by auto
  ultimately show ?thesis
    using bitmap_count_spec [OF assms, of v] bitmap_all_spec [OF assms] bitmap_contains_spec [OF assms, of v]
      bitmap_contains_spec [OF assms, of True]
    by (auto simp: bitmap_none_def bitmap_any_def)
qed

theorem bitmap_queries_correct_witness:
  "bitmap_count ex_bitmap 0 8 True = Some (card {j. 0 \<le> j \<and> j < (0::nat) + 8 \<and> getb ex_bitmap j = True})
    \<and> bitmap_count ex_bitmap 0 8 True = Some 2"
proof
  show "bitmap_count ex_bitmap 0 8 True = Some (card {j. 0 \<le> j \<and> j < (0::nat) + 8 \<and> getb ex_bitmap j = True})"
    by (rule bitmap_queries_correct [THEN conjunct1]) (simp_all add: ex_bitmap_wf)
  show "bitmap_count ex_bitmap 0 8 True = Some 2" by (simp add: ex_bitmap_def bitmap_eval)
qed

end
