(* ===== verification/C_String.thy ===== *)
theory C_String
  imports Pintos_Prelude
begin

text \<open>
  The string library \<open>lib/string.c\<close> on a byte-addressed memory. A pointer is an address, the
  null pointer is address 0; every byte assignment of the source is one update of the memory,
  in the order of the source, so that overlapping blocks behave as in the code. A loop that
  runs to a null byte is \<open>partial_function (option)\<close>: in a memory without one it does not
  end. The abstraction is \<open>cstr m p s\<close>: the null-terminated string \<open>s\<close> lies at \<open>p\<close>.
\<close>

type_synonym mem = "nat \<Rightarrow> byte"

definition NULL :: nat where "NULL = 0"

section \<open>Blocks of bytes\<close>

primrec memcpy_loop :: "nat \<Rightarrow> nat \<Rightarrow> nat \<Rightarrow> mem \<Rightarrow> mem" where
  "memcpy_loop 0 dst src m = m"
| "memcpy_loop (Suc n) dst src m = memcpy_loop n (dst + 1) (src + 1) (m(dst := m src))"

definition memcpy :: "nat \<Rightarrow> nat \<Rightarrow> nat \<Rightarrow> mem \<Rightarrow> (nat \<times> mem) option" where
  "memcpy dst src n m = do {
     ASSERT (dst \<noteq> NULL \<or> n = 0);
     ASSERT (src \<noteq> NULL \<or> n = 0);
     Some (dst, memcpy_loop n dst src m) }"

text \<open>The two loops of \<open>memmove\<close>, with the final value of the local variable \<open>dst\<close>, which the
  function returns.\<close>

primrec memmove_up :: "nat \<Rightarrow> nat \<Rightarrow> nat \<Rightarrow> mem \<Rightarrow> nat \<times> mem" where
  "memmove_up 0 dst src m = (dst, m)"
| "memmove_up (Suc n) dst src m = memmove_up n (dst + 1) (src + 1) (m(dst := m src))"

primrec memmove_down :: "nat \<Rightarrow> nat \<Rightarrow> nat \<Rightarrow> mem \<Rightarrow> nat \<times> mem" where
  "memmove_down 0 dst src m = (dst, m)"
| "memmove_down (Suc n) dst src m = memmove_down n (dst - 1) (src - 1) (m(dst - 1 := m (src - 1)))"

definition memmove :: "nat \<Rightarrow> nat \<Rightarrow> nat \<Rightarrow> mem \<Rightarrow> (nat \<times> mem) option" where
  "memmove dst src n m = do {
     ASSERT (dst \<noteq> NULL \<or> n = 0);
     ASSERT (src \<noteq> NULL \<or> n = 0);
     Some (if dst < src then memmove_up n dst src m
           else memmove_down n (dst + n) (src + n) m) }"

primrec memcmp_loop :: "nat \<Rightarrow> nat \<Rightarrow> nat \<Rightarrow> mem \<Rightarrow> int" where
  "memcmp_loop 0 a b m = 0"
| "memcmp_loop (Suc n) a b m =
     (if m a \<noteq> m b then if m a > m b then 1 else -1 else memcmp_loop n (a + 1) (b + 1) m)"

definition memcmp :: "nat \<Rightarrow> nat \<Rightarrow> nat \<Rightarrow> mem \<Rightarrow> int option" where
  "memcmp a b n m = do {
     ASSERT (a \<noteq> NULL \<or> n = 0);
     ASSERT (b \<noteq> NULL \<or> n = 0);
     Some (memcmp_loop n a b m) }"

primrec memchr_loop :: "nat \<Rightarrow> nat \<Rightarrow> byte \<Rightarrow> mem \<Rightarrow> nat" where
  "memchr_loop 0 block ch m = NULL"
| "memchr_loop (Suc n) block ch m = (if m block = ch then block else memchr_loop n (block + 1) ch m)"

definition memchr :: "nat \<Rightarrow> int \<Rightarrow> nat \<Rightarrow> mem \<Rightarrow> nat option" where
  "memchr block ch n m = do {
     ASSERT (block \<noteq> NULL \<or> n = 0);
     Some (memchr_loop n block (word_of_int ch) m) }"

primrec memset_loop :: "nat \<Rightarrow> nat \<Rightarrow> byte \<Rightarrow> mem \<Rightarrow> mem" where
  "memset_loop 0 dst v m = m"
| "memset_loop (Suc n) dst v m = memset_loop n (dst + 1) v (m(dst := v))"

definition memset :: "nat \<Rightarrow> int \<Rightarrow> nat \<Rightarrow> mem \<Rightarrow> (nat \<times> mem) option" where
  "memset dst v n m = do {
     ASSERT (dst \<noteq> NULL \<or> n = 0);
     Some (dst, memset_loop n dst (word_of_int v) m) }"

section \<open>Strings\<close>

partial_function (option) strcmp_loop :: "nat \<Rightarrow> nat \<Rightarrow> mem \<Rightarrow> int option" where
  "strcmp_loop a b m =
     (if m a \<noteq> 0 \<and> m a = m b then strcmp_loop (a + 1) (b + 1) m
      else Some (if m a < m b then -1 else if m a > m b then 1 else 0))"

definition strcmp :: "nat \<Rightarrow> nat \<Rightarrow> mem \<Rightarrow> int option" where
  "strcmp a b m = do { ASSERT (a \<noteq> NULL); ASSERT (b \<noteq> NULL); strcmp_loop a b m }"

partial_function (option) strchr_loop :: "nat \<Rightarrow> byte \<Rightarrow> mem \<Rightarrow> nat option" where
  "strchr_loop string c m =
     (if m string = c then Some string
      else if m string = 0 then Some NULL
      else strchr_loop (string + 1) c m)"

definition strchr :: "nat \<Rightarrow> byte \<Rightarrow> mem \<Rightarrow> nat option" where
  "strchr string c m = do { ASSERT (string \<noteq> NULL); strchr_loop string c m }"

partial_function (option) strcspn_loop :: "nat \<Rightarrow> nat \<Rightarrow> nat \<Rightarrow> mem \<Rightarrow> nat option" where
  "strcspn_loop string stop len m =
     (if m (string + len) \<noteq> 0 then do {
        p \<leftarrow> strchr stop (m (string + len)) m;
        if p \<noteq> NULL then Some len else strcspn_loop string stop (len + 1) m }
      else Some len)"

definition strcspn :: "nat \<Rightarrow> nat \<Rightarrow> mem \<Rightarrow> nat option" where
  "strcspn string stop m = strcspn_loop string stop 0 m"

partial_function (option) strpbrk :: "nat \<Rightarrow> nat \<Rightarrow> mem \<Rightarrow> nat option" where
  "strpbrk string stop m =
     (if m string \<noteq> 0 then do {
        p \<leftarrow> strchr stop (m string) m;
        if p \<noteq> NULL then Some string else strpbrk (string + 1) stop m }
      else Some NULL)"

partial_function (option) strrchr_loop :: "nat \<Rightarrow> byte \<Rightarrow> nat \<Rightarrow> mem \<Rightarrow> nat option" where
  "strrchr_loop string c p m =
     (if m string \<noteq> 0 then strrchr_loop (string + 1) c (if m string = c then string else p) m
      else Some p)"

definition strrchr :: "nat \<Rightarrow> byte \<Rightarrow> mem \<Rightarrow> nat option" where
  "strrchr string c m = strrchr_loop string c NULL m"

partial_function (option) strspn_loop :: "nat \<Rightarrow> nat \<Rightarrow> nat \<Rightarrow> mem \<Rightarrow> nat option" where
  "strspn_loop string skip len m =
     (if m (string + len) \<noteq> 0 then do {
        p \<leftarrow> strchr skip (m (string + len)) m;
        if p = NULL then Some len else strspn_loop string skip (len + 1) m }
      else Some len)"

definition strspn :: "nat \<Rightarrow> nat \<Rightarrow> mem \<Rightarrow> nat option" where
  "strspn string skip m = strspn_loop string skip 0 m"

partial_function (option) strlen_loop :: "nat \<Rightarrow> nat \<Rightarrow> mem \<Rightarrow> nat option" where
  "strlen_loop string p m = (if m p \<noteq> 0 then strlen_loop string (p + 1) m else Some (p - string))"

definition strlen :: "nat \<Rightarrow> mem \<Rightarrow> nat option" where
  "strlen string m = do { ASSERT (string \<noteq> NULL); strlen_loop string string m }"

function strnlen_loop :: "nat \<Rightarrow> nat \<Rightarrow> nat \<Rightarrow> mem \<Rightarrow> nat" where
  "strnlen_loop string maxlen len m =
     (if m (string + len) \<noteq> 0 \<and> len < maxlen then strnlen_loop string maxlen (len + 1) m else len)"
  by pat_completeness auto
termination
  by (relation "measure (\<lambda>(string, maxlen, len, m). maxlen - len)") auto

definition strnlen :: "nat \<Rightarrow> nat \<Rightarrow> mem \<Rightarrow> nat" where
  "strnlen string maxlen m = strnlen_loop string maxlen 0 m"

function strstr_loop :: "nat \<Rightarrow> nat \<Rightarrow> nat \<Rightarrow> nat \<Rightarrow> nat \<Rightarrow> mem \<Rightarrow> nat option" where
  "strstr_loop haystack needle lst needle_len i m =
     (if i \<le> lst then do {
        c \<leftarrow> memcmp (haystack + i) needle needle_len m;
        if c = 0 then Some (haystack + i)
        else strstr_loop haystack needle lst needle_len (i + 1) m }
      else Some NULL)"
  by pat_completeness auto
termination
  by (relation "measure (\<lambda>(haystack, needle, lst, needle_len, i, m). Suc lst - i)") auto

definition strstr :: "nat \<Rightarrow> nat \<Rightarrow> mem \<Rightarrow> nat option" where
  "strstr haystack needle m = do {
     haystack_len \<leftarrow> strlen haystack m;
     needle_len \<leftarrow> strlen needle m;
     if haystack_len \<ge> needle_len
     then strstr_loop haystack needle (haystack_len - needle_len) needle_len 0 m
     else Some NULL }"

text \<open>The two loops of \<open>strtok_r\<close>: skipping delimiters (\<open>None\<close> inside: the end of the string was
  reached at the given address) and skipping the token.\<close>

partial_function (option) skip_delims :: "nat \<Rightarrow> nat \<Rightarrow> mem \<Rightarrow> (bool \<times> nat) option" where
  "skip_delims s delimiters m = do {
     p \<leftarrow> strchr delimiters (m s) m;
     if p \<noteq> NULL then
       if m s = 0 then Some (False, s) else skip_delims (s + 1) delimiters m
     else Some (True, s) }"

partial_function (option) skip_token :: "nat \<Rightarrow> nat \<Rightarrow> mem \<Rightarrow> nat option" where
  "skip_token s delimiters m = do {
     p \<leftarrow> strchr delimiters (m s) m;
     if p = NULL then skip_token (s + 1) delimiters m else Some s }"

text \<open>The result is the token, the new \<open>*save_ptr\<close> and the new memory.\<close>

definition strtok_r :: "nat \<Rightarrow> nat \<Rightarrow> nat \<Rightarrow> mem \<Rightarrow> (nat \<times> nat \<times> mem) option" where
  "strtok_r s delimiters save_ptr m = do {
     ASSERT (delimiters \<noteq> NULL);
     let s = (if s = NULL then save_ptr else s);
     ASSERT (s \<noteq> NULL);
     (found, s) \<leftarrow> skip_delims s delimiters m;
     if \<not> found then Some (NULL, s, m)
     else do {
       let token = s;
       s \<leftarrow> skip_token s delimiters m;
       if m s \<noteq> 0 then Some (token, s + 1, m(s := 0))
       else Some (token, s, m) } }"

definition strlcpy :: "nat \<Rightarrow> nat \<Rightarrow> nat \<Rightarrow> mem \<Rightarrow> (nat \<times> mem) option" where
  "strlcpy dst src n m = do {
     ASSERT (dst \<noteq> NULL);
     ASSERT (src \<noteq> NULL);
     src_len \<leftarrow> strlen src m;
     if n > 0 then do {
       let dst_len = (if src_len < n - 1 then src_len else n - 1);
       (_, m) \<leftarrow> memcpy dst src dst_len m;
       Some (src_len, m(dst + dst_len := 0)) }
     else Some (src_len, m) }"

definition strlcat :: "nat \<Rightarrow> nat \<Rightarrow> nat \<Rightarrow> mem \<Rightarrow> (nat \<times> mem) option" where
  "strlcat dst src n m = do {
     ASSERT (dst \<noteq> NULL);
     ASSERT (src \<noteq> NULL);
     src_len \<leftarrow> strlen src m;
     dst_len \<leftarrow> strlen dst m;
     if n > 0 \<and> dst_len < n then do {
       let copy_cnt = (if src_len < n - dst_len - 1 then src_len else n - dst_len - 1);
       (_, m) \<leftarrow> memcpy (dst + dst_len) src copy_cnt m;
       Some (src_len + dst_len, m(dst + dst_len + copy_cnt := 0)) }
     else Some (src_len + dst_len, m) }"

declare strnlen_loop.simps [simp del] strstr_loop.simps [simp del]

section \<open>Blocks\<close>

definition moved :: "nat \<Rightarrow> nat \<Rightarrow> nat \<Rightarrow> mem \<Rightarrow> mem" where
  "moved n dst src m a = (if dst \<le> a \<and> a < dst + n then m (src + (a - dst)) else m a)"

lemma moved_0 [simp]: "moved 0 dst src m = m"
  by (rule ext) (auto simp: moved_def)

lemma memcpy_loop_up: "fst (memmove_up n dst src m) = dst + n" "snd (memmove_up n dst src m) = memcpy_loop n dst src m"
  by (induction n arbitrary: dst src m) simp_all

lemma memcpy_loop_moved:
  "dst < src \<or> src + n \<le> dst \<Longrightarrow> memcpy_loop n dst src m = moved n dst src m"
proof (induction n arbitrary: dst src m)
  case (Suc n)
  have "memcpy_loop n (dst + 1) (src + 1) (m(dst := m src)) = moved n (dst + 1) (src + 1) (m(dst := m src))"
    by (rule Suc.IH) (use Suc.prems in auto)
  moreover have "moved n (dst + 1) (src + 1) (m(dst := m src)) a = moved (Suc n) dst src m a" for a
  proof (cases "dst + 1 \<le> a \<and> a < dst + 1 + n")
    case True
    then have "src + 1 + (a - (dst + 1)) = src + (a - dst)" "src + (a - dst) \<noteq> dst"
      using Suc.prems by auto
    with True show ?thesis by (simp add: moved_def)
  qed (auto simp: moved_def)
  then have "moved n (dst + 1) (src + 1) (m(dst := m src)) = moved (Suc n) dst src m" by (rule ext)
  ultimately show ?case by simp
qed simp

lemma memmove_down_moved:
  "src \<le> dst \<Longrightarrow> memmove_down n (dst + n) (src + n) m = (dst, moved n dst src m)"
proof (induction n arbitrary: m)
  case (Suc n)
  have "moved n dst src (m(dst + n := m (src + n))) a = moved (Suc n) dst src m a" for a
    using Suc.prems by (cases "a = dst + n") (auto simp: moved_def)
  then have "moved n dst src (m(dst + n := m (src + n))) = moved (Suc n) dst src m" by (rule ext)
  moreover have "memmove_down (Suc n) (dst + Suc n) (src + Suc n) m
      = memmove_down n (dst + n) (src + n) (m(dst + n := m (src + n)))" by simp
  ultimately show ?case by (simp only: Suc.IH [OF Suc.prems])
qed simp

lemma memcpy_spec:
  assumes "dst \<noteq> NULL" "src \<noteq> NULL" "dst + n \<le> src \<or> src + n \<le> dst"
  shows "memcpy dst src n m = Some (dst, moved n dst src m)"
  using assms memcpy_loop_moved [of dst src n m] by (cases "n = 0") (auto simp: memcpy_def)

lemma memset_loop_spec:
  "memset_loop n dst v m a = (if dst \<le> a \<and> a < dst + n then v else m a)"
  by (induction n arbitrary: dst m) auto

lemma memcmp_loop_eq: "memcmp_loop n a b m = 0 \<longleftrightarrow> (\<forall>i < n. m (a + i) = m (b + i))"
proof (induction n arbitrary: a b)
  case (Suc n)
  have "(\<forall>i < Suc n. m (a + i) = m (b + i)) \<longleftrightarrow> m a = m b \<and> (\<forall>i < n. m (a + 1 + i) = m (b + 1 + i))"
    by (simp add: All_less_Suc2)
  with Suc show ?case by simp
qed simp

section \<open>Null-terminated strings\<close>

definition cstr :: "mem \<Rightarrow> nat \<Rightarrow> bytes \<Rightarrow> bool" where
  "cstr m p s \<longleftrightarrow> p \<noteq> NULL \<and> 0 \<notin> set s \<and> (\<forall>i < length s. m (p + i) = s ! i) \<and> m (p + length s) = 0"

lemma cstr_Nil: "cstr m p [] \<longleftrightarrow> p \<noteq> NULL \<and> m p = 0"
  by (simp add: cstr_def)

lemma cstr_Cons: "cstr m p (c # s) \<longleftrightarrow> p \<noteq> NULL \<and> c \<noteq> 0 \<and> m p = c \<and> cstr m (p + 1) s"
  by (auto simp: cstr_def NULL_def All_less_Suc2)

lemmas cstr_simps = cstr_Nil cstr_Cons

lemma cstr_not_NULL: "cstr m p s \<Longrightarrow> p \<noteq> NULL"
  by (simp add: cstr_def)

lemma cstr_append: "cstr m p (s @ t) \<Longrightarrow> cstr m (p + length s) t"
proof (induction s arbitrary: p)
  case (Cons a s)
  then show ?case using Cons.IH [of "p + 1"] by (simp add: cstr_Cons)
qed simp

lemma cstr_appendI:
  "p \<noteq> NULL \<Longrightarrow> 0 \<notin> set s \<Longrightarrow> \<forall>i < length s. m (p + i) = s ! i \<Longrightarrow> cstr m (p + length s) t \<Longrightarrow> cstr m p (s @ t)"
proof (induction s arbitrary: p)
  case (Cons a s)
  from Cons.prems(3) have "m p = a" "\<forall>i < length s. m (p + 1 + i) = s ! i" by auto
  then show ?case using Cons.IH [of "p + 1"] Cons.prems by (auto simp: cstr_Cons NULL_def)
qed simp

lemma cstr_frame:
  assumes "cstr m p s" "\<And>a. p \<le> a \<Longrightarrow> a \<le> p + length s \<Longrightarrow> m' a = m a"
  shows "cstr m' p s"
  using assms by (simp add: cstr_def)

lemma cstr_unique: "cstr m p s \<Longrightarrow> cstr m p t \<Longrightarrow> s = t"
proof (induction s arbitrary: p t)
  case Nil
  then show ?case by (cases t) (auto simp: cstr_simps)
next
  case (Cons c s)
  then show ?case by (cases t) (auto simp: cstr_simps)
qed

lemma strlen_loop_spec: "cstr m p s \<Longrightarrow> strlen_loop q p m = Some (p + length s - q)"
  by (induction s arbitrary: p) (simp_all add: cstr_simps strlen_loop.simps)

lemma strlen_spec: "cstr m p s \<Longrightarrow> strlen p m = Some (length s)"
  by (simp add: strlen_def strlen_loop_spec cstr_not_NULL)

lemma strnlen_loop_spec:
  "cstr m p s \<Longrightarrow> len \<le> length s \<Longrightarrow> len \<le> maxlen \<Longrightarrow> strnlen_loop p maxlen len m = min (length s) maxlen"
proof (induction "length s - len" arbitrary: len)
  case 0
  then show ?case by (simp add: strnlen_loop.simps cstr_def)
next
  case (Suc k)
  then have "m (p + len) = s ! len" "s ! len \<noteq> 0" by (auto simp: cstr_def in_set_conv_nth)
  then show ?case using Suc by (subst strnlen_loop.simps) auto
qed

lemma strnlen_spec: "cstr m p s \<Longrightarrow> strnlen p maxlen m = min (length s) maxlen"
  by (simp add: strnlen_def strnlen_loop_spec)

lemma strchr_loop_spec:
  "cstr m p s \<Longrightarrow> strchr_loop p c m = Some (if c \<in> set s \<or> c = 0 then p + length (takeWhile (\<lambda>x. x \<noteq> c) s) else NULL)"
proof (induction s arbitrary: p)
  case (Cons a s)
  then have *: "m p = a" "a \<noteq> 0" "cstr m (p + 1) s" by (simp_all add: cstr_simps)
  from Cons.IH [OF *(3)] *(1,2) show ?case by (subst strchr_loop.simps) auto
qed (simp add: cstr_simps strchr_loop.simps)

lemma strchr_spec:
  "cstr m p s \<Longrightarrow> strchr p c m = Some (if c \<in> set s \<or> c = 0 then p + length (takeWhile (\<lambda>x. x \<noteq> c) s) else NULL)"
  by (simp add: strchr_def strchr_loop_spec cstr_not_NULL)

lemma strchr_member:
  assumes "cstr m p s"
  shows "\<exists>r. strchr p c m = Some r \<and> (r \<noteq> NULL \<longleftrightarrow> c \<in> set s \<or> c = 0)"
  using strchr_spec [OF assms, of c] cstr_not_NULL [OF assms] by (auto simp: NULL_def)

lemma strcspn_loop_spec:
  assumes "cstr m d ds"
  shows "cstr m (p + n) s \<Longrightarrow> strcspn_loop p d n m = Some (n + length (takeWhile (\<lambda>c. c \<notin> set ds) s))"
proof (induction s arbitrary: n)
  case (Cons a s)
  then have *: "m (p + n) = a" "a \<noteq> 0" "cstr m (p + (n + 1)) s" by (simp_all add: cstr_simps)
  obtain r where "strchr d a m = Some r" "r \<noteq> NULL \<longleftrightarrow> a \<in> set ds" using strchr_member [OF assms, of a] *(2) by auto
  with Cons.IH [OF *(3)] * show ?case by (subst strcspn_loop.simps) auto
qed (simp add: cstr_simps strcspn_loop.simps)

lemma strspn_loop_spec:
  assumes "cstr m d ds"
  shows "cstr m (p + n) s \<Longrightarrow> strspn_loop p d n m = Some (n + length (takeWhile (\<lambda>c. c \<in> set ds) s))"
proof (induction s arbitrary: n)
  case (Cons a s)
  then have *: "m (p + n) = a" "a \<noteq> 0" "cstr m (p + (n + 1)) s" by (simp_all add: cstr_simps)
  obtain r where "strchr d a m = Some r" "r \<noteq> NULL \<longleftrightarrow> a \<in> set ds" using strchr_member [OF assms, of a] *(2) by auto
  with Cons.IH [OF *(3)] * show ?case by (subst strspn_loop.simps) auto
qed (simp add: cstr_simps strspn_loop.simps)

lemma strpbrk_spec:
  assumes "cstr m d ds"
  shows "cstr m p s \<Longrightarrow> strpbrk p d m = Some (if set s \<inter> set ds = {} then NULL
    else p + length (takeWhile (\<lambda>c. c \<notin> set ds) s))"
proof (induction s arbitrary: p)
  case (Cons a s)
  then have *: "m p = a" "a \<noteq> 0" "cstr m (p + 1) s" by (simp_all add: cstr_simps)
  obtain r where "strchr d a m = Some r" "r \<noteq> NULL \<longleftrightarrow> a \<in> set ds" using strchr_member [OF assms, of a] *(2) by auto
  with Cons.IH [OF *(3)] * show ?case by (subst strpbrk.simps) auto
qed (simp add: cstr_simps strpbrk.simps)

lemma strrchr_loop_spec:
  "cstr m p s \<Longrightarrow> strrchr_loop p c q m =
     Some (if c \<in> set s then p + (length s - 1 - length (takeWhile (\<lambda>x. x \<noteq> c) (rev s))) else q)"
proof (induction s arbitrary: p q)
  case (Cons a s)
  then have *: "m p = a" "a \<noteq> 0" "cstr m (p + 1) s" by (simp_all add: cstr_simps)
  have l: "length (takeWhile (\<lambda>x. x \<noteq> c) (rev s)) < length s" if "c \<in> set s"
  proof -
    from that have "takeWhile (\<lambda>x. x \<noteq> c) (rev s) \<noteq> rev s"
      by (metis (mono_tags, lifting) set_rev takeWhile_eq_all_conv)
    then show ?thesis using length_takeWhile_le [of "\<lambda>x. x \<noteq> c" "rev s"]
      by (metis le_neq_implies_less length_rev takeWhile_eq_take take_all_iff order_refl)
  qed
  show ?case
  proof (cases "c \<in> set s")
    case True
    then have "takeWhile (\<lambda>x. x \<noteq> c) (rev s @ [a]) = takeWhile (\<lambda>x. x \<noteq> c) (rev s)"
      by (intro takeWhile_append1) auto
    with True l Cons.IH [OF *(3)] * show ?thesis by (subst strrchr_loop.simps) auto
  next
    case False
    then have "takeWhile (\<lambda>x. x \<noteq> c) (rev s) = rev s" by auto
    with False Cons.IH [OF *(3)] * show ?thesis
      by (subst strrchr_loop.simps) (auto simp: takeWhile_append)
  qed
qed (simp add: cstr_simps strrchr_loop.simps)

lemma strcmp_loop_spec:
  "cstr m p s \<Longrightarrow> cstr m q t \<Longrightarrow> strcmp_loop p q m =
     Some (if s = t then 0 else if (s, t) \<in> lexord {(x, y). x < y} then -1 else 1)"
proof (induction s arbitrary: p q t)
  case Nil
  then show ?case by (cases t) (auto simp: cstr_simps strcmp_loop.simps word_gt_0)
next
  case (Cons a s)
  then have *: "m p = a" "a \<noteq> 0" "cstr m (p + 1) s" by (simp_all add: cstr_simps)
  show ?case
  proof (cases t)
    case Nil
    then show ?thesis using * Cons.prems by (subst strcmp_loop.simps) (auto simp: cstr_simps word_gt_0)
  next
    case (Cons b t')
    then have **: "m q = b" "b \<noteq> 0" "cstr m (q + 1) t'" using \<open>cstr m q t\<close> by (simp_all add: cstr_simps)
    show ?thesis
      using Cons.IH [OF *(3) **(3)] * ** by (subst strcmp_loop.simps) (auto simp: Cons)
  qed
qed

lemma strcmp_spec:
  "cstr m p s \<Longrightarrow> cstr m q t \<Longrightarrow> strcmp p q m =
     Some (if s = t then 0 else if (s, t) \<in> lexord {(x, y). x < y} then -1 else 1)"
  by (simp add: strcmp_def strcmp_loop_spec cstr_not_NULL)

text \<open>\<open>take\<close> of a string that is copied: what \<open>strlcpy\<close> leaves at \<open>dst\<close>.\<close>

lemma moved_cstr:
  assumes "cstr m src s" "dst \<noteq> NULL" "k \<le> length s"
  shows "cstr ((moved k dst src m)(dst + k := 0)) dst (take k s)"
  using assms by (auto simp: cstr_def moved_def dest: in_set_takeD)

lemma strlcpy_spec:
  assumes "cstr m src s" "dst \<noteq> NULL" "dst + n \<le> src \<or> src + length s < dst" "0 < n"
  shows "\<exists>m'. strlcpy dst src n m = Some (length s, m') \<and> cstr m' dst (take (n - 1) s)
    \<and> (\<forall>a. a < dst \<or> dst + min (length s) (n - 1) < a \<longrightarrow> m' a = m a)"
proof -
  let ?k = "min (length s) (n - 1)"
  have "memcpy dst src ?k m = Some (dst, moved ?k dst src m)"
    using assms cstr_not_NULL [OF assms(1)] by (intro memcpy_spec) auto
  moreover have "(if length s < n - 1 then length s else n - 1) = ?k" by simp
  ultimately have "strlcpy dst src n m = Some (length s, (moved ?k dst src m)(dst + ?k := 0))"
    using assms cstr_not_NULL [OF assms(1)] strlen_spec [OF assms(1)]
    by (simp add: strlcpy_def Let_def)
  moreover have "cstr ((moved ?k dst src m)(dst + ?k := 0)) dst (take ?k s)"
    using assms by (intro moved_cstr) auto
  moreover have "take ?k s = take (n - 1) s" by (simp add: min_def)
  ultimately show ?thesis by (auto simp: moved_def)
qed

lemma strlcat_spec:
  assumes "cstr m src s" "cstr m dst t" "length t < n"
    and "dst + n \<le> src \<or> src + length s < dst"
  shows "\<exists>m'. strlcat dst src n m = Some (length s + length t, m') \<and> cstr m' dst (take (n - 1) (t @ s))"
proof -
  let ?k = "min (length s) (n - length t - 1)"
  let ?d = "dst + length t"
  let ?m = "(moved ?k ?d src m)(?d + ?k := 0)"
  have nn: "dst \<noteq> NULL" "src \<noteq> NULL" "?d \<noteq> NULL"
    using cstr_not_NULL [OF assms(1)] cstr_not_NULL [OF assms(2)] by (auto simp: NULL_def)
  have "memcpy ?d src ?k m = Some (?d, moved ?k ?d src m)"
    using assms nn by (intro memcpy_spec) auto
  moreover have "(if length s < n - length t - 1 then length s else n - length t - 1) = ?k" by simp
  ultimately have "strlcat dst src n m = Some (length s + length t, ?m)"
    using assms nn strlen_spec [OF assms(1)] strlen_spec [OF assms(2)] by (simp add: strlcat_def Let_def)
  moreover have "cstr ?m dst (t @ take ?k s)"
  proof -
    have *: "cstr ?m ?d (take ?k s)" using assms nn by (intro moved_cstr) auto
    have "?m (dst + i) = t ! i" if "i < length t" for i
      using assms(2) that by (simp add: moved_def cstr_def)
    then show ?thesis using assms(2) nn by (intro cstr_appendI *) (auto simp: cstr_def)
  qed
  moreover have "t @ take ?k s = take (n - 1) (t @ s)" using assms(3) by (auto simp: min_def)
  ultimately show ?thesis by auto
qed

section \<open>Tokenizing\<close>

text \<open>The reference: the maximal nonempty runs of characters that are not delimiters.\<close>

function tokens :: "byte set \<Rightarrow> bytes \<Rightarrow> bytes list" where
  "tokens D s =
     (let t = dropWhile (\<lambda>c. c \<in> D) s in
      if t = [] then [] else takeWhile (\<lambda>c. c \<notin> D) t # tokens D (dropWhile (\<lambda>c. c \<notin> D) t))"
  by pat_completeness auto
termination
proof (relation "measure (\<lambda>(D, s). length s)", goal_cases)
  case (2 D s t)
  then obtain c t' where t: "t = c # t'" "c \<notin> D"
    by (metis dropWhile_eq_Cons_conv list.exhaust)
  have "length t \<le> length s" using 2 by (simp add: length_dropWhile_le)
  with t length_dropWhile_le [of "\<lambda>c. c \<notin> D" t'] show ?case by simp
qed simp

declare tokens.simps [simp del]

text \<open>The loop over all tokens that the comment of \<open>strtok_r\<close> shows: it returns the addresses of
  the tokens.\<close>

partial_function (option) strtok_all :: "nat \<Rightarrow> nat \<Rightarrow> nat \<Rightarrow> mem \<Rightarrow> (nat list \<times> mem) option" where
  "strtok_all s delimiters save_ptr m = do {
     (token, save_ptr, m) \<leftarrow> strtok_r s delimiters save_ptr m;
     if token \<noteq> NULL then do {
       (ts, m) \<leftarrow> strtok_all NULL delimiters save_ptr m;
       Some (token # ts, m) }
     else Some ([], m) }"

lemma skip_delims_spec:
  assumes "cstr m d ds"
  shows "cstr m p s \<Longrightarrow> skip_delims p d m =
    Some (dropWhile (\<lambda>c. c \<in> set ds) s \<noteq> [], p + length (takeWhile (\<lambda>c. c \<in> set ds) s))"
proof (induction s arbitrary: p)
  case Nil
  then show ?case using strchr_member [OF assms, of 0] by (subst skip_delims.simps) (auto simp: cstr_simps)
next
  case (Cons a s)
  then have *: "m p = a" "a \<noteq> 0" "cstr m (p + 1) s" by (simp_all add: cstr_simps)
  obtain r where "strchr d a m = Some r" "r \<noteq> NULL \<longleftrightarrow> a \<in> set ds" using strchr_member [OF assms, of a] *(2) by auto
  with Cons.IH [OF *(3)] * show ?case by (subst skip_delims.simps) auto
qed

lemma skip_token_spec:
  assumes "cstr m d ds"
  shows "cstr m p s \<Longrightarrow> skip_token p d m = Some (p + length (takeWhile (\<lambda>c. c \<notin> set ds) s))"
proof (induction s arbitrary: p)
  case Nil
  then show ?case using strchr_member [OF assms, of 0] by (subst skip_token.simps) (auto simp: cstr_simps)
next
  case (Cons a s)
  then have *: "m p = a" "a \<noteq> 0" "cstr m (p + 1) s" by (simp_all add: cstr_simps)
  obtain r where "strchr d a m = Some r" "r \<noteq> NULL \<longleftrightarrow> a \<in> set ds" using strchr_member [OF assms, of a] *(2) by auto
  with Cons.IH [OF *(3)] * show ?case by (subst skip_token.simps) auto
qed

text \<open>Cutting a string in two by a null byte.\<close>

lemma cstr_cut:
  assumes "cstr m p (s @ c # t)"
  shows "cstr (m(p + length s := 0)) p s" "cstr (m(p + length s := 0)) (p + length s + 1) t"
proof -
  from cstr_append [OF assms] have "cstr m (p + length s + 1) t" by (simp add: cstr_Cons)
  then show "cstr (m(p + length s := 0)) (p + length s + 1) t" by (rule cstr_frame) simp
  show "cstr (m(p + length s := 0)) p s" using assms by (auto simp: cstr_def nth_append)
qed

lemma strtok_r_none:
  assumes "cstr m d ds" "cstr m p s" "tokens (set ds) s = []" "q = p \<or> q = NULL"
  shows "strtok_r q d p m = Some (NULL, p + length s, m)"
proof -
  have "dropWhile (\<lambda>c. c \<in> set ds) s = []"
    using assms(3) by (subst (asm) tokens.simps) (auto simp: Let_def split: if_splits)
  moreover from this have "takeWhile (\<lambda>c. c \<in> set ds) s = s"
    by (metis append_Nil2 takeWhile_dropWhile_id)
  ultimately have "skip_delims p d m = Some (False, p + length s)"
    using skip_delims_spec [OF assms(1,2)] by (simp only:) simp
  then show ?thesis
    using assms cstr_not_NULL [OF assms(1)] cstr_not_NULL [OF assms(2)]
    by (auto simp: strtok_r_def Let_def)
qed

lemma strtok_r_some:
  assumes "cstr m d ds" "cstr m p s" "tokens (set ds) s = tok # toks" "q = p \<or> q = NULL"
  shows "\<exists>a sv m'. strtok_r q d p m = Some (a, sv, m') \<and> a \<noteq> NULL \<and> p \<le> a \<and> a + length tok \<le> sv
    \<and> sv \<le> p + length s \<and> cstr m' a tok
    \<and> (\<forall>b. b \<notin> {p ..< p + length s} \<or> a + length tok < b \<or> b < a + length tok \<longrightarrow> m' b = m b)
    \<and> (sv = a + length tok \<and> toks = [] \<and> cstr m' sv []
       \<or> a + length tok < sv \<and> (\<exists>s'. cstr m' sv s' \<and> sv + length s' = p + length s \<and> tokens (set ds) s' = toks))"
proof -
  let ?D = "\<lambda>c. c \<in> set ds" and ?N = "\<lambda>c. c \<notin> set ds"
  define t where "t = dropWhile ?D s"
  define v where "v = dropWhile ?N t"
  define a where "a = p + length (takeWhile ?D s)"
  have ne: "t \<noteq> []" and tok: "tok = takeWhile ?N t" and toks: "toks = tokens (set ds) v"
    using assms(3) unfolding t_def v_def
    by (subst (asm) tokens.simps; auto simp: Let_def split: if_splits)+
  have nn: "p \<noteq> NULL" "d \<noteq> NULL" "a \<noteq> NULL" "p \<le> a"
    using cstr_not_NULL [OF assms(1)] cstr_not_NULL [OF assms(2)] by (auto simp: NULL_def a_def)
  have s: "takeWhile ?D s @ t = s" "tok @ v = t" by (simp_all add: t_def v_def tok)
  then have ct: "cstr m a t" using cstr_append [of m p "takeWhile ?D s" t] assms(2) by (simp add: a_def)
  have "length s = length (takeWhile ?D s @ tok @ v)" by (simp only: s)
  then have len: "p + length s = a + length tok + length v" by (simp add: a_def)
  have st: "skip_token a d m = Some (a + length tok)"
    using skip_token_spec [OF assms(1) ct] by (simp add: tok)
  have exec: "strtok_r q d p m = (if m (a + length tok) \<noteq> 0
      then Some (a, a + length tok + 1, m(a + length tok := 0)) else Some (a, a + length tok, m))"
    using assms(4) nn ne skip_delims_spec [OF assms(1,2), folded t_def a_def] st
    by (auto simp: strtok_r_def Let_def)
  show ?thesis
  proof (cases v)
    case Nil
    then have "cstr m a tok" "m (a + length tok) = 0" using ct s(2) by (auto simp: cstr_def)
    moreover have "toks = []" using toks Nil by (simp add: tokens.simps)
    ultimately show ?thesis using exec nn len Nil
      by (intro exI [of _ a] exI [of _ "a + length tok"] exI [of _ m]) (simp add: cstr_simps NULL_def)
  next
    case (Cons c w)
    have ct': "cstr m a (tok @ c # w)" using ct s(2) Cons by simp
    then have "m (a + length tok) = c" "c \<noteq> 0" by (auto simp: cstr_def nth_append)
    moreover have "tokens (set ds) w = toks"
    proof -
      have "c \<in> set ds" using Cons unfolding v_def by (auto simp: dropWhile_eq_Cons_conv)
      then have "tokens (set ds) (c # w) = tokens (set ds) w" by (subst (1 2) tokens.simps) simp
      with toks Cons show ?thesis by simp
    qed
    ultimately show ?thesis using exec nn len Cons cstr_cut [OF ct']
      by (intro exI [of _ a] exI [of _ "a + length tok + 1"] exI [of _ "m(a + length tok := 0)"])
        (auto intro!: exI [of _ w])
  qed
qed

lemma strtok_all_spec:
  assumes "cstr m d ds" "cstr m p s" "d + length ds < p \<or> p + length s < d" "q = p \<or> q = NULL"
  shows "\<exists>as m'. strtok_all q d p m = Some (as, m') \<and> list_all2 (cstr m') as (tokens (set ds) s)
    \<and> (\<forall>b. b \<notin> {p ..< p + length s} \<longrightarrow> m' b = m b)"
  using assms
proof (induction "tokens (set ds) s" arbitrary: m p s q)
  case Nil
  then show ?case using strtok_r_none [OF Nil(2,3)] by (subst strtok_all.simps) auto
next
  case (Cons tok toks)
  obtain a sv m1 where r: "strtok_r q d p m = Some (a, sv, m1)" "a \<noteq> NULL" "p \<le> a" "a + length tok \<le> sv"
    "sv \<le> p + length s" "cstr m1 a tok"
    "\<forall>b. b \<notin> {p ..< p + length s} \<or> a + length tok < b \<or> b < a + length tok \<longrightarrow> m1 b = m b"
    "sv = a + length tok \<and> toks = [] \<and> cstr m1 sv []
       \<or> a + length tok < sv \<and> (\<exists>s'. cstr m1 sv s' \<and> sv + length s' = p + length s \<and> tokens (set ds) s' = toks)"
    using strtok_r_some [OF Cons.prems(1,2) Cons.hyps(2) [symmetric] Cons.prems(4)] by blast
  have d1: "cstr m1 d ds" by (rule cstr_frame [OF Cons.prems(1)]) (use r(7) Cons.prems(3) in auto)
  obtain s' where s': "cstr m1 sv s'" "sv + length s' \<le> p + length s" "tokens (set ds) s' = toks"
    "s' \<noteq> [] \<longrightarrow> a + length tok < sv"
    using r(8) r(5) by (auto simp: tokens.simps)
  obtain as m2 where m2: "strtok_all NULL d sv m1 = Some (as, m2)" "list_all2 (cstr m2) as toks"
    "\<forall>b. b \<notin> {sv ..< sv + length s'} \<longrightarrow> m2 b = m1 b"
    using Cons.hyps(1) [OF s'(3) [symmetric] d1 s'(1), of NULL] Cons.prems(3) s' r(3,4) by auto
  have "cstr m2 a tok"
    by (rule cstr_frame [OF r(6)]) (use m2(3) r(4) s'(4) in \<open>cases s'; auto\<close>)
  moreover have "m2 b = m b" if "b \<notin> {p ..< p + length s}" for b
    using that m2(3) r(3,4,7) s'(2) by auto
  ultimately show ?case using r(1,2) m2(1,2) by (subst strtok_all.simps) (auto simp: Cons.hyps(2) [symmetric])
qed

section \<open>Searching for a substring\<close>

lemma cstr_block:
  assumes "cstr m p s" "i + k \<le> length s"
  shows "(\<forall>j < k. m (p + i + j) = t ! j) \<and> length t = k \<longleftrightarrow> t = take k (drop i s)"
  using assms by (auto simp: cstr_def list_eq_iff_nth_eq add.assoc)

lemma strstr_loop_spec:
  assumes "cstr m h s" "cstr m q t" "length t \<le> length s" "lst = length s - length t"
  shows "strstr_loop h q lst (length t) i m =
    Some (if \<exists>k \<ge> i. k \<le> lst \<and> take (length t) (drop k s) = t
          then h + (LEAST k. i \<le> k \<and> k \<le> lst \<and> take (length t) (drop k s) = t) else NULL)"
proof (induction "Suc lst - i" arbitrary: i)
  case 0
  then show ?case by (subst strstr_loop.simps) auto
next
  case (Suc d)
  then have i: "i \<le> lst" by linarith
  have nn: "h + i \<noteq> NULL" "q \<noteq> NULL"
    using cstr_not_NULL [OF assms(1)] cstr_not_NULL [OF assms(2)] by (auto simp: NULL_def)
  let ?P = "\<lambda>k. take (length t) (drop k s) = t"
  have "memcmp_loop (length t) (h + i) q m = 0 \<longleftrightarrow> ?P i"
    using assms(2,3,4) i cstr_block [OF assms(1), of i "length t" t]
    by (auto simp: memcmp_loop_eq cstr_def)
  then have c: "memcmp (h + i) q (length t) m = Some (memcmp_loop (length t) (h + i) q m)"
    "memcmp_loop (length t) (h + i) q m = 0 \<longleftrightarrow> ?P i" using nn by (simp_all add: memcmp_def)
  show ?case
  proof (cases "?P i")
    case True
    then have "(LEAST k. i \<le> k \<and> k \<le> lst \<and> ?P k) = i" using i by (intro Least_equality) auto
    with True c i show ?thesis by (subst strstr_loop.simps) auto
  next
    case False
    then have "i \<le> k \<and> k \<le> lst \<and> ?P k \<longleftrightarrow> i + 1 \<le> k \<and> k \<le> lst \<and> ?P k" for k
      by (cases "k = i") auto
    moreover have "d = Suc lst - (i + 1)" using Suc.hyps(2) by linarith
    ultimately show ?thesis using Suc.hyps(1) [of "i + 1"] c False i
      by (subst strstr_loop.simps) auto
  qed
qed

section \<open>Properties\<close>

text \<open>The string ``ls  -l'' at address 100 and the delimiters `` '' at address 10.\<close>

definition ex_str :: bytes where
  "ex_str = [108, 115, 32, 32, 45, 108]"

definition ex_mem :: mem where
  "ex_mem a = (if a = 10 then 32 else if 100 \<le> a \<and> a < 106 then ex_str ! (a - 100) else 0)"

lemma ex_cstr: "cstr ex_mem 10 [32]" "cstr ex_mem 100 ex_str"
  by (auto simp: cstr_def ex_mem_def ex_str_def NULL_def)

lemma ex_tokens: "tokens {32} ex_str = [[108, 115], [45, 108]]"
  by (simp add: ex_str_def tokens.simps)

text \<open>C19. Tokenizing with \<open>strtok_r\<close>: calling it until it returns a null pointer ends, the
  pointers returned are those of the maximal runs of characters that are not delimiters, in
  order, every one still null-terminated in the final memory, and no byte outside the string
  is written.\<close>

theorem strtok_r_tokenizes:
  assumes "cstr m d ds" "cstr m p s" "d + length ds < p \<or> p + length s < d"
  shows "\<exists>as m'. strtok_all p d q m = Some (as, m') \<and> list_all2 (cstr m') as (tokens (set ds) s)
    \<and> (\<forall>b. b \<notin> {p ..< p + length s} \<longrightarrow> m' b = m b)"
proof -
  have "strtok_all p d q m = strtok_all p d p m"
    using cstr_not_NULL [OF assms(2)] by (subst (1 2) strtok_all.simps) (simp add: strtok_r_def)
  then show ?thesis using strtok_all_spec [OF assms, of p] by simp
qed

theorem strtok_r_tokenizes_witness:
  "\<exists>as m'. strtok_all 100 10 0 ex_mem = Some (as, m')
    \<and> list_all2 (cstr m') as [[108, 115], [45, 108]] \<and> m' 10 = 32"
  using strtok_r_tokenizes [OF ex_cstr, of 0] by (auto simp: ex_tokens [unfolded ex_str_def] ex_str_def ex_mem_def)

text \<open>C21. \<open>memmove\<close> copies a block as if through a temporary buffer, whatever the overlap. Its
  result is the destination only when the copy runs downwards: for \<open>dst < src\<close> it returns the
  end of the destination block, not the destination its comment promises.\<close>

theorem memmove_correct:
  assumes "dst \<noteq> NULL" "src \<noteq> NULL"
  shows "memmove dst src n m = Some (if dst < src then dst + n else dst,
    (\<lambda>a. if dst \<le> a \<and> a < dst + n then m (src + (a - dst)) else m a))"
proof (cases "dst < src")
  case True
  then have "memmove_up n dst src m = (dst + n, moved n dst src m)"
    using memcpy_loop_up [of n dst src m] memcpy_loop_moved [of dst src n m] by (simp add: prod_eq_iff)
  with True assms show ?thesis by (simp add: memmove_def moved_def fun_eq_iff)
next
  case False
  then show ?thesis using memmove_down_moved [of src dst n m] assms
    by (simp add: memmove_def moved_def fun_eq_iff)
qed

theorem memmove_correct_witness:
  "\<exists>m'. memmove 100 102 3 ex_mem = Some (103, m') \<and> map m' [100 ..< 103] = [32, 32, 45]
    \<and> (\<exists>m''. memmove 101 100 2 ex_mem = Some (101, m'') \<and> map m'' [101 ..< 103] = [108, 115])"
  using memmove_correct [of 100 102 3 ex_mem] memmove_correct [of 101 100 2 ex_mem]
  by (simp add: NULL_def ex_mem_def ex_str_def upt_rec)

text \<open>C23. \<open>strlcpy\<close> from a string that does not overlap the \<open>n\<close> bytes of the destination changes no
  byte outside them, so none at all for \<open>n = 0\<close>. For \<open>n > 0\<close> it leaves there the longest prefix of the source that fits,
  null-terminated. It returns the length of the whole source, so that truncation can be detected.\<close>

theorem strlcpy_bounded:
  assumes "cstr m src s" "dst \<noteq> NULL" "dst + n \<le> src \<or> src + length s < dst"
  shows "\<exists>m'. strlcpy dst src n m = Some (length s, m') \<and> (0 < n \<longrightarrow> cstr m' dst (take (n - 1) s))
    \<and> (\<forall>a. a < dst \<or> dst + n \<le> a \<longrightarrow> m' a = m a)"
proof (cases "0 < n")
  case False
  then have "strlcpy dst src n m = Some (length s, m)"
    using assms(2) cstr_not_NULL [OF assms(1)] strlen_spec [OF assms(1)] by (simp add: strlcpy_def)
  then show ?thesis using False by simp
next
  case True
  obtain m' where "strlcpy dst src n m = Some (length s, m')" "cstr m' dst (take (n - 1) s)"
    "\<forall>a. a < dst \<or> dst + min (length s) (n - 1) < a \<longrightarrow> m' a = m a"
    using strlcpy_spec [OF assms True] by blast
  moreover from this(3) True have "\<forall>a. a < dst \<or> dst + n \<le> a \<longrightarrow> m' a = m a" by auto
  ultimately show ?thesis by blast
qed

theorem strlcpy_bounded_witness:
  "(\<exists>m'. strlcpy 200 100 3 ex_mem = Some (6, m') \<and> cstr m' 200 [108, 115] \<and> m' 203 = ex_mem 203)
    \<and> (\<exists>m'. strlcpy 200 100 0 ex_mem = Some (6, m') \<and> m' 200 = ex_mem 200)"
  using strlcpy_bounded [OF ex_cstr(2), of 200 3] strlcpy_bounded [OF ex_cstr(2), of 200 0] by (auto simp: NULL_def ex_str_def)

end
