(* ===== verification/Arith64.thy ===== *)
theory Arith64
  imports Pintos_Prelude
begin

text \<open>
  The 64-bit division routines of \<open>lib/arithmetic.c\<close>, which the compiler calls for the kernel's
  64-bit divisions. Values keep their widths: \<open>uint64_t\<close> and \<open>int64_t\<close> are 64-bit words,
  \<open>uint32_t\<close> is a 32-bit word, conversions are written out. The result \<open>None\<close> is the
  processor's divide error.
\<close>

type_synonym u64 = "64 word"

text \<open>The x86 instruction \<open>divl\<close> divides the 64-bit number \<open>n1:n0\<close> and traps if the divisor
  is zero or the quotient does not fit 32 bits.\<close>

definition divl :: "u64 \<Rightarrow> u32 \<Rightarrow> u32 option" where
  "divl n d = (let n1 = ucast (drop_bit 32 n) :: u32; n0 = ucast n :: u32;
       q = (unat n1 * 2 ^ 32 + unat n0) div unat d in
     if d = 0 \<or> q \<ge> 2 ^ 32 then None else Some (of_nat q))"

text \<open>One of the conditional shifts of \<open>nlz\<close>, on the pair of \<open>n\<close> and \<open>x\<close>.\<close>

definition nlz_shift :: "u32 \<Rightarrow> nat \<Rightarrow> nat \<times> u32 \<Rightarrow> nat \<times> u32" where
  "nlz_shift bound k r = (if snd r \<le> bound then (fst r + k, push_bit k (snd r)) else r)"

definition nlz :: "u32 \<Rightarrow> nat" where
  "nlz x =
     (let r = (0, x);
          r = nlz_shift 0x0000FFFF 16 r;
          r = nlz_shift 0x00FFFFFF 8 r;
          r = nlz_shift 0x0FFFFFFF 4 r;
          r = nlz_shift 0x3FFFFFFF 2 r
      in if snd r \<le> 0x7FFFFFFF then fst r + 1 else fst r)"

definition udiv64 :: "u64 \<Rightarrow> u64 \<Rightarrow> u64 option" where
  "udiv64 n d =
     (if drop_bit 32 d = 0 then
        let b = push_bit 32 1 :: u64;
            n1 = ucast (drop_bit 32 n) :: u32;
            n0 = ucast n :: u32;
            d0 = ucast d :: u32
        in if d0 = 0 then None
           else do {
             q \<leftarrow> divl (b * ucast (n1 mod d0) + ucast n0) d0;
             Some (ucast q + b * ucast (n1 div d0)) }
      else if n < d then Some 0
      else
        let d1 = ucast (drop_bit 32 d) :: u32;
            s = nlz d1
        in do {
          q0 \<leftarrow> divl (drop_bit 1 n) (ucast (drop_bit 32 (push_bit s d)));
          let q = ucast (drop_bit (31 - s) q0);
          Some (if n - (q - 1) * d < d then q - 1 else q) })"

definition umod64 :: "u64 \<Rightarrow> u64 \<Rightarrow> u32 option" where
  "umod64 n d = do { q \<leftarrow> udiv64 n d; Some (ucast (n - d * q)) }"

definition sdiv64 :: "u64 \<Rightarrow> u64 \<Rightarrow> u64 option" where
  "sdiv64 n d =
     (let n_abs = (if 0 \<le> sint n then n else - n);
          d_abs = (if 0 \<le> sint d then d else - d)
      in do {
        q_abs \<leftarrow> udiv64 n_abs d_abs;
        Some (if (sint n < 0) = (sint d < 0) then q_abs else - q_abs) })"

definition smod64 :: "u64 \<Rightarrow> u64 \<Rightarrow> u32 option" where
  "smod64 n d = do { q \<leftarrow> sdiv64 n d; Some (ucast (n - d * q)) }"

definition divdi3 :: "u64 \<Rightarrow> u64 \<Rightarrow> u64 option" where
  "divdi3 n d = sdiv64 n d"

definition moddi3 :: "u64 \<Rightarrow> u64 \<Rightarrow> u64 option" where
  "moddi3 n d = map_option scast (smod64 n d)"

definition udivdi3 :: "u64 \<Rightarrow> u64 \<Rightarrow> u64 option" where
  "udivdi3 n d = udiv64 n d"

definition umoddi3 :: "u64 \<Rightarrow> u64 \<Rightarrow> u64 option" where
  "umoddi3 n d = map_option ucast (umod64 n d)"

section \<open>The parts of a 64-bit number\<close>

lemma unat64_lt: "unat (n :: u64) < 2 ^ 64"
  using unsigned_less [of n, where 'a = nat] by simp

lemma unat32_lt: "unat (n :: u32) < 2 ^ 32"
  using unsigned_less [of n, where 'a = nat] by simp

lemma unat_drop: "unat (drop_bit k w) = unat w div 2 ^ k" for w :: "'a::len word"
  by (simp only: unsigned_drop_bit_eq drop_bit_eq_div [where 'a = nat] take_bit_nat_eq_self [OF unsigned_less])

lemma unat_push: "unat (push_bit k w) = unat w * 2 ^ k mod 2 ^ LENGTH('a)" for w :: "'a::len word"
  by (simp only: unsigned_push_bit_eq take_bit_eq_mod [where 'a = nat] push_bit_eq_mult [where 'a = nat])

lemma unat_cast: "unat (ucast w :: 'b::len word) = unat w mod 2 ^ LENGTH('b)" for w :: "'a::len word"
  by (simp only: unsigned_ucast_eq take_bit_eq_mod [where 'a = nat])

lemma unat_hi: "unat (ucast (drop_bit 32 n) :: u32) = unat (n :: u64) div 2 ^ 32"
proof -
  have "unat n div 2 ^ 32 < 2 ^ 32" using unat64_lt [of n] by (simp add: less_mult_imp_div_less)
  then show ?thesis
    by (simp add: unat_cast unat_drop)
qed

lemma unat_lo: "unat (ucast n :: u32) = unat (n :: u64) mod 2 ^ 32"
  by (simp add: unat_cast)

lemma divl_spec:
  "divl n d = (if d = 0 \<or> unat n div unat d \<ge> 2 ^ 32 then None else Some (of_nat (unat n div unat d)))"
proof -
  have "unat (ucast (drop_bit 32 n) :: u32) * 2 ^ 32 + unat (ucast n :: u32) = unat n"
    by (subst unat_hi, subst unat_lo) (rule div_mult_mod_eq)
  then show ?thesis by (simp only: divl_def Let_def)
qed

lemma unat_ucast_up: "unat (ucast x :: u64) = unat (x :: u32)"
  using unat32_lt [of x] by (simp add: unat_cast)

lemma drop32_zero: "drop_bit 32 d = 0 \<longleftrightarrow> unat (d :: u64) < 2 ^ 32"
  by (simp add: word_unat_eq_iff unat_drop div_eq_0_iff)

section \<open>Leading zeros\<close>

lemma nlz_step:
  fixes x :: u32
  assumes "unat x < 2 ^ (32 - k)" "k \<le> 32"
  shows "unat (push_bit k x) = unat x * 2 ^ k"
proof -
  have "unat x * 2 ^ k < 2 ^ (32 - k) * 2 ^ k" using assms(1) by simp
  also have "\<dots> = 2 ^ 32" using assms(2) by (simp add: power_add [symmetric])
  finally show ?thesis by (simp add: unat_push)
qed

definition nlz_inv :: "u32 \<Rightarrow> nat \<Rightarrow> nat \<times> u32 \<Rightarrow> bool" where
  "nlz_inv x0 l r \<longleftrightarrow> unat (snd r) = unat x0 * 2 ^ fst r \<and> 2 ^ (32 - l) \<le> unat (snd r)"

lemma nlz_inv_step:
  assumes "nlz_inv x0 (2 * k) r" "k \<le> 16" "unat b = 2 ^ (32 - k) - 1"
  shows "nlz_inv x0 k (nlz_shift b k r)"
proof (cases "snd r \<le> b")
  case True
  then have "unat (snd r) \<le> unat b" by (simp add: word_le_nat_alt)
  moreover have "0 < (2 :: nat) ^ (32 - k)" by simp
  ultimately have x: "unat (snd r) < 2 ^ (32 - k)" using assms(3) by linarith
  have "(2::nat) ^ (32 - k) = 2 ^ (32 - 2 * k) * 2 ^ k" using assms(2) by (simp add: power_add [symmetric])
  then show ?thesis using True assms(1) nlz_step [OF x] assms(2)
    by (simp add: nlz_inv_def nlz_shift_def power_add)
next
  case False
  then have "unat b < unat (snd r)" by (simp add: word_le_nat_alt)
  then show ?thesis using False assms by (auto simp: nlz_inv_def nlz_shift_def)
qed

lemma nlz_spec:
  assumes "x \<noteq> 0"
  shows "2 ^ 31 \<le> unat x * 2 ^ nlz x" "unat x * 2 ^ nlz x < 2 ^ 32"
proof -
  have "nlz_inv x (2 * 16) (0, x)" using assms by (simp add: nlz_inv_def Suc_le_eq unat_gt_0)
  from nlz_inv_step [OF this, of "0x0000FFFF"]
  have "nlz_inv x (2 * 8) (nlz_shift 0x0000FFFF 16 (0, x))" by simp
  from nlz_inv_step [OF this, of "0x00FFFFFF"]
  have "nlz_inv x (2 * 4) (nlz_shift 0x00FFFFFF 8 (nlz_shift 0x0000FFFF 16 (0, x)))" by simp
  from nlz_inv_step [OF this, of "0x0FFFFFFF"]
  have "nlz_inv x (2 * 2) (nlz_shift 0x0FFFFFFF 4 (nlz_shift 0x00FFFFFF 8 (nlz_shift 0x0000FFFF 16 (0, x))))" by simp
  from nlz_inv_step [OF this, of "0x3FFFFFFF"]
  obtain r where r: "r = nlz_shift 0x3FFFFFFF 2 (nlz_shift 0x0FFFFFFF 4 (nlz_shift 0x00FFFFFF 8 (nlz_shift 0x0000FFFF 16 (0, x))))"
    "nlz_inv x (2 * 1) r" by simp
  have 5: "nlz_inv x 1 (nlz_shift 0x7FFFFFFF 1 r)" using nlz_inv_step [OF r(2), of "0x7FFFFFFF"] by simp
  have "nlz x = fst (nlz_shift 0x7FFFFFFF 1 r)"
    unfolding nlz_def Let_def r(1) [symmetric] nlz_shift_def [of "0x7FFFFFFF"] by simp
  then have y: "unat (snd (nlz_shift 0x7FFFFFFF 1 r)) = unat x * 2 ^ nlz x"
    "2 ^ 31 \<le> unat (snd (nlz_shift 0x7FFFFFFF 1 r))"
    using 5 by (simp_all add: nlz_inv_def)
  then show "2 ^ 31 \<le> unat x * 2 ^ nlz x" by simp
  show "unat x * 2 ^ nlz x < 2 ^ 32" using y(1) unat32_lt by metis
qed

section \<open>Unsigned division\<close>

text \<open>The estimate of the long case: dividing by the divisor with its low bits cut is at most one
  too much.\<close>

lemma quotient_estimate:
  fixes n d D :: nat
  assumes "D \<le> d" "n * d < n * D + d * D" "0 < D"
  shows "n div d \<le> n div D" "n div D \<le> n div d + 1"
proof -
  show "n div d \<le> n div D" using assms by (simp add: div_le_mono2)
  show "n div D \<le> n div d + 1"
  proof (cases "n div D")
    case (Suc j)
    have "(j + 1) * D \<le> n" using Suc by (metis Suc_eq_plus1 div_times_less_eq_dividend)
    then have "(j + 1) * D * d \<le> n * d" by simp
    moreover have "(j + 1) * D * d = D * d + D * (j * d)" "n * D + d * D = D * d + D * n"
      by (simp_all add: algebra_simps)
    ultimately have "D * (j * d) < D * n" using assms(2) by linarith
    then have "j * d < n" using assms(3) by simp
    moreover have "0 < d" using assms by linarith
    ultimately have "j \<le> n div d" by (simp add: less_eq_div_iff_mult_less_eq)
    with Suc show ?thesis by simp
  qed simp
qed

text \<open>The short case: schoolbook division of a two-digit number by a one-digit number, in base
  \<open>b\<close>.\<close>

lemma two_digit_division:
  fixes n d b :: nat
  assumes "0 < d" "0 < b"
  shows "(b * (n div b mod d) + n mod b) div d + b * (n div b div d) = n div d"
    and "(b * (n div b mod d) + n mod b) div d < b"
proof -
  let ?r = "b * (n div b mod d) + n mod b"
  have "b * (n div b) = b * (d * (n div b div d)) + b * (n div b mod d)"
    by (simp only: distrib_left [symmetric] mult_div_mod_eq)
  moreover have "n = b * (n div b) + n mod b" by simp
  ultimately have "n = ?r + d * (b * (n div b div d))" by (simp only: mult.left_commute [of d b])
  then show "?r div d + b * (n div b div d) = n div d" using assms
    by (metis add.commute div_mult_self2 less_numeral_extra(3))
  have "n div b mod d \<le> d - 1" using mod_less_divisor [OF assms(1), of "n div b"] by linarith
  then have "b * (n div b mod d) \<le> b * (d - 1)" by (rule mult_le_mono2)
  moreover have "b * (d - 1) + b = b * d" using assms by (cases d) auto
  moreover have "n mod b < b" using assms by simp
  ultimately have "?r < b * d" by linarith
  then show "?r div d < b" using assms by (simp add: less_mult_imp_div_less)
qed

text \<open>The long case in natural numbers: the normalised divisor \<open>v\<close> and the cut divisor \<open>D\<close>.\<close>

lemma normalised_divisor:
  fixes d :: nat
  assumes "2 ^ 31 \<le> d div 2 ^ 32 * 2 ^ s" "d div 2 ^ 32 * 2 ^ s < 2 ^ 32"
  defines "v \<equiv> d * 2 ^ s div 2 ^ 32"
  defines "D \<equiv> v * 2 ^ (32 - s)"
  shows "s \<le> 31" "d * 2 ^ s < 2 ^ 64" "2 ^ 31 \<le> v" "v < 2 ^ 32" "D \<le> d" "d < D + 2 ^ (32 - s)"
    and "2 ^ (63 - s) \<le> D"
proof -
  let ?d1 = "d div 2 ^ 32"
  have d1: "0 < ?d1" using assms(1) by (metis gr0I mult_0 not_numeral_le_zero power_eq_0_iff zero_neq_numeral not_le zero_less_power zero_less_numeral)
  have "1 * 2 ^ s \<le> ?d1 * 2 ^ s" by (rule mult_le_mono1) (use d1 in simp)
  then have "(2::nat) ^ s < 2 ^ 32" using assms(2) by linarith
  then show s: "s \<le> 31" using power_less_imp_less_exp [of "2::nat" s 32] by simp
  have p: "(2::nat) ^ 32 = 2 ^ (32 - s) * 2 ^ s" using s by (simp only: power_add [symmetric]) simp
  have "?d1 < 2 ^ (32 - s)" using assms(2) unfolding p by simp
  then have "(?d1 + 1) * 2 ^ s \<le> 2 ^ (32 - s) * 2 ^ s" by (intro mult_le_mono1) simp
  then have d2: "(?d1 + 1) * 2 ^ s \<le> 2 ^ 32" by (simp only: p)
  have dlt: "d < (?d1 + 1) * 2 ^ 32" by (metis add.commute dividend_less_div_times mult.commute mult_Suc Suc_eq_plus1 zero_less_numeral zero_less_power)
  have "d * 2 ^ s < (?d1 + 1) * 2 ^ 32 * 2 ^ s" using dlt by simp
  also have "\<dots> = (?d1 + 1) * 2 ^ s * 2 ^ 32" by (simp only: mult.assoc mult.commute [of "2 ^ 32"])
  also have "\<dots> \<le> 2 ^ 32 * 2 ^ 32" using d2 by (rule mult_le_mono1)
  finally show lt64: "d * 2 ^ s < 2 ^ 64" by simp
  then show "v < 2 ^ 32" unfolding v_def by (simp add: less_mult_imp_div_less)
  have "?d1 * 2 ^ s \<le> v" unfolding v_def
    by (subst less_eq_div_iff_mult_less_eq) (simp_all add: mult.assoc mult.left_commute)
  then show v: "2 ^ 31 \<le> v" using assms(1) by linarith
  have DD: "D * 2 ^ s = v * 2 ^ 32" unfolding D_def p by (simp only: mult.assoc)
  have "v * 2 ^ 32 \<le> d * 2 ^ s" unfolding v_def by simp
  then show "D \<le> d" using DD by (metis mult_le_cancel2 zero_less_numeral zero_less_power)
  have "d * 2 ^ s < v * 2 ^ 32 + 2 ^ 32" unfolding v_def
    using mod_less_divisor [of "2 ^ 32" "d * 2 ^ s", OF zero_less_power] div_mult_mod_eq [of "d * 2 ^ s" "2 ^ 32"] by linarith
  also have "\<dots> = (D + 2 ^ (32 - s)) * 2 ^ s" using DD p by (simp only: distrib_right)
  finally show "d < D + 2 ^ (32 - s)" by (metis mult_less_cancel2)
  have "(2::nat) ^ (63 - s) = 2 ^ 31 * 2 ^ (32 - s)" using s by (simp only: power_add [symmetric]) simp
  also have "\<dots> \<le> D" unfolding D_def using v by (rule mult_le_mono1)
  finally show "2 ^ (63 - s) \<le> D" .
qed

lemma estimate_bound:
  fixes n d D :: nat
  assumes "n < 2 ^ 64" "s \<le> 31" "D \<le> d" "d < D + 2 ^ (32 - s)" "2 ^ (63 - s) \<le> D"
  shows "n * d < n * D + d * D"
proof -
  have "2 ^ 64 * (d - D) \<le> d * D"
  proof (cases "s = 31")
    case True
    then have "d - D \<le> 1" "2 ^ 32 \<le> D" using assms by auto
    moreover have "(2::nat) ^ 32 * 2 ^ 32 \<le> d * D" using \<open>2 ^ 32 \<le> D\<close> assms(3) by (intro mult_le_mono) auto
    ultimately show ?thesis by (cases "d - D") auto
  next
    case False
    then have s: "s \<le> 30" using assms(2) by simp
    have "2 ^ 64 * (d - D) \<le> 2 ^ 64 * 2 ^ (32 - s)" using assms(4) by (intro mult_le_mono2) linarith
    also have "\<dots> \<le> 2 ^ (63 - s) * 2 ^ (63 - s)"
      using s unfolding power_add [symmetric] by (intro power_increasing) auto
    also have "\<dots> \<le> d * D" using assms(3,5) by (intro mult_le_mono) auto
    finally show ?thesis .
  qed
  moreover have "0 < D" using assms(5) by (metis le_zero_eq neq0_conv power_not_zero zero_neq_numeral)
  ultimately have "n * (d - D) < d * D"
    using assms(1,3) by (cases "d = D") (auto intro: less_le_trans [OF mult_strict_right_mono])
  moreover have "n * d = n * D + n * (d - D)" using assms(3) by (metis add_diff_inverse_nat distrib_left not_less)
  ultimately show ?thesis by simp
qed

lemma word_div_of_nat: "n div d = of_nat (unat n div unat d)" for n d :: u64
  by (simp add: unat_div [symmetric])

lemma ucast_eq_of_nat: "(ucast w :: 'b::len word) = of_nat (unat w)" for w :: "'a::len word"
  by (simp add: word_unat_eq_iff unat_cast unat_of_nat)

lemma ucast_of_nat_up: "x < 2 ^ 32 \<Longrightarrow> ucast (of_nat x :: u32) = (of_nat x :: u64)"
  by (simp add: word_unat_eq_iff unat_cast unat_of_nat)

lemma udiv64_short:
  assumes "d \<noteq> 0" "unat d < 2 ^ 32"
  shows "udiv64 n d = Some (n div d)"
proof -
  let ?b = "2 ^ 32 :: nat"
  define n1 where "n1 = (ucast (drop_bit 32 n) :: u32)"
  define n0 where "n0 = (ucast n :: u32)"
  define d0 where "d0 = (ucast d :: u32)"
  have u: "unat n1 = unat n div ?b" "unat n0 = unat n mod ?b"
    unfolding n1_def n0_def by (rule unat_hi, rule unat_lo)
  have ud: "unat d0 = unat d" unfolding d0_def using assms(2) unat_lo [of d] by simp
  have d: "0 < unat d" using assms(1) by (simp add: unat_gt_0)
  define r where "r = ?b * (unat n div ?b mod unat d) + unat n mod ?b"
  have td: "r div unat d + ?b * (unat n div ?b div unat d) = unat n div unat d" "r div unat d < ?b"
    unfolding r_def using two_digit_division [OF d, of ?b "unat n"] by simp_all
  have "unat n div ?b mod unat d < ?b" using mod_less_divisor [OF d, of "unat n div ?b"] assms(2) by linarith
  moreover have "unat n mod ?b < ?b" by simp
  ultimately have r64: "r < 2 ^ 64" unfolding r_def by simp
  have "(ucast (n1 mod d0) :: u64) = of_nat (unat n div ?b mod unat d)" "(ucast n0 :: u64) = of_nat (unat n mod ?b)"
    "(ucast (n1 div d0) :: u64) = of_nat (unat n div ?b div unat d)"
    by (simp_all only: ucast_eq_of_nat unat_mod unat_div u ud)
  then have w: "push_bit 32 1 * ucast (n1 mod d0) + ucast n0 = (of_nat r :: u64)"
    "push_bit 32 1 * ucast (n1 div d0) = (of_nat (?b * (unat n div ?b div unat d)) :: u64)"
    unfolding r_def by simp_all
  have d0: "d0 \<noteq> 0" using d ud by auto
  have "divl (of_nat r) d0 = Some (of_nat (r div unat d))"
    using d0 td(2) r64 by (simp add: divl_spec ud unat_of_nat)
  then have "udiv64 n d = Some (ucast (of_nat (r div unat d) :: u32) + of_nat (?b * (unat n div ?b div unat d)))"
    using assms(2) d0 unfolding udiv64_def n1_def [symmetric] n0_def [symmetric] d0_def [symmetric] Let_def
    by (simp only: drop32_zero w) simp
  also have "\<dots> = Some (of_nat (r div unat d + ?b * (unat n div ?b div unat d)))"
    using td(2) by (simp only: ucast_of_nat_up of_nat_add)
  finally show ?thesis by (simp only: td(1) word_div_of_nat)
qed

lemma udiv64_long:
  assumes "2 ^ 32 \<le> unat d" "d \<le> n"
  shows "udiv64 n d = Some (n div d)"
proof -
  define d1 where "d1 = (ucast (drop_bit 32 d) :: u32)"
  define s where "s = nlz d1"
  have d1: "unat d1 = unat d div 2 ^ 32" unfolding d1_def by (rule unat_hi)
  have "d1 \<noteq> 0" using assms(1) d1 by (metis div_greater_zero_iff unat_eq_zero less_numeral_extra(3) zero_less_numeral zero_less_power)
  note nd = normalised_divisor [of "unat d" s, folded d1, unfolded s_def, OF nlz_spec [OF this], folded s_def]
  define v where "v = unat d * 2 ^ s div 2 ^ 32"
  define D where "D = v * 2 ^ (32 - s)"
  note nd = nd [folded v_def, folded D_def]
  have D0: "0 < D" using nd(7) by (metis le_zero_eq neq0_conv power_not_zero zero_neq_numeral)
  note est = quotient_estimate [OF nd(5) estimate_bound [OF unat64_lt [of n] nd(1,5,6,7)] D0]
  have "unat (push_bit s d) = unat d * 2 ^ s" using nd(2) by (simp add: unat_push)
  then have uv: "unat (ucast (drop_bit 32 (push_bit s d)) :: u32) = v"
    using unat_hi [of "push_bit s d"] by (simp add: v_def)
  have q2: "unat (drop_bit 1 n) div v < 2 ^ 32"
  proof -
    have "unat (drop_bit 1 n) < 2 ^ 32 * 2 ^ 31" using unat64_lt [of n] by (simp add: unat_drop)
    also have "\<dots> \<le> 2 ^ 32 * v" using nd(3) by (rule mult_le_mono2)
    finally show ?thesis by (simp add: less_mult_imp_div_less)
  qed
  have v0: "v \<noteq> 0" using nd(3) by auto
  define q0 where "q0 = (of_nat (unat (drop_bit 1 n) div v) :: u32)"
  have dv: "divl (drop_bit 1 n) (ucast (drop_bit 32 (push_bit s d))) = Some q0"
    using q2 v0 uv unfolding divl_spec q0_def by (metis not_le unat_eq_zero)
  have "unat q0 = unat n div 2 div v" using q2 by (simp add: q0_def unat_of_nat unat_drop)
  then have "unat (drop_bit (31 - s) q0) = unat n div (2 * v * 2 ^ (31 - s))"
    by (simp add: unat_drop div_mult2_eq)
  also have "2 * v * 2 ^ (31 - s) = D"
  proof -
    have "(2::nat) ^ (32 - s) = 2 * 2 ^ (31 - s)" using nd(1) by (simp flip: power_Suc add: Suc_diff_le)
    then show ?thesis by (simp add: D_def)
  qed
  finally have q: "(ucast (drop_bit (31 - s) q0) :: u64) = of_nat (unat n div D)"
    by (simp only: ucast_eq_of_nat)
  have nd_le: "\<not> n < d" "drop_bit 32 d \<noteq> 0" using assms by (auto simp: drop32_zero)
  have exec: "udiv64 n d = (let q = of_nat (unat n div D) in Some (if n - (q - 1) * d < d then q - 1 else q))"
    unfolding udiv64_def d1_def [symmetric] s_def [symmetric] Let_def using nd_le dv q by simp
  have dn0: "d \<noteq> 0" using nd_le by auto
  have cases: "unat n div D = unat n div unat d \<or> unat n div D = unat n div unat d + 1"
    using est by linarith
  then show ?thesis
  proof
    assume "unat n div D = unat n div unat d + 1"
    then have "(of_nat (unat n div D) :: u64) - 1 = n div d" by (simp add: word_div_of_nat)
    moreover have "n - (n div d) * d = n mod d" by (metis add_diff_cancel_left' div_mult_mod_eq)
    ultimately show ?thesis using exec dn0 by (simp add: Let_def word_mod_less_divisor word_greater_zero_iff)
  next
    assume "unat n div D = unat n div unat d"
    then have e: "(of_nat (unat n div D) :: u64) = n div d" by (simp add: word_div_of_nat)
    have "n - (n div d - 1) * d = n mod d + d" by (metis (no_types) add.commute add_diff_cancel_left' diff_diff_eq2 div_mult_mod_eq left_diff_distrib mult_1)
    moreover have "\<not> n mod d + d < d"
    proof -
      have "unat d \<le> unat n" using assms(2) by (simp add: word_le_nat_alt)
      moreover have "0 < unat d" using dn0 by (simp add: unat_gt_0)
      ultimately have "1 \<le> unat n div unat d" by (simp add: Suc_le_eq div_greater_zero_iff)
      then have "1 * unat d \<le> unat n div unat d * unat d" by (rule mult_le_mono1)
      then have "unat n mod unat d + unat d \<le> unat n"
        using div_mult_mod_eq [of "unat n" "unat d"] by linarith
      then have "unat (n mod d + d) = unat n mod unat d + unat d"
        using unat64_lt [of n] by (simp add: unat_word_ariths unat_mod)
      then show ?thesis by (simp add: word_less_nat_alt)
    qed
    ultimately show ?thesis using exec e by (simp add: Let_def)
  qed
qed

lemma udiv64_spec: "udiv64 n d = (if d = 0 then None else Some (n div d))"
proof (cases "unat d < 2 ^ 32")
  case True
  then show ?thesis
    using udiv64_short [of d n] by (cases "d = 0") (simp_all add: udiv64_def)
next
  case False
  then have d: "d \<noteq> 0" "drop_bit 32 d \<noteq> 0" by (auto simp: drop32_zero)
  show ?thesis
  proof (cases "n < d")
    case True
    then have "unat n div unat d = 0" by (simp add: word_less_nat_alt)
    then show ?thesis using True d by (simp add: udiv64_def word_div_of_nat)
  next
    case False
    then show ?thesis using d \<open>\<not> unat d < 2 ^ 32\<close> by (simp add: udiv64_long)
  qed
qed

lemma word_abs: "(if 0 \<le> sint n then n else - n) = word_of_int \<bar>sint n\<bar>" for n :: u64
  by simp

lemma unat_abs: "int (unat (word_of_int \<bar>sint n\<bar> :: u64)) = \<bar>sint n\<bar>" for n :: u64
proof -
  have "\<bar>sint n\<bar> < 2 ^ 64" using sint_greater_eq [of n] sint_lt [of n] by simp
  then have "\<bar>sint n\<bar> mod 2 ^ 64 = \<bar>sint n\<bar>" by (intro mod_pos_pos_trivial) simp_all
  then show ?thesis by (simp add: uint_word_of_int)
qed

lemma sdiv64_spec:
  assumes "d \<noteq> 0"
  shows "sdiv64 n d = Some (word_of_int (sint n sdiv sint d))"
proof -
  let ?n = "word_of_int \<bar>sint n\<bar> :: u64" and ?d = "word_of_int \<bar>sint d\<bar> :: u64"
  have sd: "sint d \<noteq> 0" using assms by (simp add: signed_eq_0_iff)
  have "int (unat ?d) \<noteq> 0" unfolding unat_abs using sd by simp
  then have d0: "?d \<noteq> 0" by auto
  have "?n div ?d = of_nat (unat ?n div unat ?d)" by (rule word_div_of_nat)
  also have "\<dots> = word_of_int (int (unat ?n div unat ?d))" by simp
  also have "int (unat ?n div unat ?d) = \<bar>sint n\<bar> div \<bar>sint d\<bar>" by (simp only: zdiv_int unat_abs)
  finally have q: "udiv64 ?n ?d = Some (word_of_int (\<bar>sint n\<bar> div \<bar>sint d\<bar>))"
    using d0 by (simp add: udiv64_spec)
  have "sdiv64 n d = Some (if (sint n < 0) = (sint d < 0) then word_of_int (\<bar>sint n\<bar> div \<bar>sint d\<bar>)
      else - word_of_int (\<bar>sint n\<bar> div \<bar>sint d\<bar>))"
    unfolding sdiv64_def Let_def word_abs q by simp
  also have "\<dots> = Some (word_of_int (sint n sdiv sint d))"
    using sd by (cases "sint n = 0") (auto simp: signed_divide_int_def sgn_if)
  finally show ?thesis .
qed

section \<open>Properties\<close>

text \<open>C18. The unsigned 64-bit division routine computes the quotient of its arguments for every
  nonzero divisor, never trapping inside; a zero divisor is a divide error.\<close>

theorem udivdi3_correct:
  "udivdi3 n d = (if d = 0 then None else Some (n div d))"
  by (simp add: udivdi3_def udiv64_spec)

text \<open>C24. The signed 64-bit division routine truncates the quotient towards zero, as C requires, for
  every nonzero divisor; the only quotient that does not fit, \<open>-2^63 / -1\<close>, wraps around.\<close>

theorem divdi3_correct:
  assumes "d \<noteq> 0"
  shows "divdi3 n d = Some (word_of_int (sint n sdiv sint d))"
  using sdiv64_spec [OF assms] by (simp add: divdi3_def)

theorem divdi3_correct_witness: "divdi3 (- 7) 2 = Some (- 3)"
  using divdi3_correct [of 2 "- 7"] by (simp add: signed_divide_int_def)

text \<open>C25. The 64-bit remainder routines pass the remainder through a 32-bit variable: what
  \<open>__umoddi3\<close> returns is the remainder modulo \<open>2^32\<close>, which is the remainder only
  if that is below \<open>2^32\<close>.\<close>

theorem umoddi3_truncates:
  assumes "d \<noteq> 0"
  shows "\<exists>r. umoddi3 n d = Some r \<and> unat r = unat n mod unat d mod 2 ^ 32
    \<and> (r = n mod d \<longleftrightarrow> unat n mod unat d < 2 ^ 32)"
proof -
  have "n - d * (n div d) = n mod d" by (metis add_diff_cancel_left' div_mult_mod_eq mult.commute)
  then have e: "umoddi3 n d = Some (ucast (ucast (n mod d) :: u32))"
    using assms by (simp add: umoddi3_def umod64_def udiv64_spec)
  have "unat (ucast (ucast (n mod d) :: u32) :: u64) = unat n mod unat d mod 2 ^ 32"
    by (simp only: unat_ucast_up unat_lo unat_mod)
  then show ?thesis using e by (simp add: word_unat_eq_iff unat_mod) (metis mod_less mod_less_divisor zero_less_numeral)
qed

theorem umoddi3_truncates_witness:
  "\<exists>r. umoddi3 (2 ^ 32) (2 ^ 32 + 1) = Some r \<and> unat r = 0"
  using umoddi3_truncates [of "2 ^ 32 + 1" "2 ^ 32"] by auto

end
