(* ===== verification/Buffer_Cache.thy ===== *)
theory Buffer_Cache
  imports Pintos_Prelude
begin

text \<open>
  Block devices and the buffer cache of \<open>devices/block.c\<close>. The state \<open>io\<close> holds the
  global variables of the file and the devices. A call is executed by the current thread
  \<open>cur_thread\<close> without other threads running in between; a lock is the thread that holds it,
  and a lock of \<open>io\<close> may be held by another thread. The result \<open>None\<close> of an operation
  means that it does not return in this execution: a failed assertion or \<open>PANIC\<close>, an access
  outside a sector buffer, or a sleep on a lock or condition from which only another thread
  could wake it. The code that a waiter runs after it was woken is modelled as operations of
  its own. Allocations succeed; interrupt levels are not part of the state.
\<close>

type_synonym tid = nat
type_synonym lock = "tid option"

definition BLOCK_SECTOR_SIZE :: nat where "BLOCK_SECTOR_SIZE = 512"

section \<open>Locks, as one running thread sees them\<close>

definition lk_acquire :: "tid \<Rightarrow> lock \<Rightarrow> lock option" where
  "lk_acquire me l = (if l = None then Some (Some me) else None)"

definition lk_try_acquire :: "tid \<Rightarrow> lock \<Rightarrow> (bool \<times> lock) option" where
  "lk_try_acquire me l = do {
     ASSERT (l \<noteq> Some me);
     Some (if l = None then (True, Some me) else (False, l)) }"

definition lk_release :: "tid \<Rightarrow> lock \<Rightarrow> lock option" where
  "lk_release me l = do { ASSERT (l = Some me); Some None }"

section \<open>Devices\<close>

datatype block_type = BLOCK_KERNEL | BLOCK_FILESYS | BLOCK_SCRATCH | BLOCK_SWAP | BLOCK_RAW | BLOCK_FOREIGN

text \<open>A device with its driver: \<open>contents\<close> is what the driver's \<open>read\<close> returns and its
  \<open>write\<close> replaces.\<close>

record block =
  bname :: string
  btype :: block_type
  bsize :: nat
  contents :: "nat \<Rightarrow> bytes"
  read_cnt :: nat
  write_cnt :: nat

record buffer_entry =
  buffered_sector :: nat
  sector_block :: nat
  buffer :: bytes
  use_bit :: bool
  dirty_bit :: bool
  sector_lock :: lock

record io =
  cur_thread :: tid
  devs :: "nat \<Rightarrow> block"
  buffer_cache :: "buffer_entry option list"
  clock_hand :: nat
  buffer_cache_lock :: lock
  active_sema :: nat
  inactive_entry :: "tid list"
  inactive_lock :: lock
  woken :: "tid list"
  g_buffer_misses :: nat
  g_buffer_accesses :: nat

definition check_sector :: "block \<Rightarrow> nat \<Rightarrow> unit option" where
  "check_sector b sector = (if sector \<ge> bsize b then None else Some ())"

definition block_read :: "nat \<Rightarrow> nat \<Rightarrow> io \<Rightarrow> (bytes \<times> io) option" where
  "block_read dev sector s = do {
     let b = devs s dev;
     check_sector b sector;
     Some (contents b sector, s\<lparr>devs := (devs s)(dev := b\<lparr>read_cnt := read_cnt b + 1\<rparr>)\<rparr>) }"

definition block_write :: "nat \<Rightarrow> nat \<Rightarrow> bytes \<Rightarrow> io \<Rightarrow> io option" where
  "block_write dev sector buf s = do {
     let b = devs s dev;
     check_sector b sector;
     ASSERT (btype b \<noteq> BLOCK_FOREIGN);
     Some (s\<lparr>devs := (devs s)(dev := b\<lparr>contents := (contents b)(sector := buf), write_cnt := write_cnt b + 1\<rparr>)\<rparr>) }"

definition block_size :: "nat \<Rightarrow> io \<Rightarrow> nat" where
  "block_size dev s = bsize (devs s dev)"

section \<open>The buffer cache\<close>

definition get_entry :: "io \<Rightarrow> nat \<Rightarrow> buffer_entry option" where
  "get_entry s i = (if i < length (buffer_cache s) then buffer_cache s ! i else None)"

definition set_entry :: "nat \<Rightarrow> buffer_entry option \<Rightarrow> io \<Rightarrow> io" where
  "set_entry i e s = s\<lparr>buffer_cache := (buffer_cache s)[i := e]\<rparr>"

definition acquire_cache_lock :: "io \<Rightarrow> io option" where
  "acquire_cache_lock s = do { l \<leftarrow> lk_acquire (cur_thread s) (buffer_cache_lock s); Some (s\<lparr>buffer_cache_lock := l\<rparr>) }"

definition release_cache_lock :: "io \<Rightarrow> io option" where
  "release_cache_lock s = do { l \<leftarrow> lk_release (cur_thread s) (buffer_cache_lock s); Some (s\<lparr>buffer_cache_lock := l\<rparr>) }"

definition acquire_sector_lock :: "nat \<Rightarrow> io \<Rightarrow> io option" where
  "acquire_sector_lock i s = do {
     e \<leftarrow> get_entry s i;
     l \<leftarrow> lk_acquire (cur_thread s) (sector_lock e);
     Some (set_entry i (Some (e\<lparr>sector_lock := l\<rparr>)) s) }"

definition release_sector_lock :: "nat \<Rightarrow> io \<Rightarrow> io option" where
  "release_sector_lock i s = do {
     e \<leftarrow> get_entry s i;
     l \<leftarrow> lk_release (cur_thread s) (sector_lock e);
     Some (set_entry i (Some (e\<lparr>sector_lock := l\<rparr>)) s) }"

text \<open>The search loop of \<open>acquire_buffer_entry_lock\<close> and \<open>check_sector_cached\<close>: the first
  occupied slot that caches the sector.\<close>

function find_slot :: "io \<Rightarrow> nat \<Rightarrow> nat \<Rightarrow> nat option" where
  "find_slot s sector i =
     (if i < 64 then
        case get_entry s i of
          None \<Rightarrow> find_slot s sector (i + 1)
        | Some e \<Rightarrow> if buffered_sector e = sector then Some i else find_slot s sector (i + 1)
      else None)"
  by pat_completeness auto
termination
  by (relation "measure (\<lambda>(s, sector, i). 64 - i)") auto

text \<open>The inner \<open>None\<close> is the result \<open>-1\<close>.\<close>

definition acquire_buffer_entry_lock :: "nat \<Rightarrow> io \<Rightarrow> (nat option \<times> io) option" where
  "acquire_buffer_entry_lock sector s = do {
     s \<leftarrow> acquire_cache_lock s;
     case find_slot s sector 0 of
       Some i \<Rightarrow> do {
         s \<leftarrow> acquire_sector_lock i s;
         e \<leftarrow> get_entry s i;
         let s = set_entry i (Some (e\<lparr>use_bit := True\<rparr>)) s;
         s \<leftarrow> release_cache_lock s;
         Some (Some i, s) }
     | None \<Rightarrow> do { s \<leftarrow> release_cache_lock s; Some (None, s) } }"

definition check_sector_cached :: "nat \<Rightarrow> io \<Rightarrow> bool option" where
  "check_sector_cached sector s = do {
     ASSERT (buffer_cache_lock s = Some (cur_thread s));
     Some (find_slot s sector 0 \<noteq> None) }"

definition check_buffer_presence :: "nat \<Rightarrow> nat \<Rightarrow> io \<Rightarrow> bool option" where
  "check_buffer_presence sector offset s = do {
     ASSERT (buffer_cache_lock s = Some (cur_thread s));
     Some (case get_entry s offset of
         None \<Rightarrow> False
       | Some e \<Rightarrow> buffered_sector e = sector \<and> sector_lock e = Some (cur_thread s)) }"

definition buffer_evict :: "nat \<Rightarrow> io \<Rightarrow> io option" where
  "buffer_evict offset s = do {
     ASSERT (buffer_cache_lock s = Some (cur_thread s));
     cur \<leftarrow> get_entry s offset;
     ASSERT (sector_lock cur = Some (cur_thread s));
     s \<leftarrow> (if dirty_bit cur then block_write (sector_block cur) (buffered_sector cur) (buffer cur) s else Some s);
     Some (set_entry offset None s) }"

definition init_buffer_cache :: "io \<Rightarrow> io" where
  "init_buffer_cache s = s\<lparr>buffer_cache := replicate 64 None, clock_hand := 0, buffer_cache_lock := None,
     active_sema := 64, inactive_lock := None, inactive_entry := []\<rparr>"

function flush_loop :: "nat \<Rightarrow> io \<Rightarrow> io option" where
  "flush_loop i s =
     (if i < 64 then
        if get_entry s i \<noteq> None then do {
          s \<leftarrow> acquire_sector_lock i s;
          s \<leftarrow> buffer_evict i s;
          flush_loop (i + 1) s }
        else flush_loop (i + 1) s
      else Some s)"
  by pat_completeness auto
termination
  by (relation "measure (\<lambda>(i, s). 64 - i)") auto

definition flush_buffer_cache :: "io \<Rightarrow> io option" where
  "flush_buffer_cache s = do {
     s \<leftarrow> acquire_cache_lock s;
     s \<leftarrow> flush_loop 0 s;
     release_cache_lock s }"

definition advance_hand :: "io \<Rightarrow> io" where
  "advance_hand s = s\<lparr>clock_hand := (clock_hand s + 1) mod 64\<rparr>"

partial_function (option) clock_loop :: "io \<Rightarrow> (nat \<times> io) option" where
  "clock_loop s = (let h = clock_hand s in
     case get_entry s h of
       None \<Rightarrow> Some (h, advance_hand s)
     | Some e \<Rightarrow> do {
         (got, l) \<leftarrow> lk_try_acquire (cur_thread s) (sector_lock e);
         let s = set_entry h (Some (e\<lparr>sector_lock := l\<rparr>)) s;
         if got then
           if use_bit e then do {
             let s = set_entry h (Some (e\<lparr>sector_lock := l, use_bit := False\<rparr>)) s;
             s \<leftarrow> release_sector_lock h s;
             clock_loop (advance_hand s) }
           else do {
             s \<leftarrow> buffer_evict h s;
             Some (h, advance_hand s) }
         else clock_loop (advance_hand s) })"

definition clock_algorithm_evict :: "io \<Rightarrow> (nat \<times> io) option" where
  "clock_algorithm_evict s = do {
     ASSERT (buffer_cache_lock s = Some (cur_thread s));
     clock_loop s }"

text \<open>\<open>memcpy\<close> from and to a sector buffer of \<open>BLOCK_SECTOR_SIZE\<close> bytes.\<close>

definition bounded_read :: "bytes \<Rightarrow> nat \<Rightarrow> nat \<Rightarrow> io \<Rightarrow> (bytes \<times> io) option" where
  "bounded_read cache_buffer start fin s = do {
     let s = s\<lparr>g_buffer_accesses := g_buffer_accesses s + 1\<rparr>;
     ASSERT (start \<le> fin \<and> fin \<le> length cache_buffer);
     Some (take (fin - start) (drop start cache_buffer), s) }"

definition bounded_write :: "bytes \<Rightarrow> bytes \<Rightarrow> nat \<Rightarrow> nat \<Rightarrow> io \<Rightarrow> (bytes \<times> io) option" where
  "bounded_write input_buffer cache_buffer start fin s = do {
     let s = s\<lparr>g_buffer_accesses := g_buffer_accesses s + 1\<rparr>;
     ASSERT (start \<le> fin \<and> fin \<le> length cache_buffer \<and> fin - start \<le> length input_buffer);
     Some (take start cache_buffer @ take (fin - start) input_buffer @ drop fin cache_buffer, s) }"

text \<open>The last steps of every access: mark the entry inactive and wake all waiters.\<close>

definition cond_broadcast_inactive :: "io \<Rightarrow> io option" where
  "cond_broadcast_inactive s =
     (if inactive_entry s \<noteq> [] then do {
        ASSERT (inactive_lock s = Some (cur_thread s));
        Some (s\<lparr>woken := woken s @ inactive_entry s, inactive_entry := []\<rparr>) }
      else Some s)"

definition finish_access :: "io \<Rightarrow> io option" where
  "finish_access s = do {
     let s = s\<lparr>active_sema := active_sema s + 1\<rparr>;
     l \<leftarrow> lk_acquire (cur_thread s) (inactive_lock s);
     s \<leftarrow> cond_broadcast_inactive (s\<lparr>inactive_lock := l\<rparr>);
     l \<leftarrow> lk_release (cur_thread s) (inactive_lock s);
     Some (s\<lparr>inactive_lock := l\<rparr>) }"

definition sema_try_down_active :: "io \<Rightarrow> bool \<times> io" where
  "sema_try_down_active s =
     (if active_sema s > 0 then (True, s\<lparr>active_sema := active_sema s - 1\<rparr>) else (False, s))"

text \<open>\<open>read_buffered\<close> and \<open>read_not_buffered\<close> call each other: \<open>read_go False\<close> is the
  former, \<open>read_go True\<close> the latter. The result is what is copied to the caller's buffer. When
  no buffer entry may become active, the thread waits on \<open>inactive_entry\<close>, and the call does not
  return without another thread.\<close>

partial_function (option) read_go :: "bool \<Rightarrow> nat \<Rightarrow> nat \<Rightarrow> nat \<Rightarrow> nat \<Rightarrow> io \<Rightarrow> (bytes \<times> io) option" where
  "read_go not_buffered dev sector start fin s =
     (if \<not> not_buffered then do {
        (offset, s) \<leftarrow> acquire_buffer_entry_lock sector s;
        case offset of
          None \<Rightarrow> read_go True dev sector start fin s
        | Some offset \<Rightarrow> do {
            let (down, s) = sema_try_down_active s;
            ASSERT down;
            e \<leftarrow> get_entry s offset;
            (out, s) \<leftarrow> bounded_read (buffer e) start fin s;
            s \<leftarrow> release_sector_lock offset s;
            s \<leftarrow> finish_access s;
            Some (out, s) } }
      else do {
        s \<leftarrow> acquire_cache_lock s;
        cached \<leftarrow> check_sector_cached sector s;
        if cached then do {
          s \<leftarrow> release_cache_lock s;
          read_go False dev sector start fin s }
        else do {
          let (down, s) = sema_try_down_active s;
          ASSERT down;
          let s = s\<lparr>g_buffer_misses := g_buffer_misses s + 1\<rparr>;
          (buf, s) \<leftarrow> block_read dev sector s;
          let cur = \<lparr>buffered_sector = sector, sector_block = dev, buffer = buf, use_bit = True,
            dirty_bit = False, sector_lock = None\<rparr>;
          (offset, s) \<leftarrow> clock_algorithm_evict s;
          ASSERT (get_entry s offset = None);
          (out, s) \<leftarrow> bounded_read (buffer cur) start fin s;
          let s = set_entry offset (Some cur) s;
          s \<leftarrow> release_cache_lock s;
          s \<leftarrow> finish_access s;
          Some (out, s) } })"

definition read_buffered :: "nat \<Rightarrow> nat \<Rightarrow> nat \<Rightarrow> nat \<Rightarrow> io \<Rightarrow> (bytes \<times> io) option" where
  "read_buffered dev sector start fin s = read_go False dev sector start fin s"

definition read_not_buffered :: "nat \<Rightarrow> nat \<Rightarrow> nat \<Rightarrow> nat \<Rightarrow> io \<Rightarrow> (bytes \<times> io) option" where
  "read_not_buffered dev sector start fin s = read_go True dev sector start fin s"

partial_function (option) write_go :: "bool \<Rightarrow> nat \<Rightarrow> nat \<Rightarrow> bytes \<Rightarrow> nat \<Rightarrow> nat \<Rightarrow> io \<Rightarrow> io option" where
  "write_go not_buffered dev sector input start fin s =
     (if \<not> not_buffered then do {
        (offset, s) \<leftarrow> acquire_buffer_entry_lock sector s;
        case offset of
          None \<Rightarrow> write_go True dev sector input start fin s
        | Some offset \<Rightarrow> do {
            let (down, s) = sema_try_down_active s;
            ASSERT down;
            e \<leftarrow> get_entry s offset;
            (buf, s) \<leftarrow> bounded_write input (buffer e) start fin s;
            let s = set_entry offset (Some (e\<lparr>buffer := buf, dirty_bit := True\<rparr>)) s;
            s \<leftarrow> release_sector_lock offset s;
            finish_access s } }
      else do {
        s \<leftarrow> acquire_cache_lock s;
        cached \<leftarrow> check_sector_cached sector s;
        if cached then do {
          s \<leftarrow> release_cache_lock s;
          write_go False dev sector input start fin s }
        else do {
          let (down, s) = sema_try_down_active s;
          ASSERT down;
          let s = s\<lparr>g_buffer_misses := g_buffer_misses s + 1\<rparr>;
          (buf, s) \<leftarrow> block_read dev sector s;
          (offset, s) \<leftarrow> clock_algorithm_evict s;
          ASSERT (get_entry s offset = None);
          (buf, s) \<leftarrow> bounded_write input buf start fin s;
          let cur = \<lparr>buffered_sector = sector, sector_block = dev, buffer = buf, use_bit = True,
            dirty_bit = True, sector_lock = None\<rparr>;
          let s = set_entry offset (Some cur) s;
          s \<leftarrow> release_cache_lock s;
          finish_access s } })"

definition write_buffered :: "nat \<Rightarrow> nat \<Rightarrow> bytes \<Rightarrow> nat \<Rightarrow> nat \<Rightarrow> io \<Rightarrow> io option" where
  "write_buffered dev sector input start fin s = write_go False dev sector input start fin s"

definition write_not_buffered :: "nat \<Rightarrow> nat \<Rightarrow> bytes \<Rightarrow> nat \<Rightarrow> nat \<Rightarrow> io \<Rightarrow> io option" where
  "write_not_buffered dev sector input start fin s = write_go True dev sector input start fin s"

text \<open>What a thread does after it was woken from waiting for an inactive entry: the end of the
  body of the waiting loops, up to the next test of the semaphore. \<open>Inl\<close> continues the loop
  with the slot, \<open>Inr\<close> is the result of the call that replaces the loop.\<close>

definition read_buffered_woken :: "nat \<Rightarrow> nat \<Rightarrow> nat \<Rightarrow> nat \<Rightarrow> io \<Rightarrow> ((nat \<times> io) + (bytes \<times> io)) option" where
  "read_buffered_woken dev sector start fin s = do {
     l \<leftarrow> lk_release (cur_thread s) (inactive_lock s);
     let s = s\<lparr>inactive_lock := l\<rparr>;
     (offset, s) \<leftarrow> acquire_buffer_entry_lock sector s;
     case offset of
       None \<Rightarrow> map_option Inr (read_not_buffered dev sector start fin s)
     | Some offset \<Rightarrow> do {
         present \<leftarrow> check_buffer_presence sector offset s;
         if \<not> present then map_option Inr (read_not_buffered dev sector start fin s)
         else Some (Inl (offset, s)) } }"

definition read_not_buffered_woken :: "nat \<Rightarrow> nat \<Rightarrow> nat \<Rightarrow> nat \<Rightarrow> io \<Rightarrow> (io + (bytes \<times> io)) option" where
  "read_not_buffered_woken dev sector start fin s = do {
     l \<leftarrow> lk_release (cur_thread s) (inactive_lock s);
     let s = s\<lparr>inactive_lock := l\<rparr>;
     s \<leftarrow> acquire_cache_lock s;
     cached \<leftarrow> check_sector_cached sector s;
     if cached then map_option Inr (read_buffered dev sector start fin s)
     else Some (Inl s) }"

definition write_buffered_woken :: "nat \<Rightarrow> nat \<Rightarrow> bytes \<Rightarrow> nat \<Rightarrow> nat \<Rightarrow> io \<Rightarrow> ((nat \<times> io) + io) option" where
  "write_buffered_woken dev sector input start fin s = do {
     l \<leftarrow> lk_release (cur_thread s) (inactive_lock s);
     let s = s\<lparr>inactive_lock := l\<rparr>;
     (offset, s) \<leftarrow> acquire_buffer_entry_lock sector s;
     case offset of
       None \<Rightarrow> map_option Inr (write_not_buffered dev sector input start fin s)
     | Some offset \<Rightarrow> do {
         present \<leftarrow> check_buffer_presence sector offset s;
         if \<not> present then map_option Inr (write_not_buffered dev sector input start fin s)
         else Some (Inl (offset, s)) } }"

definition write_not_buffered_woken :: "nat \<Rightarrow> nat \<Rightarrow> bytes \<Rightarrow> nat \<Rightarrow> nat \<Rightarrow> io \<Rightarrow> (io + io) option" where
  "write_not_buffered_woken dev sector input start fin s = do {
     l \<leftarrow> lk_release (cur_thread s) (inactive_lock s);
     let s = s\<lparr>inactive_lock := l\<rparr>;
     s \<leftarrow> acquire_cache_lock s;
     cached \<leftarrow> check_sector_cached sector s;
     if cached then map_option Inr (write_buffered dev sector input start fin s)
     else Some (Inl s) }"

declare find_slot.simps [simp del] flush_loop.simps [simp del]

section \<open>Abstraction: the contents of the device as the cache presents them\<close>

definition view :: "nat \<Rightarrow> io \<Rightarrow> nat \<Rightarrow> bytes" where
  "view dev s sector = (case find_slot s sector 0 of
       Some i \<Rightarrow> buffer (the (get_entry s i))
     | None \<Rightarrow> contents (devs s dev) sector)"

definition entry_core :: "buffer_entry \<Rightarrow> nat \<times> nat \<times> bytes \<times> bool" where
  "entry_core e = (buffered_sector e, sector_block e, buffer e, dirty_bit e)"

text \<open>The part of the state that the view and the invariant depend on.\<close>

definition same_core :: "nat \<Rightarrow> io \<Rightarrow> io \<Rightarrow> bool" where
  "same_core dev s t \<longleftrightarrow> length (buffer_cache t) = length (buffer_cache s)
     \<and> (\<forall>i. map_option entry_core (get_entry t i) = map_option entry_core (get_entry s i))
     \<and> bsize (devs t dev) = bsize (devs s dev) \<and> btype (devs t dev) = btype (devs s dev)
     \<and> contents (devs t dev) = contents (devs s dev) \<and> clock_hand t = clock_hand s"

definition entry_ok :: "nat \<Rightarrow> block \<Rightarrow> buffer_entry \<Rightarrow> bool" where
  "entry_ok dev b e \<longleftrightarrow> sector_block e = dev \<and> length (buffer e) = 512 \<and> buffered_sector e < bsize b
     \<and> (\<not> dirty_bit e \<longrightarrow> buffer e = contents b (buffered_sector e))"

definition bc_inv :: "nat \<Rightarrow> io \<Rightarrow> bool" where
  "bc_inv dev s \<longleftrightarrow> length (buffer_cache s) = 64 \<and> clock_hand s < 64
     \<and> (\<forall>i e. get_entry s i = Some e \<longrightarrow> entry_ok dev (devs s dev) e)
     \<and> (\<forall>i j e e'. get_entry s i = Some e \<and> get_entry s j = Some e' \<and> buffered_sector e = buffered_sector e' \<longrightarrow> i = j)
     \<and> btype (devs s dev) \<noteq> BLOCK_FOREIGN
     \<and> (\<forall>n < bsize (devs s dev). length (contents (devs s dev) n) = 512)"

text \<open>No thread is inside the cache and an entry may become active.\<close>

definition idle :: "io \<Rightarrow> bool" where
  "idle s \<longleftrightarrow> buffer_cache_lock s = None \<and> inactive_lock s = None \<and> active_sema s > 0
     \<and> (\<forall>i e. get_entry s i = Some e \<longrightarrow> sector_lock e = None)"

lemma get_entry_set [simp]:
  "get_entry (set_entry i e s) j = (if j = i \<and> i < length (buffer_cache s) then e else get_entry s j)"
  by (auto simp: get_entry_def set_entry_def nth_list_update)

lemma set_entry_fields [simp]:
  "length (buffer_cache (set_entry i e s)) = length (buffer_cache s)" "devs (set_entry i e s) = devs s"
  "clock_hand (set_entry i e s) = clock_hand s" "cur_thread (set_entry i e s) = cur_thread s"
  "buffer_cache_lock (set_entry i e s) = buffer_cache_lock s" "inactive_lock (set_entry i e s) = inactive_lock s"
  "active_sema (set_entry i e s) = active_sema s" "inactive_entry (set_entry i e s) = inactive_entry s"
  by (simp_all add: set_entry_def)

lemma get_entry_frame [simp]:
  "get_entry (s\<lparr>clock_hand := h\<rparr>) i = get_entry s i" "get_entry (s\<lparr>buffer_cache_lock := l\<rparr>) i = get_entry s i"
  "get_entry (s\<lparr>active_sema := n\<rparr>) i = get_entry s i" "get_entry (s\<lparr>inactive_lock := l\<rparr>) i = get_entry s i"
  "get_entry (s\<lparr>g_buffer_misses := n\<rparr>) i = get_entry s i" "get_entry (s\<lparr>g_buffer_accesses := n\<rparr>) i = get_entry s i"
  "get_entry (s\<lparr>devs := d\<rparr>) i = get_entry s i" "get_entry (s\<lparr>woken := w\<rparr>) i = get_entry s i"
  "get_entry (s\<lparr>inactive_entry := ws\<rparr>) i = get_entry s i"
  by (simp_all add: get_entry_def)

lemma get_entry_lt: "get_entry s i = Some e \<Longrightarrow> i < length (buffer_cache s)"
  by (simp add: get_entry_def split: if_splits)

lemma find_slot_Some:
  "find_slot s sector i = Some k \<Longrightarrow> \<exists>e. get_entry s k = Some e \<and> buffered_sector e = sector \<and> k < 64"
  by (induction s sector i rule: find_slot.induct, subst (asm) (3) find_slot.simps)
    (auto split: if_splits option.splits)

lemma find_slot_None:
  "find_slot s sector i = None \<Longrightarrow> i \<le> k \<Longrightarrow> k < 64 \<Longrightarrow> get_entry s k = Some e \<Longrightarrow> buffered_sector e \<noteq> sector"
proof (induction s sector i rule: find_slot.induct)
  case (1 s sector i)
  have c: "find_slot s sector i = (case get_entry s i of None \<Rightarrow> find_slot s sector (i + 1)
      | Some e \<Rightarrow> if buffered_sector e = sector then Some i else find_slot s sector (i + 1))"
    using 1(4,5) by (subst find_slot.simps) simp
  show ?case
  proof (cases "k = i")
    case True
    then show ?thesis using 1(3,6) c by (auto split: if_splits)
  next
    case False
    then show ?thesis using 1 c by (auto split: option.splits if_splits)
  qed
qed

lemma find_slot_eq:
  assumes "bc_inv dev s" "get_entry s i = Some e"
  shows "find_slot s (buffered_sector e) 0 = Some i"
proof (cases "find_slot s (buffered_sector e) 0")
  case None
  then show ?thesis using find_slot_None [of s "buffered_sector e" 0 i e] assms get_entry_lt [OF assms(2)]
    by (auto simp: bc_inv_def)
next
  case (Some k)
  then obtain e' where "get_entry s k = Some e'" "buffered_sector e' = buffered_sector e"
    using find_slot_Some by blast
  then have "k = i" using assms by (auto simp: bc_inv_def)
  with Some show ?thesis by simp
qed

lemma view_cached: "bc_inv dev s \<Longrightarrow> get_entry s i = Some e \<Longrightarrow> view dev s (buffered_sector e) = buffer e"
  by (simp add: view_def find_slot_eq)

lemma view_uncached:
  assumes "\<forall>i e. get_entry s i = Some e \<longrightarrow> buffered_sector e \<noteq> n"
  shows "view dev s n = contents (devs s dev) n"
proof (cases "find_slot s n 0")
  case None
  then show ?thesis by (simp add: view_def)
next
  case (Some k)
  then show ?thesis using find_slot_Some [OF Some] assms by blast
qed

text \<open>Two states that present the same contents: a criterion by cases.\<close>

lemma view_eqI:
  assumes "bc_inv dev s" "bc_inv dev t"
    and "\<And>i e. get_entry s i = Some e \<Longrightarrow> buffered_sector e = n \<Longrightarrow>
      (\<exists>e'. get_entry t i = Some e' \<and> buffered_sector e' = n \<and> buffer e' = buffer e)
      \<or> (\<forall>j e'. get_entry t j = Some e' \<longrightarrow> buffered_sector e' \<noteq> n) \<and> contents (devs t dev) n = buffer e"
    and "\<forall>i e. get_entry s i = Some e \<longrightarrow> buffered_sector e \<noteq> n \<Longrightarrow>
      (\<exists>j e'. get_entry t j = Some e' \<and> buffered_sector e' = n \<and> buffer e' = contents (devs s dev) n)
      \<or> (\<forall>j e'. get_entry t j = Some e' \<longrightarrow> buffered_sector e' \<noteq> n) \<and> contents (devs t dev) n = contents (devs s dev) n"
  shows "view dev t n = view dev s n"
proof (cases "\<exists>i e. get_entry s i = Some e \<and> buffered_sector e = n")
  case True
  then obtain i e where e: "get_entry s i = Some e" "buffered_sector e = n" by blast
  then have v: "view dev s n = buffer e" using view_cached [OF assms(1) e(1)] by simp
  from assms(3) [OF e] show ?thesis
  proof
    assume "\<exists>e'. get_entry t i = Some e' \<and> buffered_sector e' = n \<and> buffer e' = buffer e"
    then show ?thesis using view_cached [OF assms(2)] v by metis
  next
    assume "(\<forall>j e'. get_entry t j = Some e' \<longrightarrow> buffered_sector e' \<noteq> n) \<and> contents (devs t dev) n = buffer e"
    then show ?thesis using view_uncached v by metis
  qed
next
  case False
  then have F: "\<forall>i e. get_entry s i = Some e \<longrightarrow> buffered_sector e \<noteq> n" by blast
  then have v: "view dev s n = contents (devs s dev) n" by (rule view_uncached)
  from assms(4) [OF F] show ?thesis
  proof
    assume "\<exists>j e'. get_entry t j = Some e' \<and> buffered_sector e' = n \<and> buffer e' = contents (devs s dev) n"
    then show ?thesis using view_cached [OF assms(2)] v by metis
  next
    assume "(\<forall>j e'. get_entry t j = Some e' \<longrightarrow> buffered_sector e' \<noteq> n) \<and> contents (devs t dev) n = contents (devs s dev) n"
    then show ?thesis using view_uncached v by metis
  qed
qed

lemma entry_coreD:
  "entry_core e = entry_core e' \<Longrightarrow> buffered_sector e = buffered_sector e' \<and> sector_block e = sector_block e'
     \<and> buffer e = buffer e' \<and> dirty_bit e = dirty_bit e'"
  by (simp add: entry_core_def)

lemma bc_inv_entry: "bc_inv dev s \<Longrightarrow> get_entry s i = Some e \<Longrightarrow> entry_ok dev (devs s dev) e"
  by (simp add: bc_inv_def)

lemma bc_inv_inj:
  "bc_inv dev s \<Longrightarrow> get_entry s i = Some e \<Longrightarrow> get_entry s j = Some e' \<Longrightarrow> buffered_sector e = buffered_sector e' \<Longrightarrow> i = j"
  unfolding bc_inv_def by blast

lemma bc_invI:
  assumes "length (buffer_cache s) = 64" "clock_hand s < 64"
    "\<And>i e. get_entry s i = Some e \<Longrightarrow> entry_ok dev (devs s dev) e"
    "\<And>i j e e'. get_entry s i = Some e \<Longrightarrow> get_entry s j = Some e' \<Longrightarrow> buffered_sector e = buffered_sector e' \<Longrightarrow> i = j"
    "btype (devs s dev) \<noteq> BLOCK_FOREIGN" "\<And>n. n < bsize (devs s dev) \<Longrightarrow> length (contents (devs s dev) n) = 512"
  shows "bc_inv dev s"
  unfolding bc_inv_def using assms by blast

lemma same_core_inv: "bc_inv dev s \<Longrightarrow> same_core dev s t \<Longrightarrow> bc_inv dev t"
proof -
  assume I: "bc_inv dev s" and C: "same_core dev s t"
  have e: "\<exists>e'. get_entry s i = Some e' \<and> entry_core e' = entry_core e" if "get_entry t i = Some e" for i e
  proof -
    have "map_option entry_core (get_entry s i) = Some (entry_core e)"
      using C that by (metis same_core_def option.simps(9))
    then show ?thesis by auto
  qed
  show ?thesis
  proof (rule bc_invI)
    fix i e assume "get_entry t i = Some e"
    then obtain f where f: "get_entry s i = Some f" "entry_core f = entry_core e" using e by blast
    show "entry_ok dev (devs t dev) e"
      using bc_inv_entry [OF I f(1)] entry_coreD [OF f(2)] C by (simp add: same_core_def entry_ok_def)
  next
    fix i j e e' assume a: "get_entry t i = Some e" "get_entry t j = Some e'" "buffered_sector e = buffered_sector e'"
    obtain f f' where f: "get_entry s i = Some f" "get_entry s j = Some f'" "entry_core f = entry_core e" "entry_core f' = entry_core e'"
      using e [OF a(1)] e [OF a(2)] by blast
    show "i = j" using bc_inv_inj [OF I f(1,2)] a(3) entry_coreD [OF f(3)] entry_coreD [OF f(4)] by simp
  qed (use I C in \<open>simp_all add: bc_inv_def same_core_def\<close>)
qed

lemma same_core_view: "bc_inv dev s \<Longrightarrow> same_core dev s t \<Longrightarrow> view dev t n = view dev s n"
proof -
  assume I: "bc_inv dev s" and C: "same_core dev s t"
  have c: "map_option entry_core (get_entry t i) = map_option entry_core (get_entry s i)" for i
    using C by (simp add: same_core_def)
  show ?thesis
  proof (rule view_eqI [OF I same_core_inv [OF I C]])
    fix i e assume "get_entry s i = Some e" "buffered_sector e = n"
    then show "(\<exists>e'. get_entry t i = Some e' \<and> buffered_sector e' = n \<and> buffer e' = buffer e)
      \<or> (\<forall>j e'. get_entry t j = Some e' \<longrightarrow> buffered_sector e' \<noteq> n) \<and> contents (devs t dev) n = buffer e"
      using c [of i] by (auto simp: entry_core_def)
  next
    assume "\<forall>i e. get_entry s i = Some e \<longrightarrow> buffered_sector e \<noteq> n"
    then have "buffered_sector e' \<noteq> n" if "get_entry t j = Some e'" for j e'
      using c [of j] that by (cases "get_entry s j") (auto simp: entry_core_def)
    then show "(\<exists>j e'. get_entry t j = Some e' \<and> buffered_sector e' = n \<and> buffer e' = contents (devs s dev) n)
      \<or> (\<forall>j e'. get_entry t j = Some e' \<longrightarrow> buffered_sector e' \<noteq> n) \<and> contents (devs t dev) n = contents (devs s dev) n"
      using C by (auto simp: same_core_def)
  qed
qed

lemma same_core_refl [simp]: "same_core dev s s"
  by (simp add: same_core_def)

lemma same_core_trans: "same_core dev s t \<Longrightarrow> same_core dev t u \<Longrightarrow> same_core dev s u"
  by (simp add: same_core_def)

text \<open>Fields that only the accesses themselves change.\<close>

definition frame :: "io \<Rightarrow> io \<Rightarrow> bool" where
  "frame s t \<longleftrightarrow> cur_thread t = cur_thread s \<and> buffer_cache_lock t = buffer_cache_lock s
     \<and> active_sema t = active_sema s \<and> inactive_entry t = inactive_entry s \<and> inactive_lock t = inactive_lock s
     \<and> woken t = woken s \<and> g_buffer_misses t = g_buffer_misses s \<and> g_buffer_accesses t = g_buffer_accesses s
     \<and> (\<forall>d. bsize (devs t d) = bsize (devs s d) \<and> btype (devs t d) = btype (devs s d))"

lemma frame_refl [simp]: "frame s s"
  by (simp add: frame_def)

lemma frame_trans: "frame s t \<Longrightarrow> frame t u \<Longrightarrow> frame s u"
  by (simp add: frame_def)

lemma set_entry_same: "get_entry s i = e \<Longrightarrow> set_entry i e s = s"
  by (cases s) (auto simp: set_entry_def get_entry_def list_update_id list_update_beyond split: if_splits)

lemma set_entry_twice [simp]: "set_entry i e (set_entry i e' s) = set_entry i e s"
  by (simp add: set_entry_def)

lemma advance_hand_fields [simp]:
  "get_entry (advance_hand s) i = get_entry s i" "devs (advance_hand s) = devs s"
  "buffer_cache (advance_hand s) = buffer_cache s" "clock_hand (advance_hand s) = (clock_hand s + 1) mod 64"
  "cur_thread (advance_hand s) = cur_thread s" "buffer_cache_lock (advance_hand s) = buffer_cache_lock s"
  by (simp_all add: advance_hand_def)

lemma frame_advance [simp]: "frame s (advance_hand t) \<longleftrightarrow> frame s t"
  by (simp add: frame_def advance_hand_def)

lemma frame_set_entry [simp]: "frame s (set_entry i e t) \<longleftrightarrow> frame s t"
  by (simp add: frame_def set_entry_def)

lemma find_slot_cong: "buffer_cache t = buffer_cache s \<Longrightarrow> find_slot t n i = find_slot s n i"
proof (induction s n i rule: find_slot.induct)
  case (1 s n i)
  then have "get_entry t k = get_entry s k" for k by (simp add: get_entry_def)
  then show ?case using 1 by (subst (1 2) find_slot.simps) (auto split: option.splits)
qed

lemma view_cong: "buffer_cache t = buffer_cache s \<Longrightarrow> contents (devs t dev) = contents (devs s dev) \<Longrightarrow> view dev t = view dev s"
  by (rule ext) (simp add: view_def find_slot_cong [of t s] get_entry_def split: option.splits)

lemma bc_inv_cong:
  assumes "bc_inv dev s" "buffer_cache t = buffer_cache s" "contents (devs t dev) = contents (devs s dev)"
    "bsize (devs t dev) = bsize (devs s dev)" "btype (devs t dev) = btype (devs s dev)" "clock_hand t < 64"
  shows "bc_inv dev t"
proof -
  have "get_entry t = get_entry s" using assms(2) by (simp add: get_entry_def fun_eq_iff)
  then show ?thesis using assms by (simp add: bc_inv_def entry_ok_def)
qed

lemma bc_inv_advance: "bc_inv dev s \<Longrightarrow> bc_inv dev (advance_hand s)"
  by (erule bc_inv_cong) simp_all

lemma view_advance [simp]: "view dev (advance_hand s) = view dev s"
  by (rule view_cong) simp_all

section \<open>Eviction\<close>

lemma buffer_evict_exec:
  assumes "bc_inv dev s" "buffer_cache_lock s = Some (cur_thread s)" "get_entry s i = Some e"
    "sector_lock e = Some (cur_thread s)"
  shows "\<exists>t. buffer_evict i s = Some t \<and> bc_inv dev t \<and> view dev t = view dev s \<and> frame s t
    \<and> clock_hand t = clock_hand s
    \<and> (\<forall>j. get_entry t j = (if j = i then None else get_entry s j))
    \<and> contents (devs t dev) (buffered_sector e) = buffer e"
proof -
  let ?b = "devs s dev" and ?n = "buffered_sector e"
  have ok: "entry_ok dev ?b e" by (rule bc_inv_entry [OF assms(1,3)])
  define c where "c = (if dirty_bit e then (contents ?b)(?n := buffer e) else contents ?b)"
  have f: "sector_block e = dev" "\<not> bsize ?b \<le> ?n" "btype ?b \<noteq> BLOCK_FOREIGN"
    using ok assms(1) by (simp_all add: entry_ok_def bc_inv_def)
  define t where "t = set_entry i None (if dirty_bit e then s\<lparr>devs := (devs s)(dev :=
    ?b\<lparr>contents := c, write_cnt := write_cnt ?b + 1\<rparr>)\<rparr> else s)"
  have "buffer_evict i s = Some t"
    using assms(2-4) f by (simp add: buffer_evict_def block_write_def check_sector_def t_def c_def Let_def)
  then have t: "buffer_evict i s = Some t" "frame s t" "clock_hand t = clock_hand s"
    "buffer_cache t = (buffer_cache s)[i := None]" "contents (devs t dev) = c"
    by (simp_all add: t_def frame_def set_entry_def c_def)
  have g: "get_entry t j = (if j = i then None else get_entry s j)" for j
    using t(4) get_entry_lt [OF assms(3)] by (auto simp: get_entry_def nth_list_update)
  have cn: "c ?n = buffer e" using ok by (auto simp: c_def entry_ok_def)
  have co: "c m = contents ?b m" if "m \<noteq> ?n" for m using that by (simp add: c_def)
  have other: "buffered_sector e' \<noteq> ?n" if "get_entry t j = Some e'" for j e'
    using that g [of j] bc_inv_inj [OF assms(1) _ assms(3), of j e'] by (auto split: if_splits)
  have I: "bc_inv dev t"
  proof (rule bc_invI)
    fix j e' assume a: "get_entry t j = Some e'"
    then have "get_entry s j = Some e'" using g [of j] by (simp split: if_splits)
    then show "entry_ok dev (devs t dev) e'"
      using bc_inv_entry [OF assms(1), of j e'] t(2,5) co [OF other [OF a]] by (simp add: entry_ok_def frame_def)
  next
    fix j k e1 e2 assume "get_entry t j = Some e1" "get_entry t k = Some e2" "buffered_sector e1 = buffered_sector e2"
    then show "j = k" using g [of j] g [of k] bc_inv_inj [OF assms(1), of j e1 k e2] by (simp split: if_splits)
  next
    fix m assume "m < bsize (devs t dev)"
    then show "length (contents (devs t dev) m) = 512"
      using t(2,5) assms(1) ok by (auto simp: frame_def bc_inv_def c_def entry_ok_def)
  qed (use assms(1) t in \<open>simp_all add: bc_inv_def frame_def\<close>)
  have V: "view dev t m = view dev s m" for m
  proof (rule view_eqI [OF assms(1) I])
    fix j f assume f: "get_entry s j = Some f" "buffered_sector f = m"
    show "(\<exists>e'. get_entry t j = Some e' \<and> buffered_sector e' = m \<and> buffer e' = buffer f)
      \<or> (\<forall>j e'. get_entry t j = Some e' \<longrightarrow> buffered_sector e' \<noteq> m) \<and> contents (devs t dev) m = buffer f"
    proof (cases "j = i")
      case True
      then have "f = e" using f assms(3) by simp
      then show ?thesis using f other cn t(5) by auto
    next
      case False
      then show ?thesis using f g [of j] by simp
    qed
  next
    assume a: "\<forall>j f. get_entry s j = Some f \<longrightarrow> buffered_sector f \<noteq> m"
    then have "m \<noteq> ?n" using assms(3) by blast
    then show "(\<exists>j e'. get_entry t j = Some e' \<and> buffered_sector e' = m \<and> buffer e' = contents (devs s dev) m)
      \<or> (\<forall>j e'. get_entry t j = Some e' \<longrightarrow> buffered_sector e' \<noteq> m) \<and> contents (devs t dev) m = contents (devs s dev) m"
      using a co t(5) g by (auto split: if_splits)
  qed
  then have "view dev t = view dev s" by (rule ext)
  then show ?thesis using t I g cn by blast
qed

end
