(* ===== verification/Sector_Store.thy ===== *)
theory Sector_Store
  imports Pintos_Prelude
begin

text \<open>
  The contract between the file system and the layer that stores its sectors: an array of
  sectors of 512 bytes, of which a caller reads a range of bytes and overwrites a range (\<open>caller\<close>
  is what an access must not change: who is running). The
  locale names the laws a provider promises, and derives from them that any sequence of
  accesses has exactly the effect it has on the array.
\<close>

definition overlay :: "bytes \<Rightarrow> nat \<Rightarrow> nat \<Rightarrow> bytes \<Rightarrow> bytes" where
  "overlay old start fin input = take start old @ take (fin - start) input @ drop fin old"

lemma length_overlay [simp]:
  "start \<le> fin \<Longrightarrow> fin \<le> length old \<Longrightarrow> fin - start \<le> length input \<Longrightarrow> length (overlay old start fin input) = length old"
  by (simp add: overlay_def)

lemma overlay_read_back:
  "start \<le> fin \<Longrightarrow> fin \<le> length old \<Longrightarrow> length input = fin - start \<Longrightarrow>
     take (fin - start) (drop start (overlay old start fin input)) = input"
  by (simp add: overlay_def)

lemma overlay_all [simp]: "length old = n \<Longrightarrow> length input = n \<Longrightarrow> overlay old 0 n input = input"
  by (simp add: overlay_def)

lemma nth_overlay:
  "start \<le> fin \<Longrightarrow> fin \<le> length old \<Longrightarrow> fin - start \<le> length input \<Longrightarrow> k < length old \<Longrightarrow>
     overlay old start fin input ! k = (if start \<le> k \<and> k < fin then input ! (k - start) else old ! k)"
  by (auto simp: overlay_def nth_append)

lemma overlay_empty [simp]: "overlay old start start input = old"
  by (simp add: overlay_def)

lemma overlay_append:
  assumes "a \<le> b" "b \<le> c" "c \<le> length old" "c - a \<le> length input"
  shows "overlay (overlay old a b input) b c (drop (b - a) input) = overlay old a c input"
proof (rule nth_equalityI)
  show "length (overlay (overlay old a b input) b c (drop (b - a) input)) = length (overlay old a c input)"
    using assms by simp
  fix k assume "k < length (overlay (overlay old a b input) b c (drop (b - a) input))"
  then have k: "k < length old" using assms by simp
  show "overlay (overlay old a b input) b c (drop (b - a) input) ! k = overlay old a c input ! k"
    using assms k by (auto simp: nth_overlay)
qed

lemma take_drop_overlay:
  assumes "start \<le> fin" "fin \<le> length old" "fin - start \<le> length input" "m + i \<le> start \<or> fin \<le> i" "m + i \<le> length old"
  shows "take m (drop i (overlay old start fin input)) = take m (drop i old)"
  using assms by (intro nth_equalityI) (auto simp: nth_overlay)

datatype store_op = Read_op nat nat nat | Write_op nat bytes nat nat

fun op_valid :: "nat \<Rightarrow> store_op \<Rightarrow> bool" where
  "op_valid cap (Read_op n start fin) \<longleftrightarrow> n < cap \<and> start \<le> fin \<and> fin \<le> 512"
| "op_valid cap (Write_op n input start fin) \<longleftrightarrow> n < cap \<and> start \<le> fin \<and> fin \<le> 512 \<and> fin - start \<le> length input"

text \<open>The accesses on the array itself, and through a provider's operations. The results of the
  reads are collected in order.\<close>

fun array_ops :: "store_op list \<Rightarrow> (nat \<Rightarrow> bytes) \<Rightarrow> bytes list \<times> (nat \<Rightarrow> bytes)" where
  "array_ops [] m = ([], m)"
| "array_ops (Read_op n start fin # ops) m =
     (let (out, m') = array_ops ops m in (take (fin - start) (drop start (m n)) # out, m'))"
| "array_ops (Write_op n input start fin # ops) m = array_ops ops (m(n := overlay (m n) start fin input))"

fun store_ops :: "(nat \<Rightarrow> nat \<Rightarrow> nat \<Rightarrow> 's \<Rightarrow> (bytes \<times> 's) option) \<Rightarrow> (nat \<Rightarrow> bytes \<Rightarrow> nat \<Rightarrow> nat \<Rightarrow> 's \<Rightarrow> 's option)
    \<Rightarrow> store_op list \<Rightarrow> 's \<Rightarrow> (bytes list \<times> 's) option" where
  "store_ops rd wr [] s = Some ([], s)"
| "store_ops rd wr (Read_op n start fin # ops) s = do {
     (x, s) \<leftarrow> rd n start fin s;
     (out, s) \<leftarrow> store_ops rd wr ops s;
     Some (x # out, s) }"
| "store_ops rd wr (Write_op n input start fin # ops) s = do {
     s \<leftarrow> wr n input start fin s;
     store_ops rd wr ops s }"

locale sector_store =
  fixes ok :: "'s \<Rightarrow> bool" and sectors :: "'s \<Rightarrow> nat \<Rightarrow> bytes" and capacity :: "'s \<Rightarrow> nat"
    and caller :: "'s \<Rightarrow> 'c"
    and rd :: "nat \<Rightarrow> nat \<Rightarrow> nat \<Rightarrow> 's \<Rightarrow> (bytes \<times> 's) option"
    and wr :: "nat \<Rightarrow> bytes \<Rightarrow> nat \<Rightarrow> nat \<Rightarrow> 's \<Rightarrow> 's option"
  assumes sector_length: "ok s \<Longrightarrow> n < capacity s \<Longrightarrow> length (sectors s n) = 512"
    and rd_law: "ok s \<Longrightarrow> n < capacity s \<Longrightarrow> start \<le> fin \<Longrightarrow> fin \<le> 512 \<Longrightarrow>
      \<exists>t. rd n start fin s = Some (take (fin - start) (drop start (sectors s n)), t)
        \<and> ok t \<and> sectors t = sectors s \<and> capacity t = capacity s \<and> caller t = caller s"
    and wr_law: "ok s \<Longrightarrow> n < capacity s \<Longrightarrow> start \<le> fin \<Longrightarrow> fin \<le> 512 \<Longrightarrow> fin - start \<le> length input \<Longrightarrow>
      \<exists>t. wr n input start fin s = Some t \<and> ok t
        \<and> sectors t = (sectors s)(n := overlay (sectors s n) start fin input) \<and> capacity t = capacity s
        \<and> caller t = caller s"
begin

lemma refines_array:
  "ok s \<Longrightarrow> list_all (op_valid (capacity s)) ops \<Longrightarrow>
    \<exists>t. store_ops rd wr ops s = Some (fst (array_ops ops (sectors s)), t) \<and> ok t
      \<and> sectors t = snd (array_ops ops (sectors s)) \<and> capacity t = capacity s \<and> caller t = caller s"
proof (induction ops arbitrary: s)
  case Nil
  then show ?case by simp
next
  case (Cons op ops)
  show ?case
  proof (cases op)
    case (Read_op n start fin)
    then obtain t where t: "rd n start fin s = Some (take (fin - start) (drop start (sectors s n)), t)"
      "ok t" "sectors t = sectors s" "capacity t = capacity s" "caller t = caller s"
      using rd_law [OF Cons.prems(1), of n start fin] Cons.prems(2) by auto
    obtain u where "store_ops rd wr ops t = Some (fst (array_ops ops (sectors t)), u)" "ok u"
      "sectors u = snd (array_ops ops (sectors t))" "capacity u = capacity t" "caller u = caller t"
      using Cons.IH [OF t(2)] Cons.prems(2) t(4) by auto
    then show ?thesis using t Read_op by (simp add: split_def Let_def)
  next
    case (Write_op n input start fin)
    then obtain t where t: "wr n input start fin s = Some t"
      "ok t" "sectors t = (sectors s)(n := overlay (sectors s n) start fin input)" "capacity t = capacity s"
      "caller t = caller s"
      using wr_law [OF Cons.prems(1), of n start fin input] Cons.prems(2) by auto
    have "list_all (op_valid (capacity t)) ops" using Cons.prems(2) t(4) by simp
    from Cons.IH [OF t(2) this] show ?thesis
      unfolding Write_op t(3-5) array_ops.simps store_ops.simps t(1) bind.bind_lunit .
  qed
qed

lemma read_after_write:
  assumes "ok s" "n < capacity s" "start \<le> fin" "fin \<le> 512" "length input = fin - start"
  shows "\<exists>t. store_ops rd wr [Write_op n input start fin, Read_op n start fin] s = Some ([input], t) \<and> ok t"
  using refines_array [of s "[Write_op n input start fin, Read_op n start fin]"] assms
    overlay_read_back [of start fin "sectors s n" input] sector_length [of s n] by auto

end

end
