(* ===== verification/Buffer_Cache_Proofs.thy ===== *)
theory Buffer_Cache_Proofs
  imports Buffer_Cache Sector_Store
begin

text \<open>
  The buffer cache of \<open>devices/block.c\<close> implements a store of sectors: accesses through the
  cache behave as accesses to \<open>view\<close>, the device with the cached sectors laid over it.
\<close>

section \<open>The clock algorithm\<close>

lemma clock_loop_empty:
  "get_entry s (clock_hand s) = None \<Longrightarrow> clock_loop s = Some (clock_hand s, advance_hand s)"
  by (simp add: clock_loop.simps)

lemma entry_relock: "e\<lparr>sector_lock := sector_lock e\<rparr> = e"
  by (cases e) simp

lemma clock_loop_locked:
  assumes "get_entry s (clock_hand s) = Some e" "sector_lock e = Some other" "other \<noteq> cur_thread s"
  shows "clock_loop s = clock_loop (advance_hand s)"
proof -
  have "e\<lparr>sector_lock := Some other\<rparr> = e" using entry_relock [of e] assms(2) by metis
  then have "set_entry (clock_hand s) (Some (e\<lparr>sector_lock := Some other\<rparr>)) s = s"
    using assms(1) by (simp add: set_entry_same)
  then show ?thesis using assms
    by (subst clock_loop.simps) (simp add: lk_try_acquire_def Let_def)
qed

lemma clock_loop_used:
  assumes "get_entry s (clock_hand s) = Some e" "sector_lock e = None" "use_bit e"
  shows "clock_loop s = clock_loop (advance_hand (set_entry (clock_hand s) (Some (e\<lparr>use_bit := False\<rparr>)) s))"
proof -
  have l: "clock_hand s < length (buffer_cache s)" by (rule get_entry_lt [OF assms(1)])
  show ?thesis using assms l
    by (subst clock_loop.simps) (cases e, simp add: lk_try_acquire_def release_sector_lock_def lk_release_def Let_def)
qed

lemma clock_loop_evict:
  assumes "get_entry s (clock_hand s) = Some e" "sector_lock e = None" "\<not> use_bit e"
  shows "clock_loop s = do {
    t \<leftarrow> buffer_evict (clock_hand s) (set_entry (clock_hand s) (Some (e\<lparr>sector_lock := Some (cur_thread s)\<rparr>)) s);
    Some (clock_hand s, advance_hand t) }"
  using assms by (subst clock_loop.simps) (simp add: lk_try_acquire_def Let_def)

text \<open>Changing the use bit or the lock of an entry is invisible.\<close>

lemma same_core_set_entry:
  assumes "get_entry s i = Some e" "entry_core e' = entry_core e"
  shows "same_core dev s (set_entry i (Some e') s)"
  using assms get_entry_lt [OF assms(1)] by (simp add: same_core_def)

lemma entry_core_upd [simp]:
  "entry_core (e\<lparr>use_bit := u\<rparr>) = entry_core e" "entry_core (e\<lparr>sector_lock := l\<rparr>) = entry_core e"
  by (simp_all add: entry_core_def)

definition evictable :: "io \<Rightarrow> nat \<Rightarrow> bool" where
  "evictable s j \<longleftrightarrow> j < 64 \<and> (case get_entry s j of None \<Rightarrow> True | Some e \<Rightarrow> sector_lock e = None)"

text \<open>Entries that only lose their use bit, apart from the slot that is freed.\<close>

definition thinned :: "io \<Rightarrow> io \<Rightarrow> bool" where
  "thinned s t \<longleftrightarrow> (\<forall>i e. get_entry t i = Some e \<longrightarrow>
     (\<exists>e0. get_entry s i = Some e0 \<and> entry_core e = entry_core e0 \<and> sector_lock e = sector_lock e0))"

lemma thinned_refl [simp]: "thinned s s"
  by (auto simp: thinned_def)

lemma thinned_trans: "thinned s t \<Longrightarrow> thinned t u \<Longrightarrow> thinned s u"
  unfolding thinned_def by metis

lemma thinned_advance [simp]: "thinned s (advance_hand t) \<longleftrightarrow> thinned s t" "thinned (advance_hand s) t \<longleftrightarrow> thinned s t"
  by (simp_all add: thinned_def)

text \<open>No entry but the one in slot \<open>h\<close> is lost, and a locked entry is not touched.\<close>

definition spared :: "nat \<Rightarrow> io \<Rightarrow> io \<Rightarrow> bool" where
  "spared h s t \<longleftrightarrow> (\<forall>i e. get_entry s i = Some e \<longrightarrow>
     (i \<noteq> h \<longrightarrow> (\<exists>e'. get_entry t i = Some e' \<and> entry_core e' = entry_core e \<and> sector_lock e' = sector_lock e)) \<and>
     (sector_lock e \<noteq> None \<longrightarrow> get_entry t i = Some e))"

lemma spared_advance [simp]: "spared h s (advance_hand t) \<longleftrightarrow> spared h s t" "spared h (advance_hand s) t \<longleftrightarrow> spared h s t"
  by (simp_all add: spared_def)

lemma spared_use_bit:
  assumes "get_entry s i = Some e" "sector_lock e = None" "spared h (set_entry i (Some (e\<lparr>use_bit := u\<rparr>)) s) t"
  shows "spared h s t"
  unfolding spared_def
proof (intro allI impI)
  fix j f assume f: "get_entry s j = Some f"
  define g where "g = (if j = i then e\<lparr>use_bit := u\<rparr> else f)"
  have g: "get_entry (set_entry i (Some (e\<lparr>use_bit := u\<rparr>)) s) j = Some g"
    using f get_entry_lt [OF assms(1)] by (simp add: g_def)
  have c: "entry_core g = entry_core f" "sector_lock g = sector_lock f" "sector_lock f \<noteq> None \<Longrightarrow> g = f"
    using f assms(1,2) by (auto simp: g_def)
  from assms(3) [unfolded spared_def, rule_format, OF g]
  show "(j \<noteq> h \<longrightarrow> (\<exists>e'. get_entry t j = Some e' \<and> entry_core e' = entry_core f \<and> sector_lock e' = sector_lock f)) \<and>
     (sector_lock f \<noteq> None \<longrightarrow> get_entry t j = Some f)"
    using c by (simp add: c(1,2))
qed

lemma frame_advance_left [simp]: "frame (advance_hand s) t \<longleftrightarrow> frame s t"
  by (simp add: frame_def advance_hand_def)

definition used_entries :: "io \<Rightarrow> nat set" where
  "used_entries s = {i. \<exists>e. get_entry s i = Some e \<and> use_bit e}"

lemma used_entries_finite: "finite (used_entries s)"
proof (rule finite_subset)
  show "used_entries s \<subseteq> {..< length (buffer_cache s)}" using get_entry_lt by (auto simp: used_entries_def)
qed simp

definition hand_distance :: "nat \<Rightarrow> io \<Rightarrow> nat" where
  "hand_distance j s = (if clock_hand s \<le> j then j - clock_hand s else j + 64 - clock_hand s)"

lemma hand_distance_advance:
  "j < 64 \<Longrightarrow> clock_hand s < 64 \<Longrightarrow> clock_hand s \<noteq> j \<Longrightarrow> hand_distance j (advance_hand s) < hand_distance j s"
  by (cases "clock_hand s = 63") (auto simp: hand_distance_def)

lemma hand_distance_bound: "j < 64 \<Longrightarrow> clock_hand s < 64 \<Longrightarrow> hand_distance j s < 64"
  by (auto simp: hand_distance_def)

lemma clock_loop_spec:
  assumes "bc_inv dev s" "buffer_cache_lock s = Some (cur_thread s)" "evictable s j"
    "\<And>i e. get_entry s i = Some e \<Longrightarrow> sector_lock e \<noteq> Some (cur_thread s)"
  shows "\<exists>h t. clock_loop s = Some (h, t) \<and> h < 64 \<and> get_entry t h = None \<and> bc_inv dev t
    \<and> view dev t = view dev s \<and> frame s t \<and> thinned s t \<and> spared h s t"
  using assms
proof (induction "64 * card (used_entries s) + hand_distance j s" arbitrary: s rule: less_induct)
  case less
  let ?h = "clock_hand s"
  have h: "?h < 64" "length (buffer_cache s) = 64" using less.prems(1) by (auto simp: bc_inv_def)
  have j: "j < 64" using less.prems(3) by (simp add: evictable_def)
  show ?case
  proof (cases "get_entry s ?h")
    case None
    then show ?thesis using clock_loop_empty h bc_inv_advance [OF less.prems(1)] by (auto simp: spared_def)
  next
    case (Some e)
    show ?thesis
    proof (cases "sector_lock e")
      case l: (Some other)
      then have o: "other \<noteq> cur_thread s" "?h \<noteq> j"
        using less.prems(3,4) Some by (auto simp: evictable_def)
      have "\<exists>h t. clock_loop (advance_hand s) = Some (h, t) \<and> h < 64 \<and> get_entry t h = None \<and> bc_inv dev t
          \<and> view dev t = view dev (advance_hand s) \<and> frame (advance_hand s) t \<and> thinned (advance_hand s) t \<and> spared h (advance_hand s) t"
      proof (rule less.hyps)
        have "used_entries (advance_hand s) = used_entries s" by (simp add: used_entries_def)
        then show "64 * card (used_entries (advance_hand s)) + hand_distance j (advance_hand s)
            < 64 * card (used_entries s) + hand_distance j s"
          using hand_distance_advance [OF j h(1) o(2)] by simp
      qed (use less.prems bc_inv_advance in \<open>auto simp: evictable_def\<close>)
      then show ?thesis using clock_loop_locked [OF Some l o(1)] by auto
    next
      case l: None
      show ?thesis
      proof (cases "use_bit e")
        case True
        let ?s = "set_entry ?h (Some (e\<lparr>use_bit := False\<rparr>)) s"
        have c: "same_core dev s ?s" by (rule same_core_set_entry [OF Some]) simp
        have th: "thinned s ?s" using Some h by (auto simp: thinned_def)
        have "\<exists>h t. clock_loop (advance_hand ?s) = Some (h, t) \<and> h < 64 \<and> get_entry t h = None \<and> bc_inv dev t
          \<and> view dev t = view dev (advance_hand ?s) \<and> frame (advance_hand ?s) t \<and> thinned (advance_hand ?s) t \<and> spared h (advance_hand ?s) t"
        proof (rule less.hyps)
          have "used_entries (advance_hand ?s) = used_entries s - {?h}" "?h \<in> used_entries s"
            using Some True h by (auto simp: used_entries_def)
          then have "card (used_entries (advance_hand ?s)) + 1 = card (used_entries s)"
            using used_entries_finite [of s] by (metis Suc_eq_plus1 card_Suc_Diff1)
          moreover have "hand_distance j (advance_hand ?s) < 64" using j by (intro hand_distance_bound) simp_all
          ultimately show "64 * card (used_entries (advance_hand ?s)) + hand_distance j (advance_hand ?s)
            < 64 * card (used_entries s) + hand_distance j s" by linarith
          show "bc_inv dev (advance_hand ?s)"
            by (rule bc_inv_advance [OF same_core_inv [OF less.prems(1) c]])
          show "evictable (advance_hand ?s) j" using less.prems(3) Some l h by (auto simp: evictable_def)
          show "sector_lock e' \<noteq> Some (cur_thread (advance_hand ?s))" if "get_entry (advance_hand ?s) i = Some e'" for i e'
            using that less.prems(4) l h by (auto split: if_splits)
        qed (use less.prems(2) in simp)
        then obtain h' t where t: "clock_loop (advance_hand ?s) = Some (h', t)" "h' < 64" "get_entry t h' = None" "bc_inv dev t"
          "view dev t = view dev ?s" "frame ?s t" "thinned ?s t" "spared h' ?s t" by auto
        have "view dev ?s = view dev s" using same_core_view [OF less.prems(1) c] by (rule ext)
        moreover have "frame s t" using frame_trans [OF _ t(6)] by simp
        moreover have "spared h' s t" by (rule spared_use_bit [OF Some l t(8)])
        ultimately show ?thesis using clock_loop_used [OF Some l True] t thinned_trans [OF th t(7)] by simp
      next
        case False
        let ?e = "e\<lparr>sector_lock := Some (cur_thread s)\<rparr>"
        let ?s = "set_entry ?h (Some ?e) s"
        have c: "same_core dev s ?s" by (rule same_core_set_entry [OF Some]) simp
        obtain t where t: "buffer_evict ?h ?s = Some t" "bc_inv dev t" "view dev t = view dev ?s" "frame ?s t"
          "\<forall>i. get_entry t i = (if i = ?h then None else get_entry ?s i)"
          using buffer_evict_exec [OF same_core_inv [OF less.prems(1) c], of ?h ?e] less.prems(2) h by auto
        have "view dev ?s = view dev s" using same_core_view [OF less.prems(1) c] by (rule ext)
        moreover have "thinned s t" using t(5) by (auto simp: thinned_def split: if_splits)
        moreover have "spared ?h s t" using t(5) Some l by (auto simp: spared_def)
        moreover have "frame s t" using t(4) by (metis frame_refl frame_set_entry frame_trans)
        ultimately show ?thesis using clock_loop_evict [OF Some l False] t h(1) bc_inv_advance [OF t(2)] by auto
      qed
    qed
  qed
qed

text \<open>Second chance. The hand has passed the slots \<open>c, \<dots>, c + n - 1\<close> (modulo 64) when it is at \<open>c + n\<close>.\<close>

definition busy :: "io \<Rightarrow> nat \<Rightarrow> bool" where
  "busy s i \<longleftrightarrow> (\<exists>e. get_entry s i = Some e \<and> (sector_lock e \<noteq> None \<or> use_bit e))"

definition passed :: "nat \<Rightarrow> nat \<Rightarrow> nat set" where
  "passed c n = (\<lambda>m. (c + m) mod 64) ` {..< n}"

definition passing_by :: "io \<Rightarrow> nat \<Rightarrow> io \<Rightarrow> bool" where
  "passing_by s n t \<longleftrightarrow> clock_hand s < 64 \<and> length (buffer_cache t) = 64 \<and> clock_hand t = (clock_hand s + n) mod 64
     \<and> (\<forall>i \<in> passed (clock_hand s) n. busy s i) \<and> (\<forall>i. i \<notin> passed (clock_hand s) n \<longrightarrow> get_entry t i = get_entry s i)"

lemma passed_Suc: "passed c (Suc n) = insert ((c + n) mod 64) (passed c n)"
  by (simp add: passed_def lessThan_Suc)

lemma passed_all:
  assumes "(c + n) mod 64 \<in> passed c n" "i < 64" "c < 64"
  shows "i \<in> passed c n"
proof -
  obtain m where m: "m < n" "(c + n) mod 64 = (c + m) mod 64" using assms(1) by (auto simp: passed_def)
  then have "64 dvd n - m" using mod_eq_dvd_iff_nat [of "c + m" "c + n" 64] by simp
  then have "64 \<le> n" using m(1) dvd_imp_le [of 64 "n - m"] by simp
  moreover have "(c + (if c \<le> i then i - c else i + 64 - c)) mod 64 = i" using assms(2,3) by simp
  ultimately show ?thesis unfolding passed_def using assms(2,3)
    by (intro image_eqI [of _ _ "if c \<le> i then i - c else i + 64 - c"]) auto
qed

lemma passing_by_step:
  assumes P: "passing_by s n t" and b: "busy s (clock_hand t)" and n: "clock_hand t \<notin> passed (clock_hand s) n"
    and u: "length (buffer_cache u) = 64" "clock_hand u = clock_hand t" "\<And>i. i \<noteq> clock_hand t \<Longrightarrow> get_entry u i = get_entry t i"
  shows "passing_by s (Suc n) (advance_hand u)"
  using assms by (auto simp: passing_by_def passed_Suc mod_simps)

lemma second_chance_aux:
  assumes "clock_loop t = Some (h, u)" "passing_by s n t" "get_entry s h = Some e" "use_bit e" "i < 64"
  shows "busy s i"
proof -
  let ?P = "\<lambda>t r. \<forall>n. passing_by s n t \<longrightarrow> (\<forall>e. get_entry s (fst r) = Some e \<longrightarrow> use_bit e \<longrightarrow> (\<forall>i < 64. busy s i))"
  have "?P t (h, u)"
  proof (rule clock_loop.raw_induct [where P = ?P, OF _ assms(1)])
    fix loop :: "io \<Rightarrow> (nat \<times> io) option" and t r
    assume IH: "\<And>t r. loop t = Some r \<Longrightarrow> ?P t r"
      and B: "(let h = clock_hand t in
        case get_entry t h of
          None \<Rightarrow> Some (h, advance_hand t)
        | Some e \<Rightarrow> do {
            (got, l) \<leftarrow> lk_try_acquire (cur_thread t) (sector_lock e);
            let s = set_entry h (Some (e\<lparr>sector_lock := l\<rparr>)) t;
            if got then
              if use_bit e then do {
                let s = set_entry h (Some (e\<lparr>sector_lock := l, use_bit := False\<rparr>)) s;
                s \<leftarrow> release_sector_lock h s;
                loop (advance_hand s) }
              else do {
                s \<leftarrow> buffer_evict h s;
                Some (h, advance_hand s) }
            else loop (advance_hand s) }) = Some r"
    show "?P t r"
    proof (intro allI impI)
      fix n e i assume P: "passing_by s n t" and e: "get_entry s (fst r) = Some e" "use_bit e" and i: "i < (64 :: nat)"
      have h: "clock_hand t = (clock_hand s + n) mod 64" "clock_hand t < 64" "clock_hand s < 64" "length (buffer_cache t) = 64"
        using P by (auto simp: passing_by_def)
      show "busy s i"
      proof (cases "clock_hand t \<in> passed (clock_hand s) n")
        case True
        then show ?thesis using passed_all [of "clock_hand s" n i] h i P by (auto simp: passing_by_def)
      next
        case False
        then have g: "get_entry t (clock_hand t) = get_entry s (clock_hand t)" using P by (simp add: passing_by_def)
        have next_round: "busy s i" if "loop (advance_hand u) = Some r" "busy s (clock_hand t)" "length (buffer_cache u) = 64" "clock_hand u = clock_hand t"
          "\<And>i. i \<noteq> clock_hand t \<Longrightarrow> get_entry u i = get_entry t i" for u
          using IH [OF that(1)] passing_by_step [OF P that(2) False that(3-5)] e i by blast
        show ?thesis
        proof (cases "get_entry t (clock_hand t)")
          case None
          then have "fst r = clock_hand t" using B by (auto simp: Let_def)
          then show ?thesis using e(1) g None by simp
        next
          case (Some f)
          show ?thesis
          proof (cases "sector_lock f")
            case None
            show ?thesis
            proof (cases "use_bit f")
              case True
              have "\<exists>u. loop (advance_hand u) = Some r \<and> length (buffer_cache u) = 64 \<and> clock_hand u = clock_hand t
                  \<and> (\<forall>i. i \<noteq> clock_hand t \<longrightarrow> get_entry u i = get_entry t i)"
                using B Some None True h by (auto simp: lk_try_acquire_def Let_def bind_eq_Some_conv release_sector_lock_def)
              then show ?thesis using next_round Some True g by (auto simp: busy_def)
            next
              case False
              then have "fst r = clock_hand t" using B Some None by (auto simp: lk_try_acquire_def Let_def bind_eq_Some_conv)
              then show ?thesis using e g Some False by simp
            qed
          next
            case l: (Some other)
            then have q: "loop (advance_hand (set_entry (clock_hand t) (Some (f\<lparr>sector_lock := Some other\<rparr>)) t)) = Some r"
              using B Some by (auto simp: lk_try_acquire_def Let_def bind_eq_Some_conv split: if_splits)
            have "busy s (clock_hand t)" using Some l g by (auto simp: busy_def)
            from next_round [OF q this] show ?thesis using h(4) by simp
          qed
        qed
      qed
    qed
  qed
  then show ?thesis using assms by auto
qed

lemma second_chance:
  assumes "clock_loop s = Some (h, t)" "clock_hand s < 64" "length (buffer_cache s) = 64"
  shows "\<forall>e. get_entry s h = Some e \<longrightarrow> use_bit e \<longrightarrow> (\<forall>i < 64. busy s i)"
  using second_chance_aux [OF assms(1), of s 0] assms(2,3) by (auto simp: passing_by_def passed_def)

section \<open>Accesses through the cache\<close>

lemma finish_access_exec:
  assumes "inactive_lock s = None"
  shows "finish_access s = Some (s\<lparr>active_sema := active_sema s + 1, woken := woken s @ inactive_entry s,
    inactive_entry := []\<rparr>)"
  using assms by (cases s)
    (auto simp: finish_access_def lk_acquire_def lk_release_def cond_broadcast_inactive_def Let_def)

lemma relock_cache: "buffer_cache_lock s = None \<Longrightarrow> s\<lparr>buffer_cache_lock := None\<rparr> = s"
  by (cases s) simp

lemma acquire_hit:
  assumes "buffer_cache_lock s = None" "find_slot s n 0 = Some i" "get_entry s i = Some e" "sector_lock e = None"
  shows "acquire_buffer_entry_lock n s =
    Some (Some i, set_entry i (Some (e\<lparr>sector_lock := Some (cur_thread s), use_bit := True\<rparr>)) s)"
proof -
  let ?s = "s\<lparr>buffer_cache_lock := Some (cur_thread s)\<rparr>"
  let ?e = "e\<lparr>sector_lock := Some (cur_thread s), use_bit := True\<rparr>"
  have "acquire_cache_lock s = Some ?s" using assms(1) by (simp add: acquire_cache_lock_def lk_acquire_def)
  moreover have "find_slot ?s n 0 = Some i" using assms(2) find_slot_cong [of ?s s] by simp
  moreover have "acquire_sector_lock i ?s = Some (set_entry i (Some (e\<lparr>sector_lock := Some (cur_thread s)\<rparr>)) ?s)"
    using assms(3,4) by (simp add: acquire_sector_lock_def lk_acquire_def)
  moreover have "release_cache_lock (set_entry i (Some ?e) ?s) = Some (set_entry i (Some ?e) s)"
    using assms(1) by (cases s) (simp add: release_cache_lock_def lk_release_def set_entry_def)
  ultimately show ?thesis
    using get_entry_lt [OF assms(3)] by (simp add: acquire_buffer_entry_lock_def)
qed

lemma acquire_miss:
  assumes "buffer_cache_lock s = None" "find_slot s n 0 = None"
  shows "acquire_buffer_entry_lock n s = Some (None, s)"
proof -
  have "find_slot (s\<lparr>buffer_cache_lock := Some (cur_thread s)\<rparr>) n 0 = None"
    using assms(2) find_slot_cong [of "s\<lparr>buffer_cache_lock := Some (cur_thread s)\<rparr>" s] by simp
  then show ?thesis using assms
    by (simp add: acquire_buffer_entry_lock_def acquire_cache_lock_def release_cache_lock_def lk_acquire_def
        lk_release_def relock_cache)
qed

text \<open>The state after a hit on slot \<open>i\<close> whose entry becomes \<open>e\<close>.\<close>

definition after_access :: "nat \<Rightarrow> buffer_entry \<Rightarrow> io \<Rightarrow> io" where
  "after_access i e s = (set_entry i (Some e) s)\<lparr>g_buffer_accesses := g_buffer_accesses s + 1,
     woken := woken s @ inactive_entry s, inactive_entry := []\<rparr>"

lemma entry_unlocked: "sector_lock e = None \<Longrightarrow> e\<lparr>sector_lock := None\<rparr> = e"
  by (cases e) simp

lemma read_hit:
  assumes "idle s" "find_slot s n 0 = Some i" "get_entry s i = Some e" "length (buffer e) = 512"
    "start \<le> fin" "fin \<le> 512"
  shows "read_buffered dev n start fin s =
    Some (take (fin - start) (drop start (buffer e)), after_access i (e\<lparr>use_bit := True\<rparr>) s)"
proof -
  have l: "sector_lock e = None" "buffer_cache_lock s = None" "inactive_lock s = None" "active_sema s > 0"
    using assms(1,3) by (auto simp: idle_def)
  show ?thesis
    unfolding read_buffered_def using assms(4-6) l get_entry_lt [OF assms(3)] acquire_hit [OF l(2) assms(2,3) l(1)]
    by (subst read_go.simps)
      (cases s, cases e, simp add: sema_try_down_active_def bounded_read_def release_sector_lock_def lk_release_def
        finish_access_exec after_access_def set_entry_def get_entry_def Let_def)
qed

lemma write_hit:
  assumes "idle s" "find_slot s n 0 = Some i" "get_entry s i = Some e" "length (buffer e) = 512"
    "start \<le> fin" "fin \<le> 512" "fin - start \<le> length input"
  shows "write_buffered dev n input start fin s =
    Some (after_access i (e\<lparr>use_bit := True, dirty_bit := True,
      buffer := take start (buffer e) @ take (fin - start) input @ drop fin (buffer e)\<rparr>) s)"
proof -
  have l: "sector_lock e = None" "buffer_cache_lock s = None" "inactive_lock s = None" "active_sema s > 0"
    using assms(1,3) by (auto simp: idle_def)
  show ?thesis
    unfolding write_buffered_def using assms(4-7) l get_entry_lt [OF assms(3)] acquire_hit [OF l(2) assms(2,3) l(1)]
    by (subst write_go.simps)
      (cases s, cases e, simp add: sema_try_down_active_def bounded_write_def release_sector_lock_def lk_release_def
        finish_access_exec after_access_def set_entry_def get_entry_def Let_def)
qed

text \<open>The state in which a miss looks for a victim.\<close>

definition miss_state :: "nat \<Rightarrow> io \<Rightarrow> io" where
  "miss_state dev s = s\<lparr>buffer_cache_lock := Some (cur_thread s), active_sema := active_sema s - 1,
     g_buffer_misses := g_buffer_misses s + 1,
     devs := (devs s)(dev := (devs s dev)\<lparr>read_cnt := read_cnt (devs s dev) + 1\<rparr>)\<rparr>"

definition after_miss :: "nat \<Rightarrow> buffer_entry \<Rightarrow> io \<Rightarrow> io" where
  "after_miss h e s = (set_entry h (Some e) s)\<lparr>g_buffer_accesses := g_buffer_accesses s + 1,
     buffer_cache_lock := None, active_sema := active_sema s + 1,
     woken := woken s @ inactive_entry s, inactive_entry := []\<rparr>"

lemma set_entry_misc:
  "set_entry i e (s\<lparr>g_buffer_accesses := n\<rparr>) = (set_entry i e s)\<lparr>g_buffer_accesses := n\<rparr>"
  "woken (set_entry i e s) = woken s" "g_buffer_accesses (set_entry i e s) = g_buffer_accesses s"
  by (simp_all add: set_entry_def)

lemma read_miss:
  assumes "idle s" "find_slot s n 0 = None" "n < bsize (devs s dev)" "length (contents (devs s dev) n) = 512"
    "start \<le> fin" "fin \<le> 512"
    and "clock_loop (miss_state dev s) = Some (h, t)" "frame (miss_state dev s) t" "get_entry t h = None"
  shows "read_buffered dev n start fin s =
    Some (take (fin - start) (drop start (contents (devs s dev) n)),
      after_miss h \<lparr>buffered_sector = n, sector_block = dev, buffer = contents (devs s dev) n, use_bit = True,
        dirty_bit = False, sector_lock = None\<rparr> t)"
proof -
  let ?s = "s\<lparr>buffer_cache_lock := Some (cur_thread s)\<rparr>"
  let ?e = "\<lparr>buffered_sector = n, sector_block = dev, buffer = contents (devs s dev) n, use_bit = True,
        dirty_bit = False, sector_lock = None\<rparr>"
  have l: "buffer_cache_lock s = None" "inactive_lock s = None" "active_sema s > 0"
    using assms(1) by (auto simp: idle_def)
  have a: "acquire_cache_lock s = Some ?s" using l by (simp add: acquire_cache_lock_def lk_acquire_def)
  have c: "check_sector_cached n ?s = Some False"
    using assms(2) find_slot_cong [of ?s s] by (simp add: check_sector_cached_def)
  have r: "block_read dev n (?s\<lparr>active_sema := active_sema s - Suc 0, g_buffer_misses := Suc (g_buffer_misses s)\<rparr>)
      = Some (contents (devs s dev) n, miss_state dev s)"
    using assms(3) by (simp add: block_read_def check_sector_def miss_state_def Let_def)
  have e: "clock_algorithm_evict (miss_state dev s) = Some (h, t)"
    using assms(7) by (simp add: clock_algorithm_evict_def miss_state_def)
  have t: "buffer_cache_lock t = Some (cur_thread t)" "inactive_lock t = None"
    using assms(8) l by (auto simp: frame_def miss_state_def)
  have f: "release_cache_lock ((set_entry h (Some ?e) t)\<lparr>g_buffer_accesses := Suc (g_buffer_accesses t)\<rparr>)
      = Some ((set_entry h (Some ?e) t)\<lparr>g_buffer_accesses := Suc (g_buffer_accesses t), buffer_cache_lock := None\<rparr>)"
    using t by (simp add: release_cache_lock_def lk_release_def)
  have "read_go True dev n start fin s = Some (take (fin - start) (drop start (contents (devs s dev) n)), after_miss h ?e t)"
    using assms(4-6,9) l t
    by (subst read_go.simps)
      (simp add: a c r e f sema_try_down_active_def bounded_read_def finish_access_exec after_miss_def Let_def set_entry_misc)
  then show ?thesis unfolding read_buffered_def
    by (subst read_go.simps) (simp add: acquire_miss [OF l(1) assms(2)])
qed

lemma write_miss:
  assumes "idle s" "find_slot s n 0 = None" "n < bsize (devs s dev)" "length (contents (devs s dev) n) = 512"
    "start \<le> fin" "fin \<le> 512" "fin - start \<le> length input"
    and "clock_loop (miss_state dev s) = Some (h, t)" "frame (miss_state dev s) t" "get_entry t h = None"
  shows "write_buffered dev n input start fin s =
    Some (after_miss h \<lparr>buffered_sector = n, sector_block = dev,
      buffer = take start (contents (devs s dev) n) @ take (fin - start) input @ drop fin (contents (devs s dev) n),
      use_bit = True, dirty_bit = True, sector_lock = None\<rparr> t)"
proof -
  let ?s = "s\<lparr>buffer_cache_lock := Some (cur_thread s)\<rparr>"
  let ?e = "\<lparr>buffered_sector = n, sector_block = dev,
      buffer = take start (contents (devs s dev) n) @ take (fin - start) input @ drop fin (contents (devs s dev) n),
      use_bit = True, dirty_bit = True, sector_lock = None\<rparr>"
  have l: "buffer_cache_lock s = None" "inactive_lock s = None" "active_sema s > 0"
    using assms(1) by (auto simp: idle_def)
  have a: "acquire_cache_lock s = Some ?s" using l by (simp add: acquire_cache_lock_def lk_acquire_def)
  have c: "check_sector_cached n ?s = Some False"
    using assms(2) find_slot_cong [of ?s s] by (simp add: check_sector_cached_def)
  have r: "block_read dev n (?s\<lparr>active_sema := active_sema s - Suc 0, g_buffer_misses := Suc (g_buffer_misses s)\<rparr>)
      = Some (contents (devs s dev) n, miss_state dev s)"
    using assms(3) by (simp add: block_read_def check_sector_def miss_state_def Let_def)
  have e: "clock_algorithm_evict (miss_state dev s) = Some (h, t)"
    using assms(8) by (simp add: clock_algorithm_evict_def miss_state_def)
  have t: "buffer_cache_lock t = Some (cur_thread t)" "inactive_lock t = None"
    using assms(9) l by (auto simp: frame_def miss_state_def)
  have f: "release_cache_lock ((set_entry h (Some ?e) t)\<lparr>g_buffer_accesses := Suc (g_buffer_accesses t)\<rparr>)
      = Some ((set_entry h (Some ?e) t)\<lparr>g_buffer_accesses := Suc (g_buffer_accesses t), buffer_cache_lock := None\<rparr>)"
    using t by (simp add: release_cache_lock_def lk_release_def)
  have "write_go True dev n input start fin s = Some (after_miss h ?e t)"
    using assms(4-7,10) l t
    by (subst write_go.simps)
      (simp add: a c r e f sema_try_down_active_def bounded_write_def finish_access_exec after_miss_def Let_def set_entry_misc)
  then show ?thesis unfolding write_buffered_def
    by (subst write_go.simps) (simp add: acquire_miss [OF l(1) assms(2)])
qed

text \<open>Placing an entry in a slot.\<close>

lemma place_entry:
  assumes I: "bc_inv dev s" and e: "entry_ok dev (devs s dev) e" and "i < 64"
    and u: "\<And>j e'. get_entry s j = Some e' \<Longrightarrow> buffered_sector e' = buffered_sector e \<Longrightarrow> j = i"
    and o: "\<And>e'. get_entry s i = Some e' \<Longrightarrow> buffered_sector e' = buffered_sector e"
  shows "bc_inv dev (set_entry i (Some e) s) \<and>
    view dev (set_entry i (Some e) s) = (view dev s)(buffered_sector e := buffer e)"
proof -
  let ?t = "set_entry i (Some e) s"
  have l: "length (buffer_cache s) = 64" using I by (simp add: bc_inv_def)
  have g: "get_entry ?t j = (if j = i then Some e else get_entry s j)" for j using l assms(3) by simp
  have It: "bc_inv dev ?t"
  proof (rule bc_invI)
    fix j e' assume "get_entry ?t j = Some e'"
    then show "entry_ok dev (devs ?t dev) e'" using g [of j] e bc_inv_entry [OF I, of j e'] by (auto split: if_splits)
  next
    fix j k e1 e2 assume a: "get_entry ?t j = Some e1" "get_entry ?t k = Some e2" "buffered_sector e1 = buffered_sector e2"
    show "j = k"
    proof (cases "j = i"; cases "k = i")
      assume b: "j = i" "k \<noteq> i"
      then have "e1 = e" "get_entry s k = Some e2" using a g [of j] g [of k] by simp_all
      then show ?thesis using u [of k e2] a(3) b by simp
    next
      assume b: "j \<noteq> i" "k = i"
      then have "e2 = e" "get_entry s j = Some e1" using a g [of j] g [of k] by simp_all
      then show ?thesis using u [of j e1] a(3) b by simp
    next
      assume "j \<noteq> i" "k \<noteq> i"
      then have "get_entry s j = Some e1" "get_entry s k = Some e2" using a g [of j] g [of k] by simp_all
      then show ?thesis by (rule bc_inv_inj [OF I _ _ a(3)])
    qed simp
  qed (use I in \<open>simp_all add: bc_inv_def\<close>)
  have "view dev ?t m = ((view dev s)(buffered_sector e := buffer e)) m" for m
  proof (cases "m = buffered_sector e")
    case True
    then show ?thesis using view_cached [OF It, of i e] g [of i] by simp
  next
    case False
    have "view dev ?t m = view dev s m"
    proof (rule view_eqI [OF I It])
      fix j f assume f: "get_entry s j = Some f" "buffered_sector f = m"
      then have "j \<noteq> i" using o [of f] False by auto
      then show "(\<exists>e'. get_entry ?t j = Some e' \<and> buffered_sector e' = m \<and> buffer e' = buffer f)
        \<or> (\<forall>j e'. get_entry ?t j = Some e' \<longrightarrow> buffered_sector e' \<noteq> m) \<and> contents (devs ?t dev) m = buffer f"
        using f g [of j] by simp
    next
      assume "\<forall>j e'. get_entry s j = Some e' \<longrightarrow> buffered_sector e' \<noteq> m"
      then have "\<forall>j e'. get_entry ?t j = Some e' \<longrightarrow> buffered_sector e' \<noteq> m" using False by (simp add: g)
      then show "(\<exists>j e'. get_entry ?t j = Some e' \<and> buffered_sector e' = m \<and> buffer e' = contents (devs s dev) m)
        \<or> (\<forall>j e'. get_entry ?t j = Some e' \<longrightarrow> buffered_sector e' \<noteq> m) \<and> contents (devs ?t dev) m = contents (devs s dev) m"
        by simp
    qed
    then show ?thesis using False by simp
  qed
  with It show ?thesis by auto
qed

lemma bc_inv_hand: "bc_inv dev s \<Longrightarrow> clock_hand s < 64 \<and> length (buffer_cache s) = 64"
  by (simp add: bc_inv_def)

lemma bc_inv_cong_hand:
  assumes "bc_inv dev s" "buffer_cache t = buffer_cache s" "contents (devs t dev) = contents (devs s dev)"
    "bsize (devs t dev) = bsize (devs s dev)" "btype (devs t dev) = btype (devs s dev)" "clock_hand t = clock_hand s"
  shows "bc_inv dev t"
  by (rule bc_inv_cong [OF assms(1-5)]) (use bc_inv_hand [OF assms(1)] assms(6) in simp)

definition cache_ok :: "nat \<Rightarrow> io \<Rightarrow> bool" where
  "cache_ok dev s \<longleftrightarrow> bc_inv dev s \<and> idle s"

lemma view_length: "bc_inv dev s \<Longrightarrow> n < bsize (devs s dev) \<Longrightarrow> length (view dev s n) = 512"
proof -
  assume I: "bc_inv dev s" and n: "n < bsize (devs s dev)"
  show ?thesis
  proof (cases "find_slot s n 0")
    case None
    then show ?thesis using I n by (simp add: view_def bc_inv_def)
  next
    case (Some i)
    then obtain e where "get_entry s i = Some e" using find_slot_Some by blast
    then show ?thesis using Some bc_inv_entry [OF I] by (simp add: view_def entry_ok_def)
  qed
qed

lemma after_access_ok:
  assumes "cache_ok dev s" "get_entry s i = Some e" "entry_ok dev (devs s dev) e'"
    "buffered_sector e' = buffered_sector e" "sector_lock e' = None"
  shows "cache_ok dev (after_access i e' s) \<and> view dev (after_access i e' s) = (view dev s)(buffered_sector e := buffer e')
    \<and> bsize (devs (after_access i e' s) dev) = bsize (devs s dev) \<and> cur_thread (after_access i e' s) = cur_thread s"
proof -
  let ?t = "set_entry i (Some e') s" and ?u = "after_access i e' s"
  have I: "bc_inv dev s" and d: "idle s" using assms(1) by (auto simp: cache_ok_def)
  have i: "i < 64" using get_entry_lt [OF assms(2)] bc_inv_hand [OF I] by simp
  have p: "bc_inv dev ?t \<and> view dev ?t = (view dev s)(buffered_sector e' := buffer e')"
  proof (rule place_entry [OF I assms(3) i])
    show "j = i" if "get_entry s j = Some f" "buffered_sector f = buffered_sector e'" for j f
      using bc_inv_inj [OF I that(1) assms(2)] that(2) assms(4) by simp
  qed (use assms(2,4) in simp)
  have u: "buffer_cache ?u = buffer_cache ?t" "devs ?u = devs ?t" "clock_hand ?u = clock_hand ?t"
    by (simp_all add: after_access_def)
  have "bc_inv dev ?u" using p u by (intro bc_inv_cong_hand [of dev ?t ?u]) simp_all
  moreover have "view dev ?u = view dev ?t" by (rule view_cong) (use u in simp_all)
  moreover have "idle ?u" using d assms(5) by (auto simp: idle_def after_access_def)
  moreover have "cur_thread ?u = cur_thread s" by (simp add: after_access_def)
  ultimately show ?thesis using p u assms(4) by (simp add: cache_ok_def)
qed

lemma miss_evicts:
  assumes "cache_ok dev s"
  shows "\<exists>h t. clock_loop (miss_state dev s) = Some (h, t) \<and> h < 64 \<and> get_entry t h = None \<and> bc_inv dev t
    \<and> view dev t = view dev s \<and> frame (miss_state dev s) t \<and> thinned s t"
proof -
  let ?m = "miss_state dev s"
  have I: "bc_inv dev s" and d: "idle s" using assms by (auto simp: cache_ok_def)
  have g: "get_entry ?m = get_entry s" by (simp add: fun_eq_iff miss_state_def)
  have "bc_inv dev ?m" by (rule bc_inv_cong_hand [OF I]) (simp_all add: miss_state_def)
  moreover have "view dev ?m = view dev s" by (rule view_cong) (simp_all add: miss_state_def)
  moreover have "evictable ?m 0" using d g by (auto simp: evictable_def idle_def split: option.splits)
  moreover have "sector_lock e \<noteq> Some (cur_thread ?m)" if "get_entry ?m i = Some e" for i e
    using that g d by (auto simp: idle_def)
  moreover have "buffer_cache_lock ?m = Some (cur_thread ?m)" by (simp add: miss_state_def)
  moreover have "thinned ?m = thinned s" using g by (simp add: thinned_def fun_eq_iff)
  ultimately show ?thesis using clock_loop_spec [of dev ?m 0] by metis
qed

lemma after_miss_ok:
  assumes s: "cache_ok dev s" "find_slot s n 0 = None"
    and t: "h < 64" "get_entry t h = None" "bc_inv dev t" "view dev t = view dev s"
      "frame (miss_state dev s) t" "thinned s t"
    and e: "buffered_sector e = n" "sector_block e = dev" "length (buffer e) = 512" "n < bsize (devs s dev)"
      "dirty_bit e \<or> buffer e = contents (devs s dev) n" "sector_lock e = None"
  shows "cache_ok dev (after_miss h e t) \<and> view dev (after_miss h e t) = (view dev s)(n := buffer e)
    \<and> bsize (devs (after_miss h e t) dev) = bsize (devs s dev) \<and> cur_thread (after_miss h e t) = cur_thread s"
proof -
  let ?t = "set_entry h (Some e) t" and ?u = "after_miss h e t"
  have I: "bc_inv dev s" and d: "idle s" using s(1) by (auto simp: cache_ok_def)
  have uncached: "buffered_sector f \<noteq> n" if "get_entry s j = Some f" for j f
    using find_slot_None [OF s(2), of j f] that get_entry_lt [OF that] bc_inv_hand [OF I] by simp
  have th: "\<exists>f'. get_entry s j = Some f' \<and> entry_core f = entry_core f' \<and> sector_lock f = sector_lock f'"
    if "get_entry t j = Some f" for j f
    using t(6) that by (simp add: thinned_def)
  have uncached': "buffered_sector f \<noteq> n" if "get_entry t j = Some f" for j f
    using th [OF that] uncached entry_coreD by metis
  have c: "contents (devs t dev) n = contents (devs s dev) n"
    using view_uncached [of s n dev] view_uncached [of t n dev] uncached uncached' t(4) by metis
  have b: "bsize (devs t dev) = bsize (devs s dev)" using t(5) by (auto simp: frame_def miss_state_def)
  have ok: "entry_ok dev (devs t dev) e" using e b c by (auto simp: entry_ok_def)
  have p: "bc_inv dev ?t \<and> view dev ?t = (view dev t)(buffered_sector e := buffer e)"
    using uncached' t(2) e(1) by (intro place_entry [OF t(3) ok t(1)]) auto
  have u: "buffer_cache ?u = buffer_cache ?t" "devs ?u = devs ?t" "clock_hand ?u = clock_hand ?t"
    by (simp_all add: after_miss_def)
  have "bc_inv dev ?u" using p u by (intro bc_inv_cong_hand [of dev ?t ?u]) simp_all
  moreover have "view dev ?u = view dev ?t" by (rule view_cong) (use u in simp_all)
  moreover have "idle ?u"
  proof -
    have "sector_lock f = None" if "get_entry t j = Some f" for j f using th [OF that] d by (auto simp: idle_def)
    moreover have "inactive_lock t = None" using t(5) d by (simp add: frame_def miss_state_def idle_def)
    ultimately show ?thesis using e(6) by (auto simp: idle_def after_miss_def)
  qed
  moreover have "cur_thread ?u = cur_thread s" using t(5) by (simp add: after_miss_def frame_def miss_state_def)
  ultimately show ?thesis using p u t(4) e(1) b by (simp add: cache_ok_def)
qed

lemma read_buffered_refines:
  assumes "cache_ok dev s" "n < bsize (devs s dev)" "start \<le> fin" "fin \<le> 512"
  shows "\<exists>t. read_buffered dev n start fin s = Some (take (fin - start) (drop start (view dev s n)), t)
    \<and> cache_ok dev t \<and> view dev t = view dev s \<and> bsize (devs t dev) = bsize (devs s dev)
    \<and> cur_thread t = cur_thread s"
proof -
  have I: "bc_inv dev s" and d: "idle s" using assms(1) by (auto simp: cache_ok_def)
  show ?thesis
  proof (cases "find_slot s n 0")
    case (Some i)
    then obtain e where e: "get_entry s i = Some e" "buffered_sector e = n" using find_slot_Some by blast
    have ok: "entry_ok dev (devs s dev) e" by (rule bc_inv_entry [OF I e(1)])
    have v: "view dev s n = buffer e" using view_cached [OF I e(1)] e(2) by simp
    have "cache_ok dev (after_access i (e\<lparr>use_bit := True\<rparr>) s)
        \<and> view dev (after_access i (e\<lparr>use_bit := True\<rparr>) s) = (view dev s)(buffered_sector e := buffer (e\<lparr>use_bit := True\<rparr>))
        \<and> bsize (devs (after_access i (e\<lparr>use_bit := True\<rparr>) s) dev) = bsize (devs s dev)
        \<and> cur_thread (after_access i (e\<lparr>use_bit := True\<rparr>) s) = cur_thread s"
      using ok d e by (intro after_access_ok [OF assms(1) e(1)]) (simp_all add: entry_ok_def idle_def)
    then show ?thesis using read_hit [OF d Some e(1) _ assms(3,4), of dev] ok v e(2)
      by (simp add: entry_ok_def fun_upd_idem)
  next
    case None
    have v: "view dev s n = contents (devs s dev) n" using None by (simp add: view_def)
    have len: "length (contents (devs s dev) n) = 512" using I assms(2) by (simp add: bc_inv_def)
    let ?e = "\<lparr>buffered_sector = n, sector_block = dev, buffer = contents (devs s dev) n, use_bit = True,
        dirty_bit = False, sector_lock = None\<rparr>"
    obtain h t where t: "clock_loop (miss_state dev s) = Some (h, t)" "h < 64" "get_entry t h = None" "bc_inv dev t"
      "view dev t = view dev s" "frame (miss_state dev s) t" "thinned s t"
      using miss_evicts [OF assms(1)] by blast
    have "cache_ok dev (after_miss h ?e t) \<and> view dev (after_miss h ?e t) = (view dev s)(n := buffer ?e)
      \<and> bsize (devs (after_miss h ?e t) dev) = bsize (devs s dev) \<and> cur_thread (after_miss h ?e t) = cur_thread s"
      using len assms(2) by (intro after_miss_ok [OF assms(1) None t(2-7)]) simp_all
    then show ?thesis using read_miss [OF d None assms(2) len assms(3,4) t(1,6,3)] v by (simp add: fun_upd_idem)
  qed
qed

lemma write_buffered_refines:
  assumes "cache_ok dev s" "n < bsize (devs s dev)" "start \<le> fin" "fin \<le> 512" "fin - start \<le> length input"
  shows "\<exists>t. write_buffered dev n input start fin s = Some t \<and> cache_ok dev t
    \<and> view dev t = (view dev s)(n := overlay (view dev s n) start fin input) \<and> bsize (devs t dev) = bsize (devs s dev)
    \<and> cur_thread t = cur_thread s"
proof -
  have I: "bc_inv dev s" and d: "idle s" using assms(1) by (auto simp: cache_ok_def)
  show ?thesis
  proof (cases "find_slot s n 0")
    case (Some i)
    then obtain e where e: "get_entry s i = Some e" "buffered_sector e = n" using find_slot_Some by blast
    have ok: "entry_ok dev (devs s dev) e" by (rule bc_inv_entry [OF I e(1)])
    have len: "length (buffer e) = 512" using ok by (simp add: entry_ok_def)
    have v: "view dev s n = buffer e" using view_cached [OF I e(1)] e(2) by simp
    let ?e = "e\<lparr>use_bit := True, dirty_bit := True, buffer := overlay (buffer e) start fin input\<rparr>"
    have "cache_ok dev (after_access i ?e s) \<and> view dev (after_access i ?e s) = (view dev s)(buffered_sector e := buffer ?e)
        \<and> bsize (devs (after_access i ?e s) dev) = bsize (devs s dev) \<and> cur_thread (after_access i ?e s) = cur_thread s"
      using ok d e assms(3-5) len by (intro after_access_ok [OF assms(1) e(1)]) (simp_all add: entry_ok_def idle_def)
    then show ?thesis using write_hit [OF d Some e(1) len assms(3-5), of dev] v e(2)
      by (simp add: overlay_def)
  next
    case None
    have v: "view dev s n = contents (devs s dev) n" using None by (simp add: view_def)
    have len: "length (contents (devs s dev) n) = 512" using I assms(2) by (simp add: bc_inv_def)
    let ?e = "\<lparr>buffered_sector = n, sector_block = dev, buffer = overlay (contents (devs s dev) n) start fin input,
        use_bit = True, dirty_bit = True, sector_lock = None\<rparr>"
    obtain h t where t: "clock_loop (miss_state dev s) = Some (h, t)" "h < 64" "get_entry t h = None" "bc_inv dev t"
      "view dev t = view dev s" "frame (miss_state dev s) t" "thinned s t"
      using miss_evicts [OF assms(1)] by blast
    have "cache_ok dev (after_miss h ?e t) \<and> view dev (after_miss h ?e t) = (view dev s)(n := buffer ?e)
      \<and> bsize (devs (after_miss h ?e t) dev) = bsize (devs s dev) \<and> cur_thread (after_miss h ?e t) = cur_thread s"
      using len assms(2-5) by (intro after_miss_ok [OF assms(1) None t(2-7)]) simp_all
    then show ?thesis using write_miss [OF d None assms(2) len assms(3-5) t(1,6,3)] v by (simp add: overlay_def)
  qed
qed

section \<open>Flushing\<close>

lemma flush_loop_spec:
  assumes "bc_inv dev s" "buffer_cache_lock s = Some (cur_thread s)"
    "\<And>k e. get_entry s k = Some e \<Longrightarrow> i \<le> k \<and> sector_lock e = None"
  shows "\<exists>t. flush_loop i s = Some t \<and> bc_inv dev t \<and> view dev t = view dev s \<and> frame s t
    \<and> (\<forall>k. get_entry t k = None)"
  using assms
proof (induction i s rule: flush_loop.induct)
  case (1 i s)
  show ?case
  proof (cases "i < 64")
    case False
    then have "get_entry s k = None" for k
      using 1(5) [of k] get_entry_lt [of s k] bc_inv_hand [OF 1(3)] by (cases "get_entry s k") fastforce+
    then show ?thesis using False 1(3) by (simp add: flush_loop.simps)
  next
    case i: True
    show ?thesis
    proof (cases "get_entry s i")
      case None
      have "\<exists>t. flush_loop (i + 1) s = Some t \<and> bc_inv dev t \<and> view dev t = view dev s \<and> frame s t
          \<and> (\<forall>k. get_entry t k = None)"
      proof (rule 1(2) [OF i _ 1(3,4)])
        fix k e assume a: "get_entry s k = Some e"
        then have "k \<noteq> i" using None by auto
        then show "i + 1 \<le> k \<and> sector_lock e = None" using 1(5) [OF a] by simp
      qed (use None in simp)
      then show ?thesis using None i by (subst flush_loop.simps) simp
    next
      case (Some e)
      let ?e = "e\<lparr>sector_lock := Some (cur_thread s)\<rparr>"
      let ?s = "set_entry i (Some ?e) s"
      have l: "sector_lock e = None" using 1(5) [OF Some] by simp
      have a: "acquire_sector_lock i s = Some ?s" using Some l by (simp add: acquire_sector_lock_def lk_acquire_def)
      have c: "same_core dev s ?s" by (rule same_core_set_entry [OF Some]) simp
      have "get_entry ?s i = Some ?e" using get_entry_lt [OF Some] by simp
      then obtain t where t: "buffer_evict i ?s = Some t" "bc_inv dev t" "view dev t = view dev ?s" "frame ?s t"
          "\<forall>j. get_entry t j = (if j = i then None else get_entry ?s j)"
        using buffer_evict_exec [OF same_core_inv [OF 1(3) c], of i ?e] 1(4) by auto
      have v: "view dev ?s = view dev s" using same_core_view [OF 1(3) c] by (rule ext)
      have f: "frame s t" using t(4) by (metis frame_refl frame_set_entry frame_trans)
      have "\<exists>u. flush_loop (i + 1) t = Some u \<and> bc_inv dev u \<and> view dev u = view dev t \<and> frame t u
          \<and> (\<forall>k. get_entry u k = None)"
      proof (rule 1(1) [OF i _ a t(1,2)])
        show "buffer_cache_lock t = Some (cur_thread t)" using f 1(4) by (simp add: frame_def)
        show "i + 1 \<le> k \<and> sector_lock e' = None" if "get_entry t k = Some e'" for k e'
        proof -
          have "k \<noteq> i" "get_entry s k = Some e'" using that t(5) by (auto split: if_splits)
          then show ?thesis using 1(5) [of k e'] by simp
        qed
      qed (use Some in simp)
      then obtain u where u: "flush_loop (i + 1) t = Some u" "bc_inv dev u" "view dev u = view dev t" "frame t u"
        "\<forall>k. get_entry u k = None" by blast
      have "flush_loop i s = Some u" using Some i a t(1) u(1) by (subst flush_loop.simps) simp
      then show ?thesis using u t(3) v f frame_trans [OF f u(4)] by auto
    qed
  qed
qed

lemma flush_buffer_cache_refines:
  assumes "cache_ok dev s"
  shows "\<exists>t. flush_buffer_cache s = Some t \<and> cache_ok dev t \<and> view dev t = view dev s
    \<and> bsize (devs t dev) = bsize (devs s dev) \<and> contents (devs t dev) = view dev s \<and> (\<forall>k. get_entry t k = None)
    \<and> cur_thread t = cur_thread s"
proof -
  let ?s = "s\<lparr>buffer_cache_lock := Some (cur_thread s)\<rparr>"
  have I: "bc_inv dev s" and d: "idle s" using assms by (auto simp: cache_ok_def)
  have "bc_inv dev ?s" by (rule bc_inv_cong_hand [OF I]) simp_all
  moreover have vs: "view dev ?s = view dev s" by (rule view_cong) simp_all
  ultimately obtain t where t: "flush_loop 0 ?s = Some t" "bc_inv dev t" "view dev t = view dev s" "frame ?s t"
    "\<forall>k. get_entry t k = None"
    using flush_loop_spec [of dev ?s 0] d by (auto simp: idle_def)
  let ?t = "t\<lparr>buffer_cache_lock := None\<rparr>"
  have "flush_buffer_cache s = Some ?t"
    using d t(1,4) by (simp add: flush_buffer_cache_def acquire_cache_lock_def release_cache_lock_def lk_acquire_def
        lk_release_def idle_def frame_def)
  moreover have "bc_inv dev ?t" by (rule bc_inv_cong_hand [OF t(2)]) simp_all
  moreover have "view dev ?t = view dev t" by (rule view_cong) simp_all
  moreover have "contents (devs t dev) = view dev t" using view_uncached [of t _ dev] t(5) by (simp add: fun_eq_iff)
  moreover have "idle ?t" using t(4,5) d by (simp add: idle_def frame_def)
  ultimately show ?thesis using t(3-5) by (simp add: cache_ok_def frame_def)
qed

section \<open>Waking up\<close>

lemma acquire_cached_unlocks:
  "acquire_buffer_entry_lock n s = Some (r, t) \<Longrightarrow> buffer_cache_lock t = None"
  by (auto simp: acquire_buffer_entry_lock_def release_cache_lock_def lk_release_def bind_eq_Some_conv Let_def
      split: option.splits if_splits)

lemma acquire_free_entry:
  assumes "buffer_cache_lock s = None" "find_slot s n 0 = Some i" "get_entry s i = Some e" "sector_lock e = None"
  shows "\<exists>t. acquire_buffer_entry_lock n s = Some (Some i, t) \<and> buffer_cache_lock t = None
    \<and> get_entry t i = Some (e\<lparr>sector_lock := Some (cur_thread s), use_bit := True\<rparr>)"
proof -
  have "find_slot (s\<lparr>buffer_cache_lock := l\<rparr>) n 0 = Some i" for l
    using assms(2) find_slot_cong [of "s\<lparr>buffer_cache_lock := l\<rparr>" s] by simp
  moreover have "i < length (buffer_cache s)" by (rule get_entry_lt [OF assms(3)])
  ultimately show ?thesis using assms
    by (simp add: acquire_buffer_entry_lock_def acquire_cache_lock_def release_cache_lock_def acquire_sector_lock_def lk_acquire_def lk_release_def Let_def)
qed

lemma check_presence_after_acquire:
  "acquire_buffer_entry_lock n s = Some (r, t) \<Longrightarrow> check_buffer_presence n i t = None"
  by (simp add: check_buffer_presence_def acquire_cached_unlocks)

lemma acquire_again_blocks:
  "buffer_cache_lock s = Some l \<Longrightarrow> acquire_buffer_entry_lock n s = None"
  by (simp add: acquire_buffer_entry_lock_def acquire_cache_lock_def lk_acquire_def)

lemma access_locked_blocks:
  assumes "acquire_cache_lock s = Some t"
  shows "read_buffered dev n start fin t = None" "write_buffered dev n input start fin t = None"
proof -
  have "acquire_buffer_entry_lock n t = None"
    using assms by (intro acquire_again_blocks) (auto simp: acquire_cache_lock_def lk_acquire_def split: if_splits)
  then show "read_buffered dev n start fin t = None" "write_buffered dev n input start fin t = None"
    by (simp_all add: read_buffered_def write_buffered_def read_go.simps write_go.simps)
qed

section \<open>The cache as a store of sectors\<close>

interpretation bc: sector_store "cache_ok dev" "view dev" "\<lambda>s. bsize (devs s dev)" cur_thread "read_buffered dev" "write_buffered dev"
  for dev
proof
  show "length (view dev s n) = 512" if "cache_ok dev s" "n < bsize (devs s dev)" for s n
    using that view_length by (simp add: cache_ok_def)
qed (use read_buffered_refines write_buffered_refines in blast)+

lemma init_cache_ok:
  assumes "btype (devs s dev) \<noteq> BLOCK_FOREIGN" "\<forall>n < bsize (devs s dev). length (contents (devs s dev) n) = 512"
  shows "cache_ok dev (init_buffer_cache s) \<and> view dev (init_buffer_cache s) = contents (devs s dev)"
proof -
  let ?s = "init_buffer_cache s"
  have g: "get_entry ?s i = None" for i by (simp add: get_entry_def init_buffer_cache_def)
  have "bc_inv dev ?s" using assms by (intro bc_invI) (simp_all only: g, simp_all add: init_buffer_cache_def)
  moreover have "idle ?s" by (simp add: idle_def g) (simp add: init_buffer_cache_def)
  moreover have "view dev ?s = contents (devs s dev)"
    using view_uncached [of ?s] g by (simp add: fun_eq_iff init_buffer_cache_def)
  ultimately show ?thesis by (simp add: cache_ok_def)
qed

section \<open>Properties\<close>

text \<open>C1. Refinement: reads and writes of byte ranges through \<open>read_buffered\<close> and
  \<open>write_buffered\<close>, in any order and number, all return; the reads deliver what the same accesses
  deliver on a plain array of sectors; and \<open>flush_buffer_cache\<close> then leaves exactly that array on
  the device, with the cache ready for use again. This holds across hits, misses and evictions.\<close>

theorem buffer_cache_refines_array:
  assumes "cache_ok dev s" "list_all (op_valid (bsize (devs s dev))) ops"
  shows "\<exists>t u. store_ops (read_buffered dev) (write_buffered dev) ops s = Some (fst (array_ops ops (view dev s)), t)
    \<and> cache_ok dev t \<and> view dev t = snd (array_ops ops (view dev s))
    \<and> flush_buffer_cache t = Some u \<and> cache_ok dev u \<and> contents (devs u dev) = snd (array_ops ops (view dev s))"
proof -
  obtain t where t: "store_ops (read_buffered dev) (write_buffered dev) ops s = Some (fst (array_ops ops (view dev s)), t)"
    "cache_ok dev t" "view dev t = snd (array_ops ops (view dev s))"
    using bc.refines_array [OF assms] by blast
  then show ?thesis using flush_buffer_cache_refines [OF t(2)] by metis
qed

definition ex_disk :: block where
  "ex_disk = \<lparr>bname = ''hda1'', btype = BLOCK_FILESYS, bsize = 2, contents = \<lambda>_. replicate 512 0, read_cnt = 0, write_cnt = 0\<rparr>"

definition ex_io :: io where
  "ex_io = \<lparr>cur_thread = 1, devs = \<lambda>_. ex_disk, buffer_cache = replicate 64 None, clock_hand = 0, buffer_cache_lock = None,
     active_sema = 64, inactive_entry = [], inactive_lock = None, woken = [], g_buffer_misses = 0, g_buffer_accesses = 0\<rparr>"

lemma ex_io_ok: "cache_ok d (init_buffer_cache ex_io) \<and> view d (init_buffer_cache ex_io) = contents ex_disk"
  using init_cache_ok [of ex_io d] by (simp add: ex_io_def ex_disk_def)

theorem buffer_cache_refines_array_witness:
  "\<exists>t u. store_ops (read_buffered 0) (write_buffered 0) [Write_op 1 [5, 6, 7] 0 3, Read_op 1 1 4] (init_buffer_cache ex_io)
      = Some ([[6, 7, 0]], t) \<and> flush_buffer_cache t = Some u \<and> take 4 (contents (devs u 0) 1) = [5, 6, 7, 0]"
proof -
  let ?ops = "[Write_op 1 [5, 6, 7] 0 3, Read_op 1 1 4]"
  have "list_all (op_valid (bsize (devs (init_buffer_cache ex_io) 0))) ?ops"
    by (simp add: init_buffer_cache_def ex_io_def ex_disk_def)
  from buffer_cache_refines_array [OF conjunct1 [OF ex_io_ok] this] show ?thesis
    using ex_io_ok [of 0] by (auto simp: overlay_def ex_disk_def numeral_eq_Suc)
qed

text \<open>C9. The clock algorithm returns whenever some slot is free or unlocked, if the calling thread holds the cache lock and no
  lock of an entry, whatever the use bits and wherever the hand points. The slot it returns is empty, no other entry is lost, an
  entry that a thread has locked is not touched, and what is evicted has been written back: the presented contents are unchanged.
  Entries get a second chance: one with its use bit set is evicted only if no slot was free and no unlocked entry had its use bit clear.\<close>

theorem clock_algorithm_evict_correct:
  assumes "bc_inv dev s" "buffer_cache_lock s = Some (cur_thread s)" "evictable s j"
    "\<And>i e. get_entry s i = Some e \<Longrightarrow> sector_lock e \<noteq> Some (cur_thread s)"
  shows "\<exists>h t. clock_algorithm_evict s = Some (h, t) \<and> h < 64 \<and> get_entry t h = None \<and> bc_inv dev t
    \<and> view dev t = view dev s \<and> spared h s t
    \<and> (\<forall>e. get_entry s h = Some e \<longrightarrow> use_bit e \<longrightarrow> (\<forall>i < 64. busy s i))"
proof -
  have c: "clock_algorithm_evict s = clock_loop s" using assms(2) by (simp add: clock_algorithm_evict_def)
  have h: "\<exists>h t. clock_loop s = Some (h, t) \<and> h < 64 \<and> get_entry t h = None \<and> bc_inv dev t \<and> view dev t = view dev s \<and> spared h s t"
    using clock_loop_spec [OF assms(1-3)] assms(4) by metis
  then obtain h t where h: "clock_loop s = Some (h, t)" "h < 64" "get_entry t h = None" "bc_inv dev t" "view dev t = view dev s" "spared h s t" by blast
  have "clock_hand s < 64" "length (buffer_cache s) = 64" using assms(1) by (auto simp: bc_inv_def)
  then show ?thesis unfolding c using h second_chance [OF h(1)] by blast
qed

definition ex_entry :: buffer_entry where
  "ex_entry = \<lparr>buffered_sector = 1, sector_block = 0, buffer = replicate 512 9, use_bit = True, dirty_bit = True,
     sector_lock = Some 2\<rparr>"

definition ex_busy :: io where
  "ex_busy = ex_io\<lparr>buffer_cache := Some ex_entry # replicate 63 None, buffer_cache_lock := Some 1\<rparr>"

lemma ex_busy_entry: "get_entry ex_busy i = (if i = 0 then Some ex_entry else None)"
  by (cases i) (auto simp: get_entry_def ex_busy_def)

lemma ex_busy_inv: "bc_inv 0 ex_busy"
  by (rule bc_invI) (auto simp: ex_busy_entry entry_ok_def split: if_splits, simp_all add: ex_entry_def ex_busy_def ex_io_def ex_disk_def)

theorem clock_algorithm_evict_correct_witness:
  "\<exists>h t. clock_algorithm_evict ex_busy = Some (h, t) \<and> h < 64 \<and> get_entry t h = None \<and> get_entry t 0 = Some ex_entry"
proof -
  have "\<exists>h t. clock_algorithm_evict ex_busy = Some (h, t) \<and> h < 64 \<and> get_entry t h = None \<and> bc_inv 0 t
    \<and> view 0 t = view 0 ex_busy \<and> spared h ex_busy t \<and> (\<forall>e. get_entry ex_busy h = Some e \<longrightarrow> use_bit e \<longrightarrow> (\<forall>i < 64. busy ex_busy i))"
    by (rule clock_algorithm_evict_correct [OF ex_busy_inv, where j = 1])
      (auto simp: evictable_def ex_busy_entry split: if_splits, simp_all add: ex_busy_def ex_io_def ex_entry_def)
  then show ?thesis by (auto simp: spared_def ex_busy_entry ex_entry_def)
qed

text \<open>C22. Error path: a thread waited because all entries were active and is woken, with the lock that the wait gives back,
  while its sector is cached, and the cache lock and the lock of that entry are free. It does not complete its access. In \<open>read_buffered\<close>
  and \<open>write_buffered\<close> it gets the entry, and then the check of the entry fails the assertion that the cache lock is held, which the step before has
  released. In \<open>read_not_buffered\<close> and \<open>write_not_buffered\<close> it gets the cache lock, finds the sector cached, and starts the access again
  with the cache lock still held: acquiring it a second time fails an assertion.\<close>

theorem waiter_of_cached_sector_stuck:
  assumes "inactive_lock s = Some (cur_thread s)" "buffer_cache_lock s = None" "find_slot s n 0 = Some i" "get_entry s i = Some e" "sector_lock e = None"
  shows "(\<exists>t. acquire_buffer_entry_lock n (s\<lparr>inactive_lock := None\<rparr>) = Some (Some i, t) \<and> (\<exists>e'. get_entry t i = Some e' \<and> sector_lock e' = Some (cur_thread s))
      \<and> buffer_cache_lock t = None \<and> check_buffer_presence n i t = None)
    \<and> read_buffered_woken dev n start fin s = None \<and> write_buffered_woken dev n input start fin s = None
    \<and> (\<exists>u. acquire_cache_lock (s\<lparr>inactive_lock := None\<rparr>) = Some u \<and> check_sector_cached n u = Some True
      \<and> buffer_cache_lock u = Some (cur_thread u) \<and> acquire_cache_lock u = None)
    \<and> read_not_buffered_woken dev n start fin s = None \<and> write_not_buffered_woken dev n input start fin s = None"
proof -
  define w where "w = s\<lparr>inactive_lock := None\<rparr>"
  have "find_slot w n 0 = Some i" "get_entry w i = Some e" using assms(3,4) find_slot_cong [of w s] by (simp_all add: w_def)
  then obtain t where t: "acquire_buffer_entry_lock n w = Some (Some i, t)" "get_entry t i = Some (e\<lparr>sector_lock := Some (cur_thread s), use_bit := True\<rparr>)"
    "buffer_cache_lock t = None" using acquire_free_entry [of w n i e] assms by (auto simp: w_def)
  have p: "check_buffer_presence n i t = None" by (rule check_presence_after_acquire [OF t(1)])
  have b: "read_buffered_woken dev n start fin s = None" "write_buffered_woken dev n input start fin s = None"
    using t(1) p assms(1) by (simp_all add: read_buffered_woken_def write_buffered_woken_def lk_release_def w_def)
  let ?u = "w\<lparr>buffer_cache_lock := Some (cur_thread s)\<rparr>"
  have u: "acquire_cache_lock w = Some ?u" using assms(2) by (simp add: w_def acquire_cache_lock_def lk_acquire_def)
  have "find_slot ?u n 0 = Some i" using assms(3) find_slot_cong [of ?u s] by (simp add: w_def)
  then have c: "check_sector_cached n ?u = Some True" by (simp add: check_sector_cached_def w_def)
  have a: "acquire_cache_lock ?u = None" by (simp add: acquire_cache_lock_def lk_acquire_def)
  have "read_not_buffered_woken dev n start fin s = None" "write_not_buffered_woken dev n input start fin s = None"
    using u c access_locked_blocks [OF u] assms(1) by (simp_all add: read_not_buffered_woken_def write_not_buffered_woken_def lk_release_def w_def)
  then show ?thesis using t p b u c a by (auto simp: w_def)
qed

definition ex_woken :: io where
  "ex_woken = ex_io\<lparr>buffer_cache := Some (ex_entry\<lparr>sector_lock := None\<rparr>) # replicate 63 None, inactive_lock := Some 1\<rparr>"

theorem waiter_of_cached_sector_stuck_witness:
  "buffer_cache_lock ex_woken = None \<and> read_buffered_woken 0 1 0 4 ex_woken = None \<and> read_not_buffered_woken 0 1 0 4 ex_woken = None
    \<and> (\<exists>t. acquire_buffer_entry_lock 1 (ex_woken\<lparr>inactive_lock := None\<rparr>) = Some (Some 0, t))"
proof -
  have g: "get_entry ex_woken 0 = Some (ex_entry\<lparr>sector_lock := None\<rparr>)" by (simp add: get_entry_def ex_woken_def)
  then have f: "find_slot ex_woken 1 0 = Some 0" by (simp add: find_slot.simps ex_entry_def)
  have "inactive_lock ex_woken = Some (cur_thread ex_woken)" "buffer_cache_lock ex_woken = None" by (simp_all add: ex_woken_def ex_io_def)
  from waiter_of_cached_sector_stuck [OF this f g, of 0 0 4] this(2) show ?thesis by auto
qed

end
