(* ===== verification/Inode.thy ===== *)
theory Inode
  imports Buffer_Cache Bitmap
begin

text \<open>
  The state of the file system and the index nodes of \<open>filesys/inode.c\<close>.

  The record \<open>fs\<close> holds the global variables of \<open>filesys/\<close>, the block layer \<open>disk\<close>, and the heap
  objects of the types \<open>struct inode\<close>, \<open>struct file\<close> and \<open>struct dir\<close>, by address. Address 0 is
  the null pointer. Allocations succeed and never return an address again, and the magic number of
  a freed inode is gone. Kernel lists are lists of addresses (see \<open>Kernel_List\<close>). As in
  \<open>Buffer_Cache\<close>, a result \<open>None\<close> is a call that does not return when run without
  other threads. The fields \<open>extending\<close>, \<open>length\<close>, \<open>until_not_extending\<close> and
  \<open>until_no_writers\<close> of \<open>struct inode\<close>, and the lock \<open>ll\<close>, are never used by the code.

  \<open>free_map_allocate\<close> and \<open>free_map_release\<close> call \<open>inode_write_at\<close> on the free map's own
  inode, and \<open>inode_write_at\<close> calls them to extend an inode. The operations that extend or shrink
  an inode take the two as an argument; the theory \<open>File_Map\<close> closes the circle.
\<close>

definition INODE_MAGIC :: nat where "INODE_MAGIC = 0x494e4f44"
definition NUM_DIRECT_PTRS :: int where "NUM_DIRECT_PTRS = 12"
definition Indirect_Block :: int where "Indirect_Block = 128"
definition zero_block :: bytes where "zero_block = replicate 512 0"

record inode =
  isector :: nat
  open_cnt :: int
  removed :: bool
  deny_write_cnt :: int
  imagic :: nat
  inode_lock :: lock
  inode_dir_lock :: lock

record ofile =
  f_inode :: nat
  f_pos :: int
  f_deny_write :: bool

record dir =
  d_inode :: nat
  d_pos :: int

record fs =
  disk :: io
  block_by_role :: "block_type \<Rightarrow> nat option"
  fs_device :: nat
  inodes :: "nat \<Rightarrow> inode option"
  files :: "nat \<Rightarrow> ofile option"
  dirs :: "nat \<Rightarrow> dir option"
  next_addr :: nat
  open_inodes :: "nat list"
  open_lock :: lock
  free_map :: bitmap
  free_map_file :: nat
  da_lock :: lock
  alloc_sectors :: int
  cwd :: nat
  uninit :: bytes
  g_inodes_created :: nat
  g_inodes_freed :: nat
  g_file_calloc :: nat
  g_file_freed :: nat
  g_dir_calloc :: nat
  g_dir_freed :: nat
  g_filesys_malloc :: nat

definition me :: "fs \<Rightarrow> tid" where "me s = cur_thread (disk s)"

definition upd_inode :: "nat \<Rightarrow> inode \<Rightarrow> fs \<Rightarrow> fs" where
  "upd_inode p n s = s\<lparr>inodes := (inodes s)(p \<mapsto> n)\<rparr>"

section \<open>Sectors of the file system device\<close>

definition fs_read :: "nat \<Rightarrow> int \<Rightarrow> int \<Rightarrow> fs \<Rightarrow> (bytes \<times> fs) option" where
  "fs_read sector start fin s = do {
     ASSERT (0 \<le> start \<and> start \<le> fin);
     (b, d) \<leftarrow> read_buffered (fs_device s) sector (nat start) (nat fin) (disk s);
     Some (b, s\<lparr>disk := d\<rparr>) }"

definition fs_write :: "nat \<Rightarrow> bytes \<Rightarrow> int \<Rightarrow> int \<Rightarrow> fs \<Rightarrow> fs option" where
  "fs_write sector input start fin s = do {
     ASSERT (0 \<le> start \<and> start \<le> fin);
     d \<leftarrow> write_buffered (fs_device s) sector input (nat start) (nat fin) (disk s);
     Some (s\<lparr>disk := d\<rparr>) }"

text \<open>A 32-bit field at byte offset \<open>ofs\<close> of a sector.\<close>

definition get32 :: "nat \<Rightarrow> int \<Rightarrow> fs \<Rightarrow> (nat \<times> fs) option" where
  "get32 sector ofs s = do { (b, s) \<leftarrow> fs_read sector ofs (ofs + 4) s; Some (unat (un_le32 b), s) }"

definition set32 :: "nat \<Rightarrow> int \<Rightarrow> nat \<Rightarrow> fs \<Rightarrow> fs option" where
  "set32 sector ofs v s = fs_write sector (le32 (of_nat v)) ofs (ofs + 4) s"

definition bytes_to_sectors :: "int \<Rightarrow> nat" where
  "bytes_to_sectors nbytes = nat ((wrap32 (nbytes + 512 - 1) sdiv 512) mod 2 ^ 32)"

definition bytes_to_sector_index :: "int \<Rightarrow> nat" where
  "bytes_to_sector_index offset = nat ((offset sdiv 512) mod 2 ^ 32)"

definition inode_get_length :: "nat \<Rightarrow> fs \<Rightarrow> (int \<times> fs) option" where
  "inode_get_length sector s = do { (v, s) \<leftarrow> get32 sector 0 s; Some (wrap32 (int v), s) }"

definition inode_set_length :: "nat \<Rightarrow> int \<Rightarrow> fs \<Rightarrow> fs option" where
  "inode_set_length sector len s = set32 sector 0 (nat (len mod 2 ^ 32)) s"

definition inode_get_is_dir :: "nat \<Rightarrow> fs \<Rightarrow> (nat \<times> fs) option" where
  "inode_get_is_dir sector s = get32 sector 4 s"

definition inode_set_is_dir :: "nat \<Rightarrow> nat \<Rightarrow> fs \<Rightarrow> fs option" where
  "inode_set_is_dir sector is_dir s = set32 sector 4 is_dir s"

definition inode_get_direct_ptr :: "nat \<Rightarrow> int \<Rightarrow> fs \<Rightarrow> (nat \<times> fs) option" where
  "inode_get_direct_ptr sector i s = get32 sector (8 + 4 * i) s"

definition inode_set_direct_ptr :: "nat \<Rightarrow> int \<Rightarrow> nat \<Rightarrow> fs \<Rightarrow> fs option" where
  "inode_set_direct_ptr sector i tar s = set32 sector (8 + 4 * i) tar s"

definition inode_get_single_ptr :: "nat \<Rightarrow> fs \<Rightarrow> (nat \<times> fs) option" where
  "inode_get_single_ptr sector s = get32 sector (8 + 4 * NUM_DIRECT_PTRS) s"

definition inode_set_single_ptr :: "nat \<Rightarrow> nat \<Rightarrow> fs \<Rightarrow> fs option" where
  "inode_set_single_ptr sector tar s = set32 sector (8 + 4 * NUM_DIRECT_PTRS) tar s"

definition inode_get_double_ptr :: "nat \<Rightarrow> fs \<Rightarrow> (nat \<times> fs) option" where
  "inode_get_double_ptr sector s = get32 sector (8 + 4 * NUM_DIRECT_PTRS + 4) s"

definition inode_set_double_ptr :: "nat \<Rightarrow> nat \<Rightarrow> fs \<Rightarrow> fs option" where
  "inode_set_double_ptr sector tar s = set32 sector (8 + 4 * NUM_DIRECT_PTRS + 4) tar s"

definition inode_set_magic :: "nat \<Rightarrow> nat \<Rightarrow> fs \<Rightarrow> fs option" where
  "inode_set_magic sector magic s = set32 sector (8 + 4 * NUM_DIRECT_PTRS + 8) magic s"

section \<open>Allocating sectors\<close>

text \<open>\<open>fm_allocate cnt\<close> is \<open>free_map_allocate\<close>: \<open>Some\<close> the first sector, or \<open>None\<close> for false.
  \<open>fm_release sector cnt\<close> is \<open>free_map_release\<close>.\<close>

record fm_ops =
  fm_allocate :: "nat \<Rightarrow> fs \<Rightarrow> (nat option \<times> fs) option"
  fm_release :: "nat \<Rightarrow> nat \<Rightarrow> fs \<Rightarrow> fs option"

definition get_sector :: "fm_ops \<Rightarrow> fs \<Rightarrow> (nat option \<times> fs) option" where
  "get_sector fm s = do {
     (r, s) \<leftarrow> fm_allocate fm 1 s;
     case r of
       None \<Rightarrow> Some (None, s)
     | Some sector \<Rightarrow> do {
         s \<leftarrow> fs_write sector zero_block 0 512 s;
         Some (Some sector, s) } }"

fun release_loop :: "fm_ops \<Rightarrow> nat list \<Rightarrow> fs \<Rightarrow> fs option" where
  "release_loop fm [] s = Some s"
| "release_loop fm (x # xs) s = do { s \<leftarrow> fm_release fm x 1 s; release_loop fm xs s }"

text \<open>The loops \<open>for (j = ...; j > 0; j --)\<close> release the sectors from the last down to number 1.\<close>

function can_allocate_loop :: "fm_ops \<Rightarrow> nat \<Rightarrow> nat list \<Rightarrow> fs \<Rightarrow> (bool \<times> fs) option" where
  "can_allocate_loop fm num secs s =
     (if length secs < num then do {
        (r, s) \<leftarrow> get_sector fm s;
        case r of
          None \<Rightarrow> do { s \<leftarrow> release_loop fm (rev (tl secs)) s; Some (False, s) }
        | Some x \<Rightarrow> can_allocate_loop fm num (secs @ [x]) s }
      else do { s \<leftarrow> release_loop fm (rev (tl secs)) s; Some (True, s) })"
  by pat_completeness auto
termination
  by (relation "measure (\<lambda>(fm, num, secs, s). num - length secs)") auto

definition can_allocate :: "fm_ops \<Rightarrow> nat \<Rightarrow> fs \<Rightarrow> (bool \<times> fs) option" where
  "can_allocate fm num s = can_allocate_loop fm num [] s"

definition read_sector :: "nat \<Rightarrow> int \<Rightarrow> fs \<Rightarrow> (nat \<times> fs) option" where
  "read_sector sector index s = do { ASSERT (sector \<noteq> 0); get32 sector (index * 4) s }"

definition write_sector :: "nat \<Rightarrow> int \<Rightarrow> nat \<Rightarrow> fs \<Rightarrow> fs option" where
  "write_sector sector index good_stuff s = do { ASSERT (sector \<noteq> 0); set32 sector (index * 4) good_stuff s }"

text \<open>\<open>ASSERT (get_sector (&sec))\<close>\<close>

definition need_sector :: "fm_ops \<Rightarrow> fs \<Rightarrow> (nat \<times> fs) option" where
  "need_sector fm s = do { (r, s) \<leftarrow> get_sector fm s; x \<leftarrow> r; Some (x, s) }"

definition install_sector :: "fm_ops \<Rightarrow> nat \<Rightarrow> int \<Rightarrow> fs \<Rightarrow> fs option" where
  "install_sector fm sector i s = do {
     ASSERT (i < NUM_DIRECT_PTRS + 128 * (1 + 128));
     (sec, s) \<leftarrow> need_sector fm s;
     s \<leftarrow> fs_write sec zero_block 0 512 s;
     if i < NUM_DIRECT_PTRS then inode_set_direct_ptr sector i sec s
     else if i < NUM_DIRECT_PTRS + 128 then do {
       (single, s) \<leftarrow> inode_get_single_ptr sector s;
       s \<leftarrow> (if single = 0 then do {
               (new_sector, s) \<leftarrow> need_sector fm s;
               inode_set_single_ptr sector new_sector s }
             else Some s);
       (single, s) \<leftarrow> inode_get_single_ptr sector s;
       write_sector single (i - NUM_DIRECT_PTRS) sec s }
     else do {
       (double, s) \<leftarrow> inode_get_double_ptr sector s;
       s \<leftarrow> (if double = 0 then do {
               (new_sector, s) \<leftarrow> need_sector fm s;
               inode_set_double_ptr sector new_sector s }
             else Some s);
       let dab = i - NUM_DIRECT_PTRS - Indirect_Block;
       ASSERT (dab \<ge> 0);
       (double, s) \<leftarrow> inode_get_double_ptr sector s;
       (ind_sec, s) \<leftarrow> read_sector double (dab div Indirect_Block) s;
       (ind_sec, s) \<leftarrow> (if ind_sec = 0 then do {
               (ind_sec, s) \<leftarrow> need_sector fm s;
               (double, s) \<leftarrow> inode_get_double_ptr sector s;
               s \<leftarrow> write_sector double (dab div Indirect_Block) ind_sec s;
               Some (ind_sec, s) }
             else Some (ind_sec, s));
       write_sector ind_sec (dab mod Indirect_Block) sec s } }"

text \<open>\<open>for (i = from; i < from + cnt; i ++) install_sector (sector, i);\<close>\<close>

function install_loop :: "fm_ops \<Rightarrow> nat \<Rightarrow> nat \<Rightarrow> nat \<Rightarrow> fs \<Rightarrow> fs option" where
  "install_loop fm sector i bound s =
     (if i < bound then do {
        s \<leftarrow> install_sector fm sector (wrap32 (int i)) s;
        install_loop fm sector (i + 1) bound s }
      else Some s)"
  by pat_completeness auto
termination
  by (relation "measure (\<lambda>(fm, sector, i, bound, s). bound - i)") auto

definition inode_extend :: "fm_ops \<Rightarrow> nat \<Rightarrow> nat \<Rightarrow> fs \<Rightarrow> (bool \<times> fs) option" where
  "inode_extend fm inode sectors s = do {
     n \<leftarrow> inodes s inode;
     (len, s) \<leftarrow> inode_get_length (isector n) s;
     let from = bytes_to_sector_index (wrap32 (len - 1));
     (len, s) \<leftarrow> inode_get_length (isector n) s;
     let from = (if len = 0 then 0 else sz (from + 1));
     (ok, s) \<leftarrow> can_allocate fm sectors s;
     if \<not> ok then Some (False, s)
     else do {
       s \<leftarrow> install_loop fm (isector n) from (sz (from + sectors)) s;
       Some (True, s) } }"

definition inode_extend_to_bytes :: "fm_ops \<Rightarrow> nat \<Rightarrow> int \<Rightarrow> fs \<Rightarrow> (bool \<times> fs) option" where
  "inode_extend_to_bytes fm inode new_length s = do {
     n \<leftarrow> inodes s inode;
     (len, s) \<leftarrow> inode_get_length (isector n) s;
     let from = bytes_to_sector_index (wrap32 (len - 1));
     let upto = bytes_to_sector_index (wrap32 (new_length - 1));
     (len, s) \<leftarrow> inode_get_length (isector n) s;
     if len = 0 then do {
       (ok, s) \<leftarrow> inode_extend fm inode (sz (upto + 1)) s;
       if ok then do { s \<leftarrow> inode_set_length (isector n) new_length s; Some (True, s) }
       else Some (False, s) }
     else if from \<ge> upto then do {
       (len, s) \<leftarrow> inode_get_length (isector n) s;
       s \<leftarrow> (if len < new_length then inode_set_length (isector n) new_length s else Some s);
       Some (True, s) }
     else do {
       (ok, s) \<leftarrow> inode_extend fm inode (upto - from) s;
       if ok then do { s \<leftarrow> inode_set_length (isector n) new_length s; Some (True, s) }
       else Some (False, s) } }"

definition inode_extend_start :: "fm_ops \<Rightarrow> nat \<Rightarrow> nat \<Rightarrow> fs \<Rightarrow> (bool \<times> fs) option" where
  "inode_extend_start fm sector sectors s = do { s \<leftarrow> install_loop fm sector 0 sectors s; Some (True, s) }"

section \<open>Finding the sector of a byte\<close>

definition byte_to_sector :: "nat \<Rightarrow> int \<Rightarrow> fs \<Rightarrow> (nat \<times> fs) option" where
  "byte_to_sector inode pos s = do {
     n \<leftarrow> inodes s inode;
     let i = wrap32 (int (bytes_to_sector_index pos));
     ASSERT (i < NUM_DIRECT_PTRS + 128 * (1 + 128));
     (len, s) \<leftarrow> inode_get_length (isector n) s;
     if pos \<ge> len then Some (2 ^ 32 - 1, s)
     else do {
       (len, s) \<leftarrow> inode_get_length (isector n) s;
       ASSERT (pos < len);
       (sector, s) \<leftarrow>
         (if i < NUM_DIRECT_PTRS then inode_get_direct_ptr (isector n) i s
          else if i < NUM_DIRECT_PTRS + Indirect_Block then do {
            (single, s) \<leftarrow> inode_get_single_ptr (isector n) s;
            ASSERT (single \<noteq> 0);
            (single, s) \<leftarrow> inode_get_single_ptr (isector n) s;
            read_sector single (i - NUM_DIRECT_PTRS) s }
          else do {
            (double, s) \<leftarrow> inode_get_double_ptr (isector n) s;
            ASSERT (double \<noteq> 0);
            ASSERT (i \<ge> NUM_DIRECT_PTRS + Indirect_Block);
            let dab = i - NUM_DIRECT_PTRS - Indirect_Block;
            (double, s) \<leftarrow> inode_get_double_ptr (isector n) s;
            (sec_mabel, s) \<leftarrow> read_sector double (dab div Indirect_Block) s;
            ASSERT (sec_mabel \<noteq> 0);
            read_sector sec_mabel (dab mod Indirect_Block) s });
       ASSERT (sector \<noteq> 0);
       Some (sector, s) } }"

section \<open>Creating, opening and closing\<close>

definition inode_init :: "fs \<Rightarrow> fs" where
  "inode_init s = s\<lparr>open_inodes := [], open_lock := None\<rparr>"

definition inode_create_wild :: "fm_ops \<Rightarrow> nat \<Rightarrow> int \<Rightarrow> bool \<Rightarrow> fs \<Rightarrow> (bool \<times> fs) option" where
  "inode_create_wild fm sector len is_dir s = do {
     ASSERT (len \<ge> 0);
     let sectors = bytes_to_sectors len;
     (ok, s) \<leftarrow> can_allocate fm sectors s;
     if ok then do {
       s \<leftarrow> inode_set_length sector len s;
       s \<leftarrow> inode_set_is_dir sector (if is_dir then 1 else 0) s;
       s \<leftarrow> inode_set_magic sector INODE_MAGIC s;
       inode_extend_start fm sector sectors s }
     else Some (False, s) }"

definition inode_create :: "fm_ops \<Rightarrow> nat \<Rightarrow> int \<Rightarrow> fs \<Rightarrow> (bool \<times> fs) option" where
  "inode_create fm sector len s = inode_create_wild fm sector len False s"

text \<open>The functions \<open>lock\<close> and \<open>rel\<close>.\<close>

definition ilock :: "nat \<Rightarrow> fs \<Rightarrow> fs option" where
  "ilock inode s = do {
     n \<leftarrow> inodes s inode;
     ASSERT (imagic n = INODE_MAGIC);
     l \<leftarrow> lk_acquire (me s) (inode_lock n);
     Some (upd_inode inode (n\<lparr>inode_lock := l\<rparr>) s) }"

definition irel :: "nat \<Rightarrow> fs \<Rightarrow> fs option" where
  "irel inode s = do {
     n \<leftarrow> inodes s inode;
     l \<leftarrow> lk_release (me s) (inode_lock n);
     Some (upd_inode inode (n\<lparr>inode_lock := l\<rparr>) s) }"

fun find_open :: "fs \<Rightarrow> nat \<Rightarrow> nat list \<Rightarrow> nat option option" where
  "find_open s sector [] = Some None"
| "find_open s sector (p # ps) = do {
     n \<leftarrow> inodes s p;
     if isector n = sector then Some (Some p) else find_open s sector ps }"

definition inode_open :: "nat \<Rightarrow> fs \<Rightarrow> (nat \<times> fs) option" where
  "inode_open sector s = do {
     l \<leftarrow> lk_acquire (me s) (open_lock s);
     let s = s\<lparr>open_lock := l\<rparr>;
     r \<leftarrow> find_open s sector (open_inodes s);
     case r of
       Some p \<Rightarrow> do {
         n \<leftarrow> inodes s p;
         let s = upd_inode p (n\<lparr>open_cnt := open_cnt n + 1\<rparr>) s;
         l \<leftarrow> lk_release (me s) (open_lock s);
         Some (p, s\<lparr>open_lock := l\<rparr>) }
     | None \<Rightarrow> do {
         let p = next_addr s;
         let s = s\<lparr>next_addr := p + 1, open_inodes := p # open_inodes s\<rparr>;
         l \<leftarrow> lk_release (me s) (open_lock s);
         let s = s\<lparr>open_lock := l\<rparr>;
         let n = \<lparr>isector = sector, open_cnt = 1, removed = False, deny_write_cnt = 0, imagic = INODE_MAGIC,
           inode_lock = None, inode_dir_lock = None\<rparr>;
         Some (p, upd_inode p n (s\<lparr>g_inodes_created := g_inodes_created s + 1\<rparr>)) } }"

definition inode_reopen :: "nat \<Rightarrow> fs \<Rightarrow> (nat \<times> fs) option" where
  "inode_reopen inode s = do {
     ASSERT (inode \<noteq> 0);
     s \<leftarrow> ilock inode s;
     n \<leftarrow> inodes s inode;
     s \<leftarrow> irel inode (upd_inode inode (n\<lparr>open_cnt := open_cnt n + 1\<rparr>) s);
     Some (inode, s) }"

definition inode_get_inumber :: "nat \<Rightarrow> fs \<Rightarrow> (nat \<times> fs) option" where
  "inode_get_inumber inode s = do {
     s \<leftarrow> ilock inode s;
     n \<leftarrow> inodes s inode;
     s \<leftarrow> irel inode s;
     Some (isector n, s) }"

text \<open>The loop over the direct pointers in \<open>inode_close\<close>.\<close>

function release_direct :: "fm_ops \<Rightarrow> nat \<Rightarrow> nat \<Rightarrow> fs \<Rightarrow> fs option" where
  "release_direct fm sector i s =
     (if i < 12 then do {
        (x, s) \<leftarrow> inode_get_direct_ptr sector (int i) s;
        if x = 0 then Some s
        else do {
          (x, s) \<leftarrow> inode_get_direct_ptr sector (int i) s;
          s \<leftarrow> fm_release fm x 1 s;
          release_direct fm sector (i + 1) s } }
      else Some s)"
  by pat_completeness auto
termination
  by (relation "measure (\<lambda>(fm, sector, i, s). 12 - i)") auto

text \<open>The loop of \<open>clear_data\<close>, with the recursive call as its argument, and \<open>clear_data\<close> itself.\<close>

function clear_loop :: "(nat \<Rightarrow> fs \<Rightarrow> (bool \<times> fs) option) \<Rightarrow> nat \<Rightarrow> nat \<Rightarrow> fs \<Rightarrow> (bool \<times> fs) option" where
  "clear_loop rec sector i s =
     (if i < 128 then do {
        (x, s) \<leftarrow> read_sector sector (int i) s;
        (stop, s) \<leftarrow> rec x s;
        if stop then Some (True, s) else clear_loop rec sector (i + 1) s }
      else Some (False, s))"
  by pat_completeness auto
termination
  by (relation "measure (\<lambda>(rec, sector, i, s). 128 - i)") auto

primrec clear_data :: "nat \<Rightarrow> fm_ops \<Rightarrow> nat \<Rightarrow> fs \<Rightarrow> (bool \<times> fs) option" where
  "clear_data 0 fm sector s = (if sector = 0 then Some (True, s) else None)"
| "clear_data (Suc level) fm sector s =
     (if sector = 0 then Some (True, s)
      else if level = 0 then do { s \<leftarrow> fm_release fm sector 1 s; Some (False, s) }
      else clear_loop (clear_data level fm) sector 0 s)"

definition inode_is :: "nat \<Rightarrow> fs \<Rightarrow> bool" where
  "inode_is inode s = (case inodes s inode of Some n \<Rightarrow> imagic n = INODE_MAGIC | None \<Rightarrow> False)"

definition inode_close :: "fm_ops \<Rightarrow> nat \<Rightarrow> fs \<Rightarrow> fs option" where
  "inode_close fm inode s =
     (if inode = 0 then Some s
      else do {
        n \<leftarrow> inodes s inode;
        l \<leftarrow> lk_acquire (me s) (inode_lock n);
        let s = upd_inode inode (n\<lparr>inode_lock := l, open_cnt := open_cnt n - 1\<rparr>) s;
        if open_cnt n - 1 = 0 then do {
          ASSERT (inode \<in> set (open_inodes s));
          let s = s\<lparr>open_inodes := remove1 inode (open_inodes s)\<rparr>;
          s \<leftarrow> (if removed n then do {
                 s \<leftarrow> fm_release fm (isector n) 1 s;
                 s \<leftarrow> release_direct fm (isector n) 0 s;
                 (single, s) \<leftarrow> inode_get_single_ptr (isector n) s;
                 (_, s) \<leftarrow> clear_data 2 fm single s;
                 (double, s) \<leftarrow> inode_get_double_ptr (isector n) s;
                 (_, s) \<leftarrow> clear_data 3 fm double s;
                 Some s }
               else Some s);
          s \<leftarrow> irel inode s;
          ASSERT (inode_is inode s);
          Some (s\<lparr>inodes := (inodes s)(inode := None), g_inodes_freed := g_inodes_freed s + 1\<rparr>) }
        else irel inode s })"

definition inode_remove :: "nat \<Rightarrow> fs \<Rightarrow> fs option" where
  "inode_remove inode s = do {
     ASSERT (inode \<noteq> 0);
     s \<leftarrow> ilock inode s;
     n \<leftarrow> inodes s inode;
     irel inode (upd_inode inode (n\<lparr>removed := True\<rparr>) s) }"

section \<open>Reading and writing\<close>

definition inode_length :: "nat \<Rightarrow> fs \<Rightarrow> (int \<times> fs) option" where
  "inode_length inode s = do {
     ASSERT (inode \<noteq> 0);
     n \<leftarrow> inodes s inode;
     inode_get_length (isector n) s }"

text \<open>The number of bytes to copy in one iteration of the loops of \<open>inode_read_at\<close> and
  \<open>inode_write_at\<close>.\<close>

definition chunk :: "int \<Rightarrow> int \<Rightarrow> int \<Rightarrow> int" where
  "chunk nbytes len offset =
     (let sector_ofs = offset smod 512;
          inode_left = wrap32 (len - offset);
          sector_left = 512 - sector_ofs;
          min_left = (if inode_left < sector_left then inode_left else sector_left)
      in if nbytes < min_left then nbytes else min_left)"

text \<open>The result is what is stored in the buffer; the number returned is its length.\<close>

function inode_read_loop :: "nat \<Rightarrow> int \<Rightarrow> int \<Rightarrow> fs \<Rightarrow> (bytes \<times> fs) option" where
  "inode_read_loop inode nbytes offset s =
     (if nbytes > 0 then do {
        (sector_idx, s) \<leftarrow> byte_to_sector inode offset s;
        (len, s) \<leftarrow> inode_length inode s;
        let chunk_size = chunk nbytes len offset;
        if chunk_size \<le> 0 then Some ([], s)
        else do {
          (b, s) \<leftarrow> fs_read sector_idx (offset smod 512) (offset smod 512 + chunk_size) s;
          (rest, s) \<leftarrow> inode_read_loop inode (nbytes - chunk_size) (offset + chunk_size) s;
          Some (b @ rest, s) } }
      else Some ([], s))"
  by pat_completeness auto
termination
  by (relation "measure (\<lambda>(inode, nbytes, offset, s). nat nbytes)") (auto simp: chunk_def Let_def)

definition inode_read_at :: "nat \<Rightarrow> int \<Rightarrow> int \<Rightarrow> fs \<Rightarrow> (bytes \<times> fs) option" where
  "inode_read_at inode nbytes offset s = do {
     ASSERT (inode \<noteq> 0);
     s \<leftarrow> ilock inode s;
     (b, s) \<leftarrow> inode_read_loop inode nbytes offset s;
     s \<leftarrow> irel inode s;
     Some (b, s) }"

function inode_write_loop :: "nat \<Rightarrow> bytes \<Rightarrow> int \<Rightarrow> int \<Rightarrow> fs \<Rightarrow> (int \<times> fs) option" where
  "inode_write_loop inode buf nbytes offset s =
     (if nbytes > 0 then do {
        (sector_idx, s) \<leftarrow> byte_to_sector inode offset s;
        (len, s) \<leftarrow> inode_length inode s;
        let chunk_size = chunk nbytes len offset;
        if chunk_size \<le> 0 then Some (0, s)
        else do {
          s \<leftarrow> fs_write sector_idx buf (offset smod 512) (offset smod 512 + chunk_size) s;
          (n, s) \<leftarrow> inode_write_loop inode (drop (nat chunk_size) buf) (nbytes - chunk_size) (offset + chunk_size) s;
          Some (chunk_size + n, s) } }
      else Some (0, s))"
  by pat_completeness auto
termination
  by (relation "measure (\<lambda>(inode, buf, nbytes, offset, s). nat nbytes)") (auto simp: chunk_def Let_def)

definition inode_write_at :: "fm_ops \<Rightarrow> nat \<Rightarrow> bytes \<Rightarrow> int \<Rightarrow> int \<Rightarrow> fs \<Rightarrow> (int \<times> fs) option" where
  "inode_write_at fm inode buf nbytes offset s = do {
     ASSERT (inode \<noteq> 0);
     s \<leftarrow> ilock inode s;
     (_, s) \<leftarrow> inode_extend_to_bytes fm inode (wrap32 (offset + nbytes)) s;
     n \<leftarrow> inodes s inode;
     if deny_write_cnt n \<noteq> 0 then do { s \<leftarrow> irel inode s; Some (0, s) }
     else do {
       (cnt, s) \<leftarrow> inode_write_loop inode buf nbytes offset s;
       s \<leftarrow> irel inode s;
       Some (cnt, s) } }"

text \<open>The first statement of \<open>inode_read_at_no_buffer\<close> is \<open>ASSERT (false)\<close>.\<close>

definition inode_read_at_no_buffer :: "nat \<Rightarrow> int \<Rightarrow> int \<Rightarrow> fs \<Rightarrow> (bytes \<times> fs) option" where
  "inode_read_at_no_buffer inode nbytes offset s = None"

section \<open>Attributes\<close>

definition inode_deny_write :: "nat \<Rightarrow> fs \<Rightarrow> fs option" where
  "inode_deny_write inode s = do {
     ASSERT (inode \<noteq> 0);
     s \<leftarrow> ilock inode s;
     n \<leftarrow> inodes s inode;
     let n = n\<lparr>deny_write_cnt := deny_write_cnt n + 1\<rparr>;
     ASSERT (deny_write_cnt n \<le> open_cnt n);
     irel inode (upd_inode inode n s) }"

definition inode_allow_write :: "nat \<Rightarrow> fs \<Rightarrow> fs option" where
  "inode_allow_write inode s = do {
     ASSERT (inode \<noteq> 0);
     n \<leftarrow> inodes s inode;
     ASSERT (deny_write_cnt n > 0);
     ASSERT (deny_write_cnt n \<le> open_cnt n);
     s \<leftarrow> ilock inode s;
     n \<leftarrow> inodes s inode;
     irel inode (upd_inode inode (n\<lparr>deny_write_cnt := deny_write_cnt n - 1\<rparr>) s) }"

definition inode_is_dir :: "nat \<Rightarrow> fs \<Rightarrow> (bool \<times> fs) option" where
  "inode_is_dir inode s = do {
     ASSERT (inode \<noteq> 0);
     s \<leftarrow> ilock inode s;
     n \<leftarrow> inodes s inode;
     (d, s) \<leftarrow> inode_get_is_dir (isector n) s;
     s \<leftarrow> irel inode s;
     Some (d = 1, s) }"

definition get_dir_lock :: "nat \<Rightarrow> fs \<Rightarrow> fs option" where
  "get_dir_lock inode s = do {
     ASSERT (inode \<noteq> 0);
     s \<leftarrow> ilock inode s;
     n \<leftarrow> inodes s inode;
     l \<leftarrow> lk_acquire (me s) (inode_dir_lock n);
     irel inode (upd_inode inode (n\<lparr>inode_dir_lock := l\<rparr>) s) }"

definition release_dir_lock :: "nat \<Rightarrow> fs \<Rightarrow> fs option" where
  "release_dir_lock inode s = do {
     ASSERT (inode \<noteq> 0);
     s \<leftarrow> ilock inode s;
     n \<leftarrow> inodes s inode;
     l \<leftarrow> lk_release (me s) (inode_dir_lock n);
     irel inode (upd_inode inode (n\<lparr>inode_dir_lock := l\<rparr>) s) }"

definition inode_set_dir :: "nat \<Rightarrow> fs \<Rightarrow> fs option" where
  "inode_set_dir inode s = do { n \<leftarrow> inodes s inode; inode_set_is_dir (isector n) 1 s }"

definition get_inode_sector :: "nat \<Rightarrow> fs \<Rightarrow> nat option" where
  "get_inode_sector inode s = do { n \<leftarrow> inodes s inode; Some (isector n) }"

definition o_inumber :: "nat \<Rightarrow> fs \<Rightarrow> (nat \<times> fs) option" where
  "o_inumber inode s = do { ASSERT (inode \<noteq> 0); inode_get_inumber inode s }"

definition to_be_removed :: "nat \<Rightarrow> fs \<Rightarrow> (bool \<times> fs) option" where
  "to_be_removed inode s = do {
     s \<leftarrow> ilock inode s;
     n \<leftarrow> inodes s inode;
     s \<leftarrow> irel inode s;
     Some (removed n, s) }"

definition inode_cnt :: "nat \<Rightarrow> fs \<Rightarrow> int option" where
  "inode_cnt inode s = do {
     ASSERT (inode \<noteq> 0);
     n \<leftarrow> inodes s inode;
     ASSERT (imagic n = INODE_MAGIC);
     Some (open_cnt n) }"

declare can_allocate_loop.simps [simp del] install_loop.simps [simp del] release_direct.simps [simp del]
  clear_loop.simps [simp del] inode_read_loop.simps [simp del] inode_write_loop.simps [simp del]

end
