(* ===== verification/File_Map.thy ===== *)
theory File_Map
  imports Inode
begin

text \<open>
  Open files (\<open>filesys/file.c\<close>), bitmaps in files (\<open>bitmap_read\<close> and \<open>bitmap_write\<close> of
  \<open>lib/kernel/bitmap.c\<close>) and the free map (\<open>filesys/free-map.c\<close>), on the state of \<open>Inode\<close>.
  \<open>FM\<close> is the pair of operations that the inode layer uses to allocate and release sectors.
\<close>

section \<open>Open files\<close>

definition upd_file :: "nat \<Rightarrow> ofile \<Rightarrow> fs \<Rightarrow> fs" where
  "upd_file p f s = s\<lparr>files := (files s)(p \<mapsto> f)\<rparr>"

definition file_open :: "nat \<Rightarrow> fs \<Rightarrow> (nat \<times> fs) option" where
  "file_open inode s =
     (if inode = 0 then Some (0, s)
      else do {
        let p = next_addr s;
        let s = s\<lparr>next_addr := p + 1, g_file_calloc := g_file_calloc s + 1\<rparr>;
        Some (p, upd_file p \<lparr>f_inode = inode, f_pos = 0, f_deny_write = False\<rparr> s) })"

definition file_reopen :: "nat \<Rightarrow> fs \<Rightarrow> (nat \<times> fs) option" where
  "file_reopen p s = do {
     f \<leftarrow> files s p;
     (inode, s) \<leftarrow> inode_reopen (f_inode f) s;
     file_open inode s }"

definition file_allow_write :: "nat \<Rightarrow> fs \<Rightarrow> fs option" where
  "file_allow_write p s = do {
     ASSERT (p \<noteq> 0);
     f \<leftarrow> files s p;
     if f_deny_write f then inode_allow_write (f_inode f) (upd_file p (f\<lparr>f_deny_write := False\<rparr>) s)
     else Some s }"

definition file_close :: "fm_ops \<Rightarrow> nat \<Rightarrow> fs \<Rightarrow> fs option" where
  "file_close fm p s =
     (if p \<noteq> 0 then do {
        s \<leftarrow> file_allow_write p s;
        f \<leftarrow> files s p;
        s \<leftarrow> inode_close fm (f_inode f) s;
        Some (s\<lparr>files := (files s)(p := None), g_file_freed := g_file_freed s + 1\<rparr>) }
      else Some s)"

definition file_get_inode :: "nat \<Rightarrow> fs \<Rightarrow> nat option" where
  "file_get_inode p s = do { f \<leftarrow> files s p; Some (f_inode f) }"

definition file_read :: "nat \<Rightarrow> int \<Rightarrow> fs \<Rightarrow> (bytes \<times> fs) option" where
  "file_read p nbytes s = do {
     f \<leftarrow> files s p;
     (b, s) \<leftarrow> inode_read_at (f_inode f) nbytes (f_pos f) s;
     f \<leftarrow> files s p;
     Some (b, upd_file p (f\<lparr>f_pos := wrap32 (f_pos f + int (length b))\<rparr>) s) }"

definition file_read_at :: "nat \<Rightarrow> int \<Rightarrow> int \<Rightarrow> fs \<Rightarrow> (bytes \<times> fs) option" where
  "file_read_at p nbytes file_ofs s = do {
     f \<leftarrow> files s p;
     inode_read_at (f_inode f) nbytes file_ofs s }"

definition file_write :: "fm_ops \<Rightarrow> nat \<Rightarrow> bytes \<Rightarrow> int \<Rightarrow> fs \<Rightarrow> (int \<times> fs) option" where
  "file_write fm p buf nbytes s = do {
     f \<leftarrow> files s p;
     (cnt, s) \<leftarrow> inode_write_at fm (f_inode f) buf nbytes (f_pos f) s;
     f \<leftarrow> files s p;
     Some (cnt, upd_file p (f\<lparr>f_pos := wrap32 (f_pos f + cnt)\<rparr>) s) }"

definition file_write_at :: "fm_ops \<Rightarrow> nat \<Rightarrow> bytes \<Rightarrow> int \<Rightarrow> int \<Rightarrow> fs \<Rightarrow> (int \<times> fs) option" where
  "file_write_at fm p buf nbytes file_ofs s = do {
     f \<leftarrow> files s p;
     inode_write_at fm (f_inode f) buf nbytes file_ofs s }"

definition file_deny_write :: "nat \<Rightarrow> fs \<Rightarrow> fs option" where
  "file_deny_write p s = do {
     ASSERT (p \<noteq> 0);
     f \<leftarrow> files s p;
     if \<not> f_deny_write f then inode_deny_write (f_inode f) (upd_file p (f\<lparr>f_deny_write := True\<rparr>) s)
     else Some s }"

definition file_length :: "nat \<Rightarrow> fs \<Rightarrow> (int \<times> fs) option" where
  "file_length p s = do {
     ASSERT (p \<noteq> 0);
     f \<leftarrow> files s p;
     inode_length (f_inode f) s }"

definition file_seek :: "nat \<Rightarrow> int \<Rightarrow> fs \<Rightarrow> fs option" where
  "file_seek p new_pos s = do {
     ASSERT (p \<noteq> 0);
     ASSERT (new_pos \<ge> 0);
     f \<leftarrow> files s p;
     Some (upd_file p (f\<lparr>f_pos := new_pos\<rparr>) s) }"

definition file_tell :: "nat \<Rightarrow> fs \<Rightarrow> int option" where
  "file_tell p s = do {
     ASSERT (p \<noteq> 0);
     f \<leftarrow> files s p;
     Some (f_pos f) }"

section \<open>Bitmaps in files\<close>

definition bitmap_bytes :: "bitmap \<Rightarrow> bytes" where
  "bitmap_bytes b = concat (map le32 (bits b))"

fun words_of :: "bytes \<Rightarrow> u32 list" where
  "words_of (a # b # c # d # r) = un_le32 [a, b, c, d] # words_of r"
| "words_of _ = []"

definition bitmap_read :: "bitmap \<Rightarrow> nat \<Rightarrow> fs \<Rightarrow> (bool \<times> bitmap \<times> fs) option" where
  "bitmap_read b p s =
     (if bit_cnt b > 0 then do {
        let nbytes = wrap32 (int (byte_cnt (bit_cnt b)));
        (x, s) \<leftarrow> file_read_at p nbytes 0 s;
        let ws = words_of (x @ drop (length x) (bitmap_bytes b));
        let i = elem_cnt (bit_cnt b) - 1;
        ASSERT (i < length ws);
        Some (int (length x) = nbytes, b\<lparr>bits := ws[i := and (ws ! i) (last_mask b)]\<rparr>, s) }
      else Some (True, b, s))"

definition bitmap_write :: "fm_ops \<Rightarrow> bitmap \<Rightarrow> nat \<Rightarrow> fs \<Rightarrow> (bool \<times> fs) option" where
  "bitmap_write fm b p s = do {
     let nbytes = wrap32 (int (byte_cnt (bit_cnt b)));
     (cnt, s) \<leftarrow> file_write_at fm p (bitmap_bytes b) nbytes 0 s;
     Some (cnt = nbytes, s) }"

section \<open>The free map\<close>

definition FREE_MAP_SECTOR :: nat where "FREE_MAP_SECTOR = 0"
definition ROOT_DIR_SECTOR :: nat where "ROOT_DIR_SECTOR = 1"

definition fm_lock :: "fs \<Rightarrow> fs option" where
  "fm_lock s = do { l \<leftarrow> lk_acquire (me s) (da_lock s); Some (s\<lparr>da_lock := l\<rparr>) }"

definition fm_rel :: "fs \<Rightarrow> fs option" where
  "fm_rel s = do { l \<leftarrow> lk_release (me s) (da_lock s); Some (s\<lparr>da_lock := l\<rparr>) }"

text \<open>While the free map is written the current thread holds \<open>da_lock\<close>: a nested allocation or
  release does not return (\<open>nested_allocation_stuck\<close> below).\<close>

definition no_fm :: fm_ops where
  "no_fm = \<lparr>fm_allocate = \<lambda>_ _. None, fm_release = \<lambda>_ _ _. None\<rparr>"

text \<open>\<open>mem\<close> is the memory that \<open>malloc\<close> returned for the elements.\<close>

definition free_map_init :: "u32 list \<Rightarrow> fs \<Rightarrow> fs option" where
  "free_map_init mem s = do {
     r \<leftarrow> bitmap_create True (Some mem) (block_size (fs_device s) (disk s));
     b \<leftarrow> r;
     b \<leftarrow> bitmap_mark b FREE_MAP_SECTOR;
     b \<leftarrow> bitmap_mark b ROOT_DIR_SECTOR;
     Some (s\<lparr>free_map := b, da_lock := None\<rparr>) }"

definition free_map_allocate :: "nat \<Rightarrow> fs \<Rightarrow> (nat option \<times> fs) option" where
  "free_map_allocate cnt s = do {
     s \<leftarrow> fm_lock s;
     let s = s\<lparr>alloc_sectors := wrap32 (alloc_sectors s + int cnt)\<rparr>;
     (sector, b) \<leftarrow> bitmap_scan_and_flip (free_map s) 0 cnt False;
     let s = s\<lparr>free_map := b\<rparr>;
     (sector, s) \<leftarrow>
       (if sector \<noteq> BITMAP_ERROR \<and> free_map_file s \<noteq> 0 then do {
          (ok, s) \<leftarrow> bitmap_write no_fm (free_map s) (free_map_file s) s;
          if \<not> ok then do {
            b \<leftarrow> bitmap_set_multiple (free_map s) sector cnt False;
            Some (BITMAP_ERROR, s\<lparr>free_map := b\<rparr>) }
          else Some (sector, s) }
        else Some (sector, s));
     s \<leftarrow> fm_rel s;
     Some (if sector \<noteq> BITMAP_ERROR then Some sector else None, s) }"

definition free_map_release :: "nat \<Rightarrow> nat \<Rightarrow> fs \<Rightarrow> fs option" where
  "free_map_release sector cnt s = do {
     used \<leftarrow> bitmap_all (free_map s) sector cnt;
     ASSERT used;
     s \<leftarrow> fm_lock s;
     b \<leftarrow> bitmap_set_multiple (free_map s) sector cnt False;
     let s = s\<lparr>free_map := b\<rparr>;
     (_, s) \<leftarrow> bitmap_write no_fm (free_map s) (free_map_file s) s;
     fm_rel s }"

definition FM :: fm_ops where
  "FM = \<lparr>fm_allocate = free_map_allocate, fm_release = free_map_release\<rparr>"

lemma nested_allocation_stuck:
  assumes "da_lock s = Some (me s)"
  shows "fm_allocate FM cnt s = None" "fm_release FM sector cnt s = None"
  using assms by (simp_all add: FM_def free_map_allocate_def free_map_release_def fm_lock_def lk_acquire_def
      bind_eq_None_conv)

definition free_map_open :: "fs \<Rightarrow> fs option" where
  "free_map_open s = do {
     (inode, s) \<leftarrow> inode_open FREE_MAP_SECTOR s;
     (f, s) \<leftarrow> file_open inode s;
     let s = s\<lparr>free_map_file := f\<rparr>;
     ASSERT (f \<noteq> 0);
     (ok, b, s) \<leftarrow> bitmap_read (free_map s) f s;
     ASSERT ok;
     Some (s\<lparr>free_map := b\<rparr>) }"

definition free_map_close :: "fs \<Rightarrow> fs option" where
  "free_map_close s = file_close FM (free_map_file s) s"

definition free_map_create :: "fs \<Rightarrow> fs option" where
  "free_map_create s = do {
     (ok, s) \<leftarrow> inode_create FM FREE_MAP_SECTOR (wrap32 (int (bitmap_file_size (free_map s)))) s;
     ASSERT ok;
     (inode, s) \<leftarrow> inode_open FREE_MAP_SECTOR s;
     (f, s) \<leftarrow> file_open inode s;
     let s = s\<lparr>free_map_file := f\<rparr>;
     ASSERT (f \<noteq> 0);
     (ok, s) \<leftarrow> bitmap_write FM (free_map s) f s;
     ASSERT ok;
     Some s }"

end
