(* ===== verification/Directory.thy ===== *)
theory Directory
  imports File_Map
begin

text \<open>
  Directories and paths (\<open>filesys/directory.c\<close>) and the file system interface
  (\<open>filesys/filesys.c\<close>), on the state of \<open>Inode\<close>. A C string that is an argument is the list of
  its characters before the terminating null; a character array is a list of its bytes. A
  directory entry is its 20 bytes: the sector, the name of 15 characters and the flag \<open>in_use\<close>.
  An uninitialised local variable holds bytes of \<open>uninit\<close>.
\<close>

definition NAME_MAX :: nat where "NAME_MAX = 14"
definition PATH_MAX :: nat where "PATH_MAX = 256"

section \<open>Directory entries\<close>

definition e_inode_sector :: "bytes \<Rightarrow> nat" where
  "e_inode_sector e = unat (un_le32 (take 4 e))"

definition e_name :: "bytes \<Rightarrow> bytes" where
  "e_name e = take 15 (drop 4 e)"

definition e_in_use :: "bytes \<Rightarrow> bool" where
  "e_in_use e \<longleftrightarrow> e ! 19 \<noteq> 0"

definition set_in_use :: "bool \<Rightarrow> bytes \<Rightarrow> bytes" where
  "set_in_use b e = e[19 := (if b then 1 else 0)]"

text \<open>\<open>strcmp (name, a) == 0\<close> for a string and the memory at \<open>a\<close>; \<open>None\<close> if the comparison runs
  past the end of that memory.\<close>

fun str_eq :: "bytes \<Rightarrow> bytes \<Rightarrow> bool option" where
  "str_eq (c # cs) (x # xs) = (if c = x then str_eq cs xs else Some False)"
| "str_eq [] (x # xs) = Some (x = 0)"
| "str_eq cs [] = None"

text \<open>The string in a character array, and \<open>strlcpy\<close> into an array of 15 characters.\<close>

definition cstring :: "bytes \<Rightarrow> bytes option" where
  "cstring a = (if 0 \<in> set a then Some (takeWhile ((\<noteq>) 0) a) else None)"

definition copy_name :: "bytes \<Rightarrow> bytes \<Rightarrow> bytes" where
  "copy_name name a = take NAME_MAX name @ [0] @ drop (length (take NAME_MAX name) + 1) a"

definition new_entry :: "bytes \<Rightarrow> nat \<Rightarrow> bytes \<Rightarrow> bytes" where
  "new_entry name inode_sector e = le32 (of_nat inode_sector) @ copy_name name (e_name e) @ [1]"

section \<open>Opening and closing\<close>

definition upd_dir :: "nat \<Rightarrow> dir \<Rightarrow> fs \<Rightarrow> fs" where
  "upd_dir p d s = s\<lparr>dirs := (dirs s)(p \<mapsto> d)\<rparr>"

definition dir_create :: "nat \<Rightarrow> nat \<Rightarrow> fs \<Rightarrow> (bool \<times> fs) option" where
  "dir_create sector entry_cnt s = inode_create_wild FM sector (wrap32 (int (sz (entry_cnt * 20)))) True s"

definition dir_open :: "nat \<Rightarrow> fs \<Rightarrow> (nat \<times> fs) option" where
  "dir_open inode s = do {
     ASSERT (inode \<noteq> 0);
     let p = next_addr s;
     let s = s\<lparr>next_addr := p + 1, g_dir_calloc := g_dir_calloc s + 1\<rparr>;
     Some (p, upd_dir p \<lparr>d_inode = inode, d_pos = 0\<rparr> s) }"

definition dir_open_root :: "fs \<Rightarrow> (nat \<times> fs) option" where
  "dir_open_root s = do { (inode, s) \<leftarrow> inode_open ROOT_DIR_SECTOR s; dir_open inode s }"

definition dir_reopen :: "nat \<Rightarrow> fs \<Rightarrow> (nat \<times> fs) option" where
  "dir_reopen p s = do {
     ASSERT (p \<noteq> 0);
     d \<leftarrow> dirs s p;
     if \<not> inode_is (d_inode d) s then Some (0, s)
     else do { (inode, s) \<leftarrow> inode_reopen (d_inode d) s; dir_open inode s } }"

definition dir_close :: "nat \<Rightarrow> fs \<Rightarrow> fs option" where
  "dir_close p s =
     (if p \<noteq> 0 then do {
        d \<leftarrow> dirs s p;
        ASSERT (d_inode d \<noteq> 0);
        s \<leftarrow> (if inode_is (d_inode d) s then inode_close FM (d_inode d) s else Some s);
        Some (s\<lparr>dirs := (dirs s)(p := None), g_dir_freed := g_dir_freed s + 1\<rparr>) }
      else Some s)"

definition dir_get_inode :: "nat \<Rightarrow> fs \<Rightarrow> nat option" where
  "dir_get_inode p s = do { ASSERT (p \<noteq> 0); d \<leftarrow> dirs s p; Some (d_inode d) }"

section \<open>Looking up, adding and removing entries\<close>

text \<open>The result is the entry found and its offset.\<close>

partial_function (option) lookup_loop :: "nat \<Rightarrow> bytes \<Rightarrow> nat \<Rightarrow> fs \<Rightarrow> ((bytes \<times> nat) option \<times> fs) option" where
  "lookup_loop inode name ofs s = do {
     (e, s) \<leftarrow> inode_read_at inode 20 (wrap32 (int ofs)) s;
     if length e = 20 then do {
       m \<leftarrow> (if e_in_use e then str_eq name (drop 4 e) else Some False);
       if m then Some (Some (e, ofs), s) else lookup_loop inode name (sz (ofs + 20)) s }
     else Some (None, s) }"

definition lookup_unsynched :: "nat \<Rightarrow> bytes \<Rightarrow> fs \<Rightarrow> ((bytes \<times> nat) option \<times> fs) option" where
  "lookup_unsynched p name s = do {
     inode \<leftarrow> dir_get_inode p s;
     lookup_loop inode name 0 s }"

definition lookup :: "nat \<Rightarrow> bytes \<Rightarrow> fs \<Rightarrow> ((bytes \<times> nat) option \<times> fs) option" where
  "lookup p name s = do {
     inode \<leftarrow> dir_get_inode p s;
     s \<leftarrow> get_dir_lock inode s;
     (r, s) \<leftarrow> lookup_unsynched p name s;
     inode \<leftarrow> dir_get_inode p s;
     s \<leftarrow> release_dir_lock inode s;
     Some (r, s) }"

text \<open>The result is \<open>*inode\<close>; the function returns whether it is not null.\<close>

definition dir_lookup_unsynched :: "nat \<Rightarrow> bytes \<Rightarrow> fs \<Rightarrow> (nat \<times> fs) option" where
  "dir_lookup_unsynched p name s = do {
     (r, s) \<leftarrow> lookup_unsynched p name s;
     case r of
       Some (e, ofs) \<Rightarrow> do {
         (inode, s) \<leftarrow> inode_open (e_inode_sector e) s;
         ASSERT (inode \<noteq> 0);
         ASSERT (inode_is inode s);
         Some (inode, s) }
     | None \<Rightarrow> do { ASSERT (name \<noteq> [46, 46]); Some (0, s) } }"

definition dir_lookup :: "nat \<Rightarrow> bytes \<Rightarrow> fs \<Rightarrow> (nat \<times> fs) option" where
  "dir_lookup p name s = do {
     inode \<leftarrow> dir_get_inode p s;
     s \<leftarrow> get_dir_lock inode s;
     (r, s) \<leftarrow> dir_lookup_unsynched p name s;
     inode \<leftarrow> dir_get_inode p s;
     s \<leftarrow> release_dir_lock inode s;
     Some (r, s) }"

text \<open>The loop that looks for a free slot; \<open>e\<close> is the local variable the entries are read to.\<close>

partial_function (option) free_slot :: "nat \<Rightarrow> bytes \<Rightarrow> int \<Rightarrow> fs \<Rightarrow> (int \<times> bytes \<times> fs) option" where
  "free_slot inode e ofs s = do {
     (x, s) \<leftarrow> inode_read_at inode 20 ofs s;
     let e = x @ drop (length x) e;
     if length x = 20 \<and> e_in_use e then free_slot inode e (wrap32 (ofs + 20)) s
     else Some (ofs, e, s) }"

definition dir_add_unsynched :: "nat \<Rightarrow> bytes \<Rightarrow> nat \<Rightarrow> fs \<Rightarrow> (bool \<times> fs) option" where
  "dir_add_unsynched p name inode_sector s = do {
     ASSERT (p \<noteq> 0);
     if name = [] \<or> length name > NAME_MAX then Some (False, s)
     else do {
       (r, s) \<leftarrow> lookup_unsynched p name s;
       if r \<noteq> None then Some (False, s)
       else do {
         inode \<leftarrow> dir_get_inode p s;
         (ofs, e, s) \<leftarrow> free_slot inode (take 20 (uninit s)) 0 s;
         (cnt, s) \<leftarrow> inode_write_at FM inode (new_entry name inode_sector e) 20 ofs s;
         Some (cnt = 20, s) } } }"

definition dir_add :: "nat \<Rightarrow> bytes \<Rightarrow> nat \<Rightarrow> fs \<Rightarrow> (bool \<times> fs) option" where
  "dir_add p name inode_sector s = do {
     inode \<leftarrow> dir_get_inode p s;
     s \<leftarrow> get_dir_lock inode s;
     (ok, s) \<leftarrow> dir_add_unsynched p name inode_sector s;
     inode \<leftarrow> dir_get_inode p s;
     s \<leftarrow> release_dir_lock inode s;
     Some (ok, s) }"

definition dir_remove :: "nat \<Rightarrow> bytes \<Rightarrow> fs \<Rightarrow> (bool \<times> fs) option" where
  "dir_remove p name s = do {
     dinode \<leftarrow> dir_get_inode p s;
     s \<leftarrow> get_dir_lock dinode s;
     (r, s) \<leftarrow> lookup_unsynched p name s;
     case r of
       None \<Rightarrow> do { s \<leftarrow> release_dir_lock dinode s; Some (False, s) }
     | Some (e, ofs) \<Rightarrow> do {
         s \<leftarrow> release_dir_lock dinode s;
         (inode, s) \<leftarrow> inode_open (e_inode_sector e) s;
         ASSERT (inode \<noteq> 0);
         (cnt, s) \<leftarrow> inode_write_at FM dinode (set_in_use False e) 20 (wrap32 (int ofs)) s;
         ASSERT (cnt = 20);
         s \<leftarrow> inode_remove inode s;
         s \<leftarrow> inode_close FM inode s;
         Some (True, s) } }"

text \<open>The loops of \<open>dir_readdir\<close>, \<open>dir_readdir_2\<close> and \<open>is_empty\<close>: \<open>skip\<close> holds of the names that
  the loop passes over. The result of \<open>readdir_loop\<close> is the bytes of the entry.\<close>

definition dot_name :: "bytes \<Rightarrow> bool option" where
  "dot_name e = do {
     a \<leftarrow> str_eq [46] (drop 4 e);
     if a then Some True else str_eq [46, 46] (drop 4 e) }"

partial_function (option) readdir_loop ::
    "(bytes \<Rightarrow> bool option) \<Rightarrow> nat \<Rightarrow> fs \<Rightarrow> (bytes option \<times> fs) option" where
  "readdir_loop skip p s = do {
     d \<leftarrow> dirs s p;
     (e, s) \<leftarrow> inode_read_at (d_inode d) 20 (d_pos d) s;
     if length e = 20 then do {
       d \<leftarrow> dirs s p;
       let s = upd_dir p (d\<lparr>d_pos := wrap32 (d_pos d + 20)\<rparr>) s;
       sk \<leftarrow> (if e_in_use e then skip e else Some True);
       if \<not> sk then Some (Some e, s) else readdir_loop skip p s }
     else Some (None, s) }"

text \<open>The result is the name, \<open>None\<close> if the function returns false.\<close>

definition dir_readdir :: "nat \<Rightarrow> fs \<Rightarrow> (bytes option \<times> fs) option" where
  "dir_readdir p s = do {
     inode \<leftarrow> dir_get_inode p s;
     ASSERT (inode \<noteq> 0);
     s \<leftarrow> get_dir_lock inode s;
     (r, s) \<leftarrow> readdir_loop (\<lambda>_. Some False) p s;
     inode \<leftarrow> dir_get_inode p s;
     s \<leftarrow> release_dir_lock inode s;
     case r of None \<Rightarrow> Some (None, s)
     | Some e \<Rightarrow> do { name \<leftarrow> cstring (drop 4 e); Some (Some (take NAME_MAX name), s) } }"

definition dir_readdir_2 :: "nat \<Rightarrow> fs \<Rightarrow> (bytes option \<times> fs) option" where
  "dir_readdir_2 p s = do {
     inode \<leftarrow> dir_get_inode p s;
     s \<leftarrow> get_dir_lock inode s;
     if \<not> inode_is inode s then Some (None, s)
     else do {
       (r, s) \<leftarrow> readdir_loop dot_name p s;
       inode \<leftarrow> dir_get_inode p s;
       s \<leftarrow> release_dir_lock inode s;
       case r of None \<Rightarrow> Some (None, s)
       | Some e \<Rightarrow> do { name \<leftarrow> cstring (drop 4 e); Some (Some (take NAME_MAX name), s) } } }"

partial_function (option) is_empty_loop :: "nat \<Rightarrow> nat \<Rightarrow> fs \<Rightarrow> (bool \<times> fs) option" where
  "is_empty_loop inode ofs s = do {
     (e, s) \<leftarrow> inode_read_at inode 20 (wrap32 (int ofs)) s;
     if length e = 20 then do {
       dot \<leftarrow> (if e_in_use e then dot_name e else Some True);
       if \<not> dot then Some (False, s) else is_empty_loop inode (sz (ofs + 20)) s }
     else Some (True, s) }"

definition is_empty :: "nat \<Rightarrow> fs \<Rightarrow> (bool \<times> fs) option" where
  "is_empty p s = do {
     inode \<leftarrow> dir_get_inode p s;
     s \<leftarrow> get_dir_lock inode s;
     (r, s) \<leftarrow> is_empty_loop inode 0 s;
     s \<leftarrow> release_dir_lock inode s;
     Some (r, s) }"

section \<open>Paths\<close>

text \<open>The result is the status, the array \<open>part\<close> and \<open>*srcp\<close>.\<close>

definition get_next_part :: "bytes \<Rightarrow> bytes \<Rightarrow> int \<times> bytes \<times> bytes" where
  "get_next_part part srcp =
     (let src = dropWhile ((=) 47) srcp;
          name = takeWhile ((\<noteq>) 47) src
      in if src = [] then (0, part, srcp)
         else if length name > NAME_MAX then (-1, take NAME_MAX name @ drop NAME_MAX part, srcp)
         else (1, name @ [0] @ drop (length name + 1) part, drop (length name) src))"

lemma get_next_part_shorter:
  "get_next_part part srcp = (status, part', srcp') \<Longrightarrow> status \<noteq> -1 \<Longrightarrow> status \<noteq> 0 \<Longrightarrow> length srcp' < length srcp"
proof -
  assume a: "get_next_part part srcp = (status, part', srcp')" "status \<noteq> -1" "status \<noteq> 0"
  define src where "src = dropWhile ((=) 47) srcp"
  define name where "name = takeWhile ((\<noteq>) 47) src"
  have b: "src \<noteq> []" "srcp' = drop (length name) src"
    using a by (auto simp: get_next_part_def Let_def src_def name_def split: if_splits)
  have "hd src \<noteq> 47" using b(1) hd_dropWhile [of "(=) 47" srcp] by (auto simp: src_def)
  then have "length name > 0" using b(1) by (cases src) (auto simp: name_def)
  moreover have "length src \<le> length srcp" by (simp add: src_def length_dropWhile_le)
  moreover have "length src > 0" using b(1) by simp
  ultimately show ?thesis unfolding b(2) length_drop by linarith
qed

function get_last_part :: "bytes \<Rightarrow> bytes \<Rightarrow> bool \<times> bytes \<times> bytes" where
  "get_last_part part srcp = (case get_next_part part srcp of
       (status, part', srcp') \<Rightarrow>
         if status = -1 then (False, part', srcp')
         else if status = 0 then (True, part', srcp')
         else get_last_part part' srcp')"
  by pat_completeness auto
termination
  by (relation "measure (\<lambda>(part, srcp). length srcp)") (auto dest: get_next_part_shorter [OF sym])

definition is_relative :: "bytes \<Rightarrow> bool" where
  "is_relative path \<longleftrightarrow> \<not> (path \<noteq> [] \<and> hd path = 47)"

definition close_locked :: "nat \<Rightarrow> fs \<Rightarrow> fs option" where
  "close_locked p s = do {
     inode \<leftarrow> dir_get_inode p s;
     s \<leftarrow> release_dir_lock inode s;
     dir_close p s }"

text \<open>The loop of \<open>get_inode_from_path\<close>. The result 0 is the null pointer.\<close>

function path_loop :: "bytes \<Rightarrow> bytes \<Rightarrow> bytes \<Rightarrow> nat \<Rightarrow> fs \<Rightarrow> (nat \<times> fs) option" where
  "path_loop path part saved_path cur_dir s = (case get_next_part part saved_path of
     (status, part', saved_path') \<Rightarrow>
       if status = -1 then do {
         s \<leftarrow> close_locked cur_dir s;
         ASSERT (path \<noteq> [46, 46]);
         Some (0, s) }
       else if status = 0 then do {
         inode \<leftarrow> dir_get_inode cur_dir s;
         (r, s) \<leftarrow> to_be_removed inode s;
         if r then do { s \<leftarrow> close_locked cur_dir s; Some (0, s) }
         else do {
           (again, s) \<leftarrow> inode_reopen inode s;
           s \<leftarrow> close_locked cur_dir s;
           Some (again, s) } }
       else do {
         name \<leftarrow> cstring part';
         ASSERT (cur_dir \<noteq> 0);
         (next, s) \<leftarrow> dir_lookup_unsynched cur_dir name s;
         inode \<leftarrow> dir_get_inode cur_dir s;
         (ok, s) \<leftarrow> (if next \<noteq> 0 then do { (r, s) \<leftarrow> to_be_removed inode s; Some (\<not> r, s) } else Some (False, s));
         if ok then do {
           s \<leftarrow> close_locked cur_dir s;
           (cur_dir, s) \<leftarrow> dir_open next s;
           s \<leftarrow> get_dir_lock next s;
           path_loop path part' saved_path' cur_dir s }
         else do { s \<leftarrow> close_locked cur_dir s; Some (0, s) } })"
  by pat_completeness auto
termination
  by (relation "measure (\<lambda>(path, part, saved_path, cur_dir, s). length saved_path)")
    (auto dest: get_next_part_shorter [OF sym])

declare get_last_part.simps [simp del] path_loop.simps [simp del]

definition get_inode_from_path :: "bytes \<Rightarrow> fs \<Rightarrow> (nat \<times> fs) option" where
  "get_inode_from_path path s =
     (if path = [] then do {
        cwd_i \<leftarrow> dir_get_inode (cwd s) s;
        if \<not> inode_is cwd_i s then Some (0, s)
        else do {
          (r, s) \<leftarrow> to_be_removed cwd_i s;
          if r then Some (0, s) else inode_reopen cwd_i s } }
      else if path = [47] then do {
        (d, s) \<leftarrow> dir_open_root s;
        inode \<leftarrow> dir_get_inode d s;
        Some (inode, s) }
      else do {
        (cur_dir, s) \<leftarrow> (if is_relative path then dir_reopen (cwd s) s else dir_open_root s);
        if cur_dir = 0 then Some (0, s)
        else do {
          inode \<leftarrow> dir_get_inode cur_dir s;
          s \<leftarrow> get_dir_lock inode s;
          path_loop path (take 15 (uninit s)) path cur_dir s } })"

definition get_dir_from_path :: "bytes \<Rightarrow> fs \<Rightarrow> (nat \<times> fs) option" where
  "get_dir_from_path path s = do {
     (inn, s) \<leftarrow> get_inode_from_path path s;
     if inn = 0 then Some (0, s)
     else do {
       (d, s) \<leftarrow> inode_is_dir inn s;
       ASSERT d;
       ASSERT (inode_is inn s);
       dir_open inn s } }"

text \<open>The two loops of \<open>get_subdir_from_path\<close> move \<open>end\<close> and \<open>path_len\<close> back together.\<close>

fun back_while :: "(byte \<Rightarrow> bool) \<Rightarrow> bytes \<Rightarrow> nat \<Rightarrow> nat" where
  "back_while P a 0 = 0"
| "back_while P a (Suc n) = (if P (a ! n) then back_while P a n else Suc n)"

definition get_subdir_from_path :: "bytes \<Rightarrow> fs \<Rightarrow> (nat \<times> fs) option" where
  "get_subdir_from_path path s = do {
     ASSERT (length path \<le> PATH_MAX + 1);
     let path_len = back_while ((=) 47) path (length path);
     let path_len = back_while ((\<noteq>) 47) path path_len;
     ASSERT (path_len < PATH_MAX + 1);
     get_dir_from_path (take path_len path) s }"

definition subdir_create :: "bytes \<Rightarrow> nat \<Rightarrow> fs \<Rightarrow> (bool \<times> fs) option" where
  "subdir_create name parent s = do {
     let (_, new_name, _) = get_last_part (take 15 (uninit s)) name;
     pinode \<leftarrow> dir_get_inode parent s;
     s \<leftarrow> get_dir_lock pinode s;
     (inode_sector, s) \<leftarrow> free_map_allocate 1 s;
     (success, s) \<leftarrow> (case inode_sector of
         None \<Rightarrow> Some (False, s)
       | Some x \<Rightarrow> do {
           (ok, s) \<leftarrow> dir_create x 2 s;
           if ok then do { nm \<leftarrow> cstring new_name; dir_add_unsynched parent nm x s } else Some (False, s) });
     if \<not> success then do {
       s \<leftarrow> (case inode_sector of Some x \<Rightarrow> if x \<noteq> 0 then free_map_release x 1 s else Some s | None \<Rightarrow> Some s);
       s \<leftarrow> release_dir_lock pinode s;
       Some (False, s) }
     else do {
       nm \<leftarrow> cstring new_name;
       (new, s) \<leftarrow> dir_lookup_unsynched parent nm s;
       (success, s) \<leftarrow> (if new \<noteq> 0 then do {
           s \<leftarrow> inode_set_dir new s;
           parent_sector \<leftarrow> get_inode_sector pinode s;
           new_sector \<leftarrow> get_inode_sector new s;
           (i1, s) \<leftarrow> inode_open new_sector s;
           (dot_entry, s) \<leftarrow> dir_open i1 s;
           (i2, s) \<leftarrow> inode_open parent_sector s;
           (dotdot_entry, s) \<leftarrow> dir_open i2 s;
           (_, s) \<leftarrow> dir_add_unsynched dot_entry [46] new_sector s;
           (_, s) \<leftarrow> dir_add_unsynched dot_entry [46, 46] parent_sector s;
           s \<leftarrow> dir_close dot_entry s;
           s \<leftarrow> dir_close dotdot_entry s;
           s \<leftarrow> inode_close FM new s;
           Some (True, s) }
         else Some (False, s));
       s \<leftarrow> release_dir_lock pinode s;
       s \<leftarrow> dir_close parent s;
       Some (success, s) } }"

end
