(* ===== verification/Filesys.thy ===== *)
theory Filesys
  imports Directory
begin

text \<open>The file system interface, \<open>filesys/filesys.c\<close>: start-up, formatting and shutdown, and the
  creation, opening and removal of files by path. The messages \<open>do_format\<close> prints are not modelled.\<close>

definition do_format :: "fs \<Rightarrow> fs option" where
  "do_format s = do {
     s \<leftarrow> free_map_create s;
     (ok, s) \<leftarrow> dir_create ROOT_DIR_SECTOR 16 s;
     ASSERT ok;
     free_map_close s }"

definition filesys_init :: "u32 list \<Rightarrow> bool \<Rightarrow> fs \<Rightarrow> fs option" where
  "filesys_init mem format s = do {
     dev \<leftarrow> block_by_role s BLOCK_FILESYS;
     let s = inode_init (s\<lparr>fs_device := dev\<rparr>);
     s \<leftarrow> free_map_init mem s;
     let s = s\<lparr>disk := init_buffer_cache (disk s)\<rparr>;
     s \<leftarrow> (if format then do_format s else Some s);
     free_map_open s }"

definition filesys_done :: "fs \<Rightarrow> fs option" where
  "filesys_done s = do {
     d \<leftarrow> flush_buffer_cache (disk s);
     free_map_close (s\<lparr>disk := d\<rparr>) }"

text \<open>\<open>free_map_allocate (1, &inode_sector) && inode_create (inode_sector, size) && dir_add (d, name,
  inode_sector)\<close>; the result is the truth value and the variable \<open>inode_sector\<close>, which is 0 before.
  The name is \<open>None\<close> if it is an array without a null character.\<close>

definition create_in :: "nat \<Rightarrow> bytes option \<Rightarrow> int \<Rightarrow> fs \<Rightarrow> (bool \<times> nat \<times> fs) option" where
  "create_in d name initial_size s = do {
     (r, s) \<leftarrow> free_map_allocate 1 s;
     case r of
       None \<Rightarrow> Some (False, 0, s)
     | Some inode_sector \<Rightarrow> do {
         (ok, s) \<leftarrow> inode_create FM inode_sector initial_size s;
         (ok, s) \<leftarrow> (if ok then do { nm \<leftarrow> name; dir_add d nm inode_sector s } else Some (False, s));
         Some (ok, inode_sector, s) } }"

definition filesys_create :: "bytes \<Rightarrow> int \<Rightarrow> fs \<Rightarrow> (bool \<times> fs) option" where
  "filesys_create name initial_size s = do {
     (d, s) \<leftarrow> dir_open_root s;
     (success, inode_sector, s) \<leftarrow> (if d \<noteq> 0 then create_in d (Some name) initial_size s else Some (False, 0, s));
     s \<leftarrow> (if \<not> success \<and> inode_sector \<noteq> 0 then free_map_release inode_sector 1 s else Some s);
     s \<leftarrow> dir_close d s;
     Some (success, s) }"

definition filesys_open :: "bytes \<Rightarrow> fs \<Rightarrow> (nat \<times> fs) option" where
  "filesys_open name s = do {
     (d, s) \<leftarrow> dir_open_root s;
     (inode, s) \<leftarrow> (if d \<noteq> 0 then dir_lookup d name s else Some (0, s));
     s \<leftarrow> dir_close d s;
     file_open inode s }"

definition filesys_remove :: "bytes \<Rightarrow> fs \<Rightarrow> (bool \<times> fs) option" where
  "filesys_remove name s = do {
     (inode, s) \<leftarrow> get_inode_from_path name s;
     if inode \<noteq> 0 then do {
       (subdir, s) \<leftarrow> get_subdir_from_path name s;
       let (ok, part, _) = get_last_part (take 15 (uninit s)) name;
       if \<not> ok then Some (False, s)
       else if subdir \<noteq> 0 then do {
         (isd, s) \<leftarrow> inode_is_dir inode s;
         if isd then do {
           (dirr, s) \<leftarrow> dir_open inode s;
           (emp, s) \<leftarrow> is_empty dirr s;
           s \<leftarrow> dir_close dirr s;
           if emp then do {
             nm \<leftarrow> cstring part;
             (success, s) \<leftarrow> dir_remove subdir nm s;
             s \<leftarrow> dir_close subdir s;
             Some (success, s) }
           else do { s \<leftarrow> dir_close subdir s; Some (False, s) } }
         else do {
           s \<leftarrow> inode_remove inode s;
           nm \<leftarrow> cstring part;
           (success, s) \<leftarrow> dir_remove subdir nm s;
           s \<leftarrow> dir_close subdir s;
           Some (success, s) } }
       else Some (False, s) }
     else Some (False, s) }"

definition filesys_create_2 :: "bytes \<Rightarrow> int \<Rightarrow> fs \<Rightarrow> (bool \<times> fs) option" where
  "filesys_create_2 name initial_size s = do {
     (subdir, s) \<leftarrow> get_subdir_from_path name s;
     if subdir = 0 then Some (False, s)
     else do {
       let (ok, part, _) = get_last_part (take 15 (uninit s)) name;
       if \<not> ok then Some (False, s)
       else do {
         (success, inode_sector, s) \<leftarrow> create_in subdir (cstring part) initial_size s;
         if \<not> success \<and> inode_sector \<noteq> 0 then do {
           s \<leftarrow> free_map_release inode_sector 1 s;
           Some (False, s) }
         else do { s \<leftarrow> dir_close subdir s; Some (success, s) } } } }"

text \<open>The result is the pair of the fields \<open>dir\<close> and \<open>file\<close> of the new \<open>struct fd\<close>, or \<open>None\<close> for
  the null pointer.\<close>

definition filesys_open_2 :: "bytes \<Rightarrow> fs \<Rightarrow> ((nat \<times> nat) option \<times> fs) option" where
  "filesys_open_2 name s = do {
     (inode, s) \<leftarrow> get_inode_from_path name s;
     if inode \<noteq> 0 then do {
       let s = s\<lparr>g_filesys_malloc := g_filesys_malloc s + 1\<rparr>;
       (isd, s) \<leftarrow> inode_is_dir inode s;
       if isd then do { (d, s) \<leftarrow> dir_open inode s; Some (Some (d, 0), s) }
       else do { (f, s) \<leftarrow> file_open inode s; Some (Some (0, f), s) } }
     else Some (None, s) }"

end
