(* ===== verification/Inode_Read.thy ===== *)
theory Inode_Read
  imports Filesys Buffer_Cache_Proofs
begin

text \<open>
  Inodes as files. The sectors that the buffer cache presents determine the block map of an inode
  (\<open>imap\<close>) and the bytes of the file (\<open>file_bytes\<close>); reading an inode returns these bytes.
\<close>

section \<open>The contents of the device\<close>

definition vw :: "fs \<Rightarrow> nat \<Rightarrow> bytes" where
  "vw s = view (fs_device s) (disk s)"

definition cap :: "fs \<Rightarrow> nat" where
  "cap s = bsize (devs (disk s) (fs_device s))"

definition fs_ok :: "fs \<Rightarrow> bool" where
  "fs_ok s \<longleftrightarrow> cache_ok (fs_device s) (disk s)"

text \<open>Two states that differ at most in the cache, and present the contents \<open>v\<close> in the second.\<close>

definition stored :: "fs \<Rightarrow> (nat \<Rightarrow> bytes) \<Rightarrow> fs \<Rightarrow> bool" where
  "stored s v t \<longleftrightarrow> t = s\<lparr>disk := disk t\<rparr> \<and> fs_ok t \<and> vw t = v \<and> cap t = cap s \<and> me t = me s"

lemma stored_fields:
  assumes "stored s v t"
  shows "inodes t = inodes s" "files t = files s" "dirs t = dirs s" "next_addr t = next_addr s"
    "open_inodes t = open_inodes s" "open_lock t = open_lock s" "free_map t = free_map s"
    "free_map_file t = free_map_file s" "da_lock t = da_lock s" "cwd t = cwd s" "uninit t = uninit s"
    "fs_device t = fs_device s" "fs_ok t" "vw t = v" "cap t = cap s" "me t = me s"
    "alloc_sectors t = alloc_sectors s"
proof -
  have t: "t = s\<lparr>disk := disk t\<rparr>" using assms by (simp add: stored_def)
  show "inodes t = inodes s" "files t = files s" "dirs t = dirs s" "next_addr t = next_addr s"
    "open_inodes t = open_inodes s" "open_lock t = open_lock s" "free_map t = free_map s"
    "free_map_file t = free_map_file s" "da_lock t = da_lock s" "cwd t = cwd s" "uninit t = uninit s"
    "fs_device t = fs_device s" "alloc_sectors t = alloc_sectors s"
    by (subst t, simp)+
  show "fs_ok t" "vw t = v" "cap t = cap s" "me t = me s" using assms by (simp_all add: stored_def)
qed

lemma stored_refl: "fs_ok s \<Longrightarrow> stored s (vw s) s"
  by (simp add: stored_def)

lemma stored_trans:
  assumes "stored s v t" "stored t w u"
  shows "stored s w u"
proof -
  have a: "t = s\<lparr>disk := disk t\<rparr>" and b: "u = t\<lparr>disk := disk u\<rparr>" using assms by (simp_all only: stored_def)
  have "t\<lparr>disk := disk u\<rparr> = (s\<lparr>disk := disk t\<rparr>)\<lparr>disk := disk u\<rparr>"
    by (rule arg_cong [OF a, of "\<lambda>r. r\<lparr>disk := disk u\<rparr>"])
  also have "\<dots> = s\<lparr>disk := disk u\<rparr>" by simp
  finally have "u = s\<lparr>disk := disk u\<rparr>" using b by (rule trans [rotated])
  then show ?thesis using assms by (simp only: stored_def simp_thms)
qed

lemma fs_read_spec:
  assumes "fs_ok s" "n < cap s" "0 \<le> a" "a \<le> b" "b \<le> 512"
  shows "\<exists>t. fs_read n a b s = Some (take (nat (b - a)) (drop (nat a) (vw s n)), t) \<and> stored s (vw s) t"
proof -
  have n: "nat a \<le> nat b" "nat b \<le> 512" using assms(4,5) by (simp_all add: nat_mono nat_le_iff)
  obtain d where d: "read_buffered (fs_device s) n (nat a) (nat b) (disk s) =
      Some (take (nat b - nat a) (drop (nat a) (vw s n)), d)"
    "cache_ok (fs_device s) d" "view (fs_device s) d = vw s" "bsize (devs d (fs_device s)) = cap s"
    "cur_thread d = me s"
    using bc.rd_law [of "fs_device s" "disk s" n "nat a" "nat b"] assms(1,2) n
    by (auto simp: fs_ok_def cap_def vw_def me_def)
  have "nat (b - a) = nat b - nat a" using assms by (simp add: nat_diff_distrib)
  then show ?thesis using d assms(3,4) by (simp add: fs_read_def stored_def fs_ok_def vw_def cap_def me_def)
qed

lemma fs_write_spec:
  assumes "fs_ok s" "n < cap s" "0 \<le> a" "a \<le> b" "b \<le> 512" "nat (b - a) \<le> length input"
  shows "\<exists>t. fs_write n input a b s = Some t \<and> stored s ((vw s)(n := overlay (vw s n) (nat a) (nat b) input)) t"
proof -
  have n: "nat a \<le> nat b" "nat b \<le> 512" using assms(4,5) by (simp_all add: nat_mono nat_le_iff)
  have e: "nat (b - a) = nat b - nat a" using assms by (simp add: nat_diff_distrib)
  obtain d where d: "write_buffered (fs_device s) n input (nat a) (nat b) (disk s) = Some d"
    "cache_ok (fs_device s) d" "view (fs_device s) d = (vw s)(n := overlay (vw s n) (nat a) (nat b) input)"
    "bsize (devs d (fs_device s)) = cap s" "cur_thread d = me s"
    using bc.wr_law [of "fs_device s" "disk s" n "nat a" "nat b" input] assms(1,2,6) n e
    by (auto simp: fs_ok_def cap_def vw_def me_def)
  then show ?thesis using assms(3,4) by (simp add: fs_write_def stored_def fs_ok_def vw_def cap_def me_def)
qed

lemma vw_length: "fs_ok s \<Longrightarrow> n < cap s \<Longrightarrow> length (vw s n) = 512"
  using bc.sector_length [of "fs_device s" "disk s" n] by (simp add: fs_ok_def cap_def vw_def)

section \<open>The structure of an inode on the device\<close>

definition word_at :: "bytes \<Rightarrow> nat \<Rightarrow> nat" where
  "word_at b k = unat (un_le32 (take 4 (drop (4 * k) b)))"

definition i_len :: "(nat \<Rightarrow> bytes) \<Rightarrow> nat \<Rightarrow> int" where
  "i_len v n = wrap32 (int (word_at (v n) 0))"

definition i_single :: "(nat \<Rightarrow> bytes) \<Rightarrow> nat \<Rightarrow> nat" where
  "i_single v n = word_at (v n) 14"

definition i_double :: "(nat \<Rightarrow> bytes) \<Rightarrow> nat \<Rightarrow> nat" where
  "i_double v n = word_at (v n) 15"

definition i_ind :: "(nat \<Rightarrow> bytes) \<Rightarrow> nat \<Rightarrow> nat \<Rightarrow> nat" where
  "i_ind v n k = word_at (v (i_double v n)) k"

definition imap :: "(nat \<Rightarrow> bytes) \<Rightarrow> nat \<Rightarrow> nat \<Rightarrow> nat" where
  "imap v n i =
     (if i < 12 then word_at (v n) (2 + i)
      else if i < 140 then word_at (v (i_single v n)) (i - 12)
      else word_at (v (i_ind v n ((i - 140) div 128))) ((i - 140) mod 128))"

definition MAX_BLOCKS :: nat where "MAX_BLOCKS = 16524"

definition blocks :: "int \<Rightarrow> nat" where
  "blocks len = (nat len + 511) div 512"

definition blk_ok :: "(nat \<Rightarrow> bytes) \<Rightarrow> nat \<Rightarrow> nat \<Rightarrow> nat \<Rightarrow> bool" where
  "blk_ok v c n i \<longleftrightarrow> imap v n i \<noteq> 0 \<and> imap v n i < c
     \<and> (12 \<le> i \<and> i < 140 \<longrightarrow> i_single v n \<noteq> 0 \<and> i_single v n < c)
     \<and> (140 \<le> i \<longrightarrow> i_double v n \<noteq> 0 \<and> i_double v n < c
          \<and> i_ind v n ((i - 140) div 128) \<noteq> 0 \<and> i_ind v n ((i - 140) div 128) < c)"

definition wf_inode :: "(nat \<Rightarrow> bytes) \<Rightarrow> nat \<Rightarrow> nat \<Rightarrow> bool" where
  "wf_inode v c n \<longleftrightarrow> n < c \<and> 0 \<le> i_len v n \<and> i_len v n < 512 * int MAX_BLOCKS
     \<and> (\<forall>i < blocks (i_len v n). blk_ok v c n i)"

definition file_bytes :: "(nat \<Rightarrow> bytes) \<Rightarrow> nat \<Rightarrow> bytes" where
  "file_bytes v n = take (nat (i_len v n)) (concat (map (\<lambda>i. v (imap v n i)) [0..<blocks (i_len v n)]))"

lemma get32_spec:
  assumes "fs_ok s" "n < cap s" "k < 128" "a = 4 * int k"
  shows "\<exists>t. get32 n a s = Some (word_at (vw s n) k, t) \<and> stored s (vw s) t"
proof -
  have "nat (4 * int k) = 4 * k" by simp
  then show ?thesis using fs_read_spec [of s n a "a + 4"] assms by (auto simp: get32_def word_at_def)
qed

lemma set32_spec:
  assumes "fs_ok s" "n < cap s" "k < 128" "a = 4 * int k"
  shows "\<exists>t. set32 n a x s = Some t \<and> stored s ((vw s)(n := overlay (vw s n) (4 * k) (4 * k + 4) (le32 (of_nat x)))) t"
proof -
  have "nat (4 * int k) = 4 * k" "nat (4 * int k + 4) = 4 * k + 4" by simp_all
  then show ?thesis using fs_write_spec [of s n a "a + 4" "le32 (of_nat x)"] assms by (auto simp: set32_def)
qed

lemma inode_get_length_spec:
  "fs_ok s \<Longrightarrow> n < cap s \<Longrightarrow> \<exists>t. inode_get_length n s = Some (i_len (vw s) n, t) \<and> stored s (vw s) t"
  using get32_spec [of s n 0 0] by (auto simp: inode_get_length_def i_len_def)

lemma inode_get_direct_ptr_spec:
  "fs_ok s \<Longrightarrow> n < cap s \<Longrightarrow> i < 12 \<Longrightarrow>
     \<exists>t. inode_get_direct_ptr n (int i) s = Some (imap (vw s) n i, t) \<and> stored s (vw s) t"
  using get32_spec [of s n "2 + i" "8 + 4 * int i"] by (auto simp: inode_get_direct_ptr_def imap_def)

lemma inode_get_single_ptr_spec:
  "fs_ok s \<Longrightarrow> n < cap s \<Longrightarrow> \<exists>t. inode_get_single_ptr n s = Some (i_single (vw s) n, t) \<and> stored s (vw s) t"
  using get32_spec [of s n 14 "8 + 4 * NUM_DIRECT_PTRS"]
  by (auto simp: inode_get_single_ptr_def i_single_def NUM_DIRECT_PTRS_def)

lemma inode_get_double_ptr_spec:
  "fs_ok s \<Longrightarrow> n < cap s \<Longrightarrow> \<exists>t. inode_get_double_ptr n s = Some (i_double (vw s) n, t) \<and> stored s (vw s) t"
  using get32_spec [of s n 15 "8 + 4 * NUM_DIRECT_PTRS + 4"]
  by (auto simp: inode_get_double_ptr_def i_double_def NUM_DIRECT_PTRS_def)

lemma read_sector_spec:
  "fs_ok s \<Longrightarrow> n < cap s \<Longrightarrow> n \<noteq> 0 \<Longrightarrow> k < 128 \<Longrightarrow> i = int k \<Longrightarrow>
     \<exists>t. read_sector n i s = Some (word_at (vw s n) k, t) \<and> stored s (vw s) t"
  using get32_spec [of s n k "i * 4"] by (auto simp: read_sector_def)

text \<open>A computation that returns \<open>x\<close> and leaves the presented contents as they are.\<close>

definition returns :: "fs \<Rightarrow> ('a \<times> fs) option \<Rightarrow> 'a \<Rightarrow> bool" where
  "returns s m x \<longleftrightarrow> (\<exists>t. m = Some (x, t) \<and> stored s (vw s) t)"

lemma returns_bind:
  assumes "returns s m x" "\<And>t. stored s (vw s) t \<Longrightarrow> returns t (f (x, t)) y"
  shows "returns s (m \<bind> f) y"
proof -
  obtain t where t: "m = Some (x, t)" "stored s (vw s) t" using assms(1) by (auto simp: returns_def)
  obtain u where u: "f (x, t) = Some (y, u)" "stored t (vw t) u" using assms(2) [OF t(2)] by (auto simp: returns_def)
  have "stored s (vw s) u" using stored_trans [OF t(2) u(2)] stored_fields(14) [OF t(2)] by simp
  then show ?thesis using t(1) u(1) by (simp add: returns_def)
qed

lemma returns_Some: "fs_ok s \<Longrightarrow> returns s (Some (x, s)) x"
  by (simp add: returns_def stored_refl)

lemmas field_returns =
  inode_get_length_spec [folded returns_def] inode_get_direct_ptr_spec [folded returns_def]
  inode_get_single_ptr_spec [folded returns_def] inode_get_double_ptr_spec [folded returns_def]
  read_sector_spec [folded returns_def] fs_read_spec [folded returns_def]

lemma index_of_pos:
  assumes "0 \<le> pos" "pos < 2 ^ 31"
  shows "bytes_to_sector_index pos = nat pos div 512" "wrap32 (int (bytes_to_sector_index pos)) = pos div 512"
proof -
  have "pos sdiv 512 = pos div 512" using assms(1) by (simp add: signed_divide_int_def sgn_if)
  moreover have "pos div 512 < 2 ^ 32" "0 \<le> pos div 512" using assms by (simp_all add: div_le_dividend pos_imp_zdiv_nonneg_iff)
  moreover have "pos div 512 < 2 ^ 31" using assms by simp
  ultimately show "bytes_to_sector_index pos = nat pos div 512" "wrap32 (int (bytes_to_sector_index pos)) = pos div 512"
    by (simp_all add: bytes_to_sector_index_def nat_div_distrib wrap32_id in_int32_def assms)
qed

lemma returns_at:
  assumes "stored s (vw s) t" "returns t m x"
  shows "\<exists>u. m = Some (x, u) \<and> stored s (vw s) u"
proof -
  obtain u where u: "m = Some (x, u)" "stored t (vw t) u" using assms(2) by (auto simp: returns_def)
  then have "stored s (vw s) u" using stored_trans [OF assms(1) u(2)] stored_fields(14) [OF assms(1)] by simp
  with u(1) show ?thesis by blast
qed

lemma byte_to_sector_past:
  assumes "fs_ok s" "inodes s p = Some nd" "isector nd < cap s"
    "0 \<le> pos" "pos < 512 * int MAX_BLOCKS" "i_len (vw s) (isector nd) \<le> pos"
  shows "returns s (byte_to_sector p pos s) (2 ^ 32 - 1)"
proof -
  have i: "wrap32 (int (bytes_to_sector_index pos)) = pos div 512" "pos div 512 < 16524"
    using assms(4,5) index_of_pos by (simp_all add: MAX_BLOCKS_def)
  obtain t where "inode_get_length (isector nd) s = Some (i_len (vw s) (isector nd), t)" "stored s (vw s) t"
    using inode_get_length_spec [OF assms(1,3)] by blast
  then show ?thesis using assms(2,6) i
    by (simp add: byte_to_sector_def Let_def returns_def NUM_DIRECT_PTRS_def)
qed

lemma byte_to_sector_spec:
  assumes "fs_ok s" "inodes s p = Some nd" "isector nd = n" "wf_inode (vw s) (cap s) n"
    "0 \<le> pos" "pos < i_len (vw s) n"
  shows "returns s (byte_to_sector p pos s) (imap (vw s) n (nat pos div 512))"
proof -
  let ?v = "vw s" and ?c = "cap s" and ?k = "nat pos div 512"
  have n: "n < ?c" "i_len ?v n < 512 * int MAX_BLOCKS" using assms(4) by (auto simp: wf_inode_def)
  have kb: "?k < blocks (i_len ?v n)" using assms(5,6) by (simp add: blocks_def)
  have b: "blk_ok ?v ?c n ?k" using assms(4) kb by (simp add: wf_inode_def)
  have k: "?k < 16524" using assms(5,6) n(2) by (simp add: MAX_BLOCKS_def)
  have "pos < 2 ^ 31" using assms(5) k by simp
  then have i: "wrap32 (int (bytes_to_sector_index pos)) = int ?k" using assms(5) index_of_pos by (simp add: zdiv_int)
  obtain t1 where t1: "inode_get_length n s = Some (i_len ?v n, t1)" "stored s ?v t1"
    using inode_get_length_spec [OF assms(1) n(1)] by blast
  obtain t2 where t2: "inode_get_length n t1 = Some (i_len ?v n, t2)" "stored s ?v t2"
    using returns_at [OF t1(2) field_returns(1)] stored_fields [OF t1(2)] n(1) by force
  note f2 = stored_fields [OF t2(2)]
  have start: "byte_to_sector p pos s = do {
       (sector, s) \<leftarrow>
         (if int ?k < NUM_DIRECT_PTRS then inode_get_direct_ptr n (int ?k) t2
          else if int ?k < NUM_DIRECT_PTRS + Indirect_Block then do {
            (single, s) \<leftarrow> inode_get_single_ptr n t2;
            ASSERT (single \<noteq> 0);
            (single, s) \<leftarrow> inode_get_single_ptr n s;
            read_sector single (int ?k - NUM_DIRECT_PTRS) s }
          else do {
            (double, s) \<leftarrow> inode_get_double_ptr n t2;
            ASSERT (double \<noteq> 0);
            ASSERT (int ?k \<ge> NUM_DIRECT_PTRS + Indirect_Block);
            let dab = int ?k - NUM_DIRECT_PTRS - Indirect_Block;
            (double, s) \<leftarrow> inode_get_double_ptr n s;
            (sec_mabel, s) \<leftarrow> read_sector double (dab div Indirect_Block) s;
            ASSERT (sec_mabel \<noteq> 0);
            read_sector sec_mabel (dab mod Indirect_Block) s });
       ASSERT (sector \<noteq> 0);
       Some (sector, s) }"
    using assms(2,3,6) k by (simp add: byte_to_sector_def i t1(1) t2(1) Let_def NUM_DIRECT_PTRS_def)
  consider "?k < 12" | "12 \<le> ?k" "?k < 140" | "140 \<le> ?k" by linarith
  then show ?thesis
  proof cases
    case 1
    obtain t where t: "inode_get_direct_ptr n (int ?k) t2 = Some (imap ?v n ?k, t)" "stored s ?v t"
      using returns_at [OF t2(2) field_returns(2), of n ?k] f2 n(1) 1 by force
    then show ?thesis unfolding start using 1 b by (simp add: NUM_DIRECT_PTRS_def blk_ok_def returns_def)
  next
    case 2
    obtain t3 where t3: "inode_get_single_ptr n t2 = Some (i_single ?v n, t3)" "stored s ?v t3"
      using returns_at [OF t2(2) field_returns(3), of n] f2 n(1) by force
    note f3 = stored_fields [OF t3(2)]
    obtain t4 where t4: "inode_get_single_ptr n t3 = Some (i_single ?v n, t4)" "stored s ?v t4"
      using returns_at [OF t3(2) field_returns(3), of n] f3 n(1) by force
    note f4 = stored_fields [OF t4(2)]
    have ok: "i_single ?v n \<noteq> 0" "i_single ?v n < ?c" using b 2 by (simp_all add: blk_ok_def)
    obtain t5 where t5: "read_sector (i_single ?v n) (int ?k - 12) t4 = Some (word_at (?v (i_single ?v n)) (?k - 12), t5)"
      "stored s ?v t5"
      using returns_at [OF t4(2) field_returns(5), of "i_single ?v n" "?k - 12" "int ?k - 12"] f4 ok 2 by force
    have "word_at (?v (i_single ?v n)) (?k - 12) = imap ?v n ?k" using 2 by (simp add: imap_def)
    then show ?thesis unfolding start using 2 b t3(1) t4(1) t5 ok
      by (simp add: NUM_DIRECT_PTRS_def Indirect_Block_def blk_ok_def returns_def)
  next
    case 3
    define d where "d = (?k - 140) div 128"
    define m where "m = (?k - 140) mod 128"
    have dm: "(int ?k - 12 - 128) div 128 = int d" "(int ?k - 12 - 128) mod 128 = int m" "d < 128" "m < 128"
      using 3 k by (simp_all add: d_def m_def of_nat_diff zdiv_int zmod_int algebra_simps)
    have ok: "i_double ?v n \<noteq> 0" "i_double ?v n < ?c" "i_ind ?v n d \<noteq> 0" "i_ind ?v n d < ?c" "imap ?v n ?k \<noteq> 0"
      using b 3 by (simp_all add: blk_ok_def d_def)
    obtain t3 where t3: "inode_get_double_ptr n t2 = Some (i_double ?v n, t3)" "stored s ?v t3"
      using returns_at [OF t2(2) field_returns(4), of n] f2 n(1) by force
    note f3 = stored_fields [OF t3(2)]
    obtain t4 where t4: "inode_get_double_ptr n t3 = Some (i_double ?v n, t4)" "stored s ?v t4"
      using returns_at [OF t3(2) field_returns(4), of n] f3 n(1) by force
    note f4 = stored_fields [OF t4(2)]
    have w: "word_at (?v (i_double ?v n)) d = i_ind ?v n d" by (simp add: i_ind_def)
    obtain t5 where t5: "read_sector (i_double ?v n) (int d) t4 = Some (i_ind ?v n d, t5)" "stored s ?v t5"
      using returns_at [OF t4(2) field_returns(5), of "i_double ?v n" d "int d"] f4 ok dm(3) w by force
    note f5 = stored_fields [OF t5(2)]
    obtain t6 where t6: "read_sector (i_ind ?v n d) (int m) t5 = Some (word_at (?v (i_ind ?v n d)) m, t6)" "stored s ?v t6"
      using returns_at [OF t5(2) field_returns(5), of "i_ind ?v n d" m "int m"] f5 ok dm(4) by force
    have "word_at (?v (i_ind ?v n d)) m = imap ?v n ?k" using 3 by (simp add: imap_def d_def m_def)
    then show ?thesis unfolding start using 3 t3(1) t4(1) t5(1) t6 ok dm
      by (simp add: NUM_DIRECT_PTRS_def Indirect_Block_def Let_def returns_def)
  qed
qed

section \<open>The bytes of a file\<close>

lemma length_concat_blocks:
  "\<forall>i < m. length (f i) = 512 \<Longrightarrow> length (concat (map f [0..<m])) = 512 * m"
  by (induction m) auto

lemma nth_concat_blocks:
  "\<forall>i < m. length (f i) = 512 \<Longrightarrow> k < 512 * m \<Longrightarrow> concat (map f [0..<m]) ! k = f (k div 512) ! (k mod 512)"
proof (induction m)
  case (Suc m)
  have l: "length (concat (map f [0..<m])) = 512 * m" using Suc.prems(1) by (intro length_concat_blocks) simp
  show ?case
  proof (cases "k < 512 * m")
    case True
    then show ?thesis using Suc l by (simp add: nth_append)
  next
    case False
    then have "k div 512 = m" "k mod 512 = k - 512 * m" using Suc.prems(2) by (simp_all add: div_nat_eqI mod_nat_eqI)
    then show ?thesis using False l by (simp add: nth_append)
  qed
qed simp

lemma blocks_bound: "0 \<le> len \<Longrightarrow> nat len \<le> 512 * blocks len"
  unfolding blocks_def using div_mult_mod_eq [of "nat len + 511" 512] mod_less_divisor [of 512 "nat len + 511"] by linarith

definition full_sectors :: "(nat \<Rightarrow> bytes) \<Rightarrow> nat \<Rightarrow> bool" where
  "full_sectors v c \<longleftrightarrow> (\<forall>x < c. length (v x) = 512)"

lemma vw_full: "fs_ok s \<Longrightarrow> full_sectors (vw s) (cap s)"
  by (simp add: full_sectors_def vw_length)

lemma wf_block_length:
  "wf_inode v c n \<Longrightarrow> full_sectors v c \<Longrightarrow> i < blocks (i_len v n) \<Longrightarrow> length (v (imap v n i)) = 512"
  by (auto simp: wf_inode_def blk_ok_def full_sectors_def)

lemma length_file_bytes:
  assumes "wf_inode v c n" "full_sectors v c"
  shows "length (file_bytes v n) = nat (i_len v n)"
  using length_concat_blocks [of "blocks (i_len v n)" "\<lambda>i. v (imap v n i)"] wf_block_length [OF assms]
    blocks_bound [of "i_len v n"] assms(1) by (simp add: file_bytes_def wf_inode_def)

lemma nth_file_bytes:
  assumes "wf_inode v c n" "full_sectors v c" "k < nat (i_len v n)"
  shows "file_bytes v n ! k = v (imap v n (k div 512)) ! (k mod 512)"
  using nth_concat_blocks [of "blocks (i_len v n)" "\<lambda>i. v (imap v n i)" k] wf_block_length [OF assms(1,2)]
    blocks_bound [of "i_len v n"] assms by (simp add: file_bytes_def wf_inode_def)

lemma same_block: "(k::nat) mod 512 + j < 512 \<Longrightarrow> (k + j) div 512 = k div 512 \<and> (k + j) mod 512 = k mod 512 + j"
proof -
  assume a: "k mod 512 + j < 512"
  have "k + j = 512 * (k div 512) + (k mod 512 + j)" by simp
  with a show ?thesis by (metis div_mult_self4 mod_mult_self4 div_less mod_less add_cancel_right_right zero_neq_numeral)
qed

lemma block_of_pos: "k < nat len \<Longrightarrow> k div 512 < blocks len"
proof -
  assume k: "k < nat len"
  then have "blocks len = (nat len - 1 + 512) div 512" by (simp add: blocks_def)
  then have "blocks len = (nat len - 1) div 512 + 1" by (simp only: div_add_self2 [of "512::nat"])
  moreover have "k div 512 \<le> (nat len - 1) div 512" using k by (intro div_le_mono) simp
  ultimately show ?thesis by simp
qed

lemma file_bytes_slice:
  assumes "wf_inode v c n" "full_sectors v c" "k + j \<le> nat (i_len v n)" "k mod 512 + j \<le> 512" "0 < j"
  shows "take j (drop (k mod 512) (v (imap v n (k div 512)))) = take j (drop k (file_bytes v n))"
proof (rule nth_equalityI)
  have kb: "k div 512 < blocks (i_len v n)" using assms(3,5) by (intro block_of_pos) simp
  have lb: "length (v (imap v n (k div 512))) = 512" by (rule wf_block_length [OF assms(1,2) kb])
  have lf: "length (file_bytes v n) = nat (i_len v n)" by (rule length_file_bytes [OF assms(1,2)])
  show "length (take j (drop (k mod 512) (v (imap v n (k div 512))))) = length (take j (drop k (file_bytes v n)))"
    using lb lf assms(3,4) by simp
  fix i assume "i < length (take j (drop (k mod 512) (v (imap v n (k div 512)))))"
  then have i: "i < j" "k mod 512 + i < 512" using lb assms(4) by auto
  have "file_bytes v n ! (k + i) = v (imap v n (k div 512)) ! (k mod 512 + i)"
    using nth_file_bytes [OF assms(1,2), of "k + i"] same_block [OF i(2)] assms(3) i(1) by simp
  then show "take j (drop (k mod 512) (v (imap v n (k div 512)))) ! i = take j (drop k (file_bytes v n)) ! i"
    using i lb lf assms(3) by simp
qed

lemma chunk_eq:
  assumes "0 \<le> off" "off < len" "len < 2 ^ 31"
  shows "chunk sze len off = min sze (min (len - off) (512 - off mod 512))"
proof -
  have "off smod 512 = off mod 512" using assms(1) by (simp add: signed_modulo_int_def sgn_if)
  moreover have "wrap32 (len - off) = len - off" using assms by (intro wrap32_id) (simp add: in_int32_def)
  ultimately show ?thesis by (simp add: chunk_def Let_def min_def)
qed

lemma chunk_past:
  assumes "0 \<le> len" "len \<le> off" "off < 2 ^ 31" "0 \<le> off"
  shows "chunk sze len off \<le> 0"
proof -
  have "wrap32 (len - off) = len - off" using assms by (intro wrap32_id) (simp add: in_int32_def)
  moreover have "off smod 512 < 512" using assms(4) by (simp add: signed_modulo_int_def sgn_if)
  ultimately show ?thesis using assms(2) by (simp add: chunk_def Let_def)
qed

lemma inode_length_spec:
  "fs_ok s \<Longrightarrow> inodes s p = Some nd \<Longrightarrow> isector nd < cap s \<Longrightarrow> p \<noteq> 0 \<Longrightarrow>
     returns s (inode_length p s) (i_len (vw s) (isector nd))"
  using field_returns(1) [of s "isector nd"] by (simp add: inode_length_def)

lemma inode_read_loop_spec:
  assumes "fs_ok s" "inodes s p = Some nd" "isector nd = n" "p \<noteq> 0" "wf_inode (vw s) (cap s) n"
    "0 \<le> off" "off < 512 * int MAX_BLOCKS"
  shows "returns s (inode_read_loop p sze off s) (take (nat sze) (drop (nat off) (file_bytes (vw s) n)))"
  using assms
proof (induction "nat sze" arbitrary: sze off s rule: less_induct)
  case less
  let ?v = "vw s" and ?len = "i_len (vw s) n"
  have n: "isector nd < cap s" "?len < 512 * int MAX_BLOCKS" "0 \<le> ?len"
    using less.prems(3,5) by (auto simp: wf_inode_def)
  have lim: "?len < 2 ^ 31" "off < 2 ^ 31" using n(2) less.prems(7) by (simp_all add: MAX_BLOCKS_def)
  have F: "full_sectors ?v (cap s)" by (rule vw_full [OF less.prems(1)])
  show ?case
  proof (cases "sze > 0")
    case False
    then show ?thesis using returns_Some [OF less.prems(1)] by (simp add: inode_read_loop.simps)
  next
    case pos: True
    obtain sec where sec: "returns s (byte_to_sector p off s) sec"
      "off < ?len \<Longrightarrow> sec = imap ?v n (nat off div 512)"
      using byte_to_sector_past [OF less.prems(1,2) n(1) less.prems(6,7)]
        byte_to_sector_spec [OF less.prems(1,2,3,5,6)] less.prems(3) by (cases "off < ?len") auto
    obtain t1 where t1: "byte_to_sector p off s = Some (sec, t1)" "stored s ?v t1"
      using sec(1) by (auto simp: returns_def)
    note f1 = stored_fields [OF t1(2)]
    obtain t2 where t2: "inode_length p t1 = Some (?len, t2)" "stored s ?v t2"
      using returns_at [OF t1(2) inode_length_spec, of p nd] f1 less.prems(2-4) n by auto
    note f2 = stored_fields [OF t2(2)]
    show ?thesis
    proof (cases "off < ?len")
      case False
      then have "chunk sze ?len off \<le> 0" using chunk_past n(3) lim(2) less.prems(6) by simp
      moreover have "drop (nat off) (file_bytes ?v n) = []"
        using False length_file_bytes [OF less.prems(5) F] by simp
      ultimately show ?thesis using pos t1(1) t2
        by (subst inode_read_loop.simps) (simp add: returns_def Let_def)
    next
      case True
      define c where "c = chunk sze ?len off"
      define r where "r = off mod 512"
      have ceq: "c = min sze (min (?len - off) (512 - r))"
        unfolding c_def r_def by (rule chunk_eq [OF less.prems(6) True lim(1)])
      have r: "0 \<le> r" "r < 512" "off smod 512 = r" "nat r = nat off mod 512"
        using less.prems(6) by (simp_all add: r_def signed_modulo_int_def sgn_if nat_mod_distrib)
      have c: "0 < c" "c \<le> sze" "off + c \<le> ?len" "r + c \<le> 512" using ceq pos True r by auto
      have secc: "sec < cap s"
        using less.prems(5) sec(2) [OF True] block_of_pos [of "nat off" ?len] True less.prems(6)
        by (simp add: wf_inode_def blk_ok_def)
      obtain t3 where t3: "fs_read sec r (r + c) t2 = Some (take (nat c) (drop (nat r) (?v sec)), t3)" "stored s ?v t3"
        using returns_at [OF t2(2) field_returns(6), of sec r "r + c"] f2 secc r c by auto
      note f3 = stored_fields [OF t3(2)]
      have sl: "take (nat c) (drop (nat r) (?v sec)) = take (nat c) (drop (nat off) (file_bytes ?v n))"
        unfolding sec(2) [OF True] r(4)
      proof (rule file_bytes_slice [OF less.prems(5) F])
        show "nat off mod 512 + nat c \<le> 512" using r(1) c(1,4) unfolding r(4) [symmetric] by linarith
      qed (use c less.prems(6) in simp_all)
      have "returns t3 (inode_read_loop p (sze - c) (off + c) t3)
          (take (nat (sze - c)) (drop (nat (off + c)) (file_bytes (vw t3) n)))"
      proof (rule less.hyps)
        show "nat (sze - c) < nat sze" using c pos by simp
        show "off + c < 512 * int MAX_BLOCKS" using c(3) n(2) by simp
      qed (use f3 less.prems c in auto)
      from returns_at [OF t3(2) this]
      obtain t4 where t4: "inode_read_loop p (sze - c) (off + c) t3 =
          Some (take (nat (sze - c)) (drop (nat (off + c)) (file_bytes ?v n)), t4)" "stored s ?v t4"
        unfolding f3(14) by blast
      have "take (nat c) (drop (nat off) (file_bytes ?v n)) @ take (nat (sze - c)) (drop (nat (off + c)) (file_bytes ?v n))
          = take (nat sze) (drop (nat off) (file_bytes ?v n))"
      proof -
        have "nat sze = nat c + nat (sze - c)" "nat (off + c) = nat c + nat off" using c less.prems(6) by auto
        then show ?thesis by (simp add: take_add)
      qed
      then show ?thesis using pos c t1(1) t2(1) t3(1) t4 sl r(3)
        by (subst inode_read_loop.simps) (simp add: returns_def Let_def c_def [symmetric])
    qed
  qed
qed

section \<open>Reading\<close>

text \<open>An inode in memory that no thread has locked.\<close>

definition open_ok :: "fs \<Rightarrow> nat \<Rightarrow> inode \<Rightarrow> bool" where
  "open_ok s p nd \<longleftrightarrow> p \<noteq> 0 \<and> inodes s p = Some nd \<and> imagic nd = INODE_MAGIC \<and> inode_lock nd = None"

definition lock_inode :: "nat \<Rightarrow> inode \<Rightarrow> fs \<Rightarrow> fs" where
  "lock_inode p nd s = upd_inode p (nd\<lparr>inode_lock := Some (me s)\<rparr>) s"

lemma lock_inode_fields [simp]:
  "fs_ok (lock_inode p nd s) = fs_ok s" "vw (lock_inode p nd s) = vw s" "cap (lock_inode p nd s) = cap s"
  "me (lock_inode p nd s) = me s" "inodes (lock_inode p nd s) p = Some (nd\<lparr>inode_lock := Some (me s)\<rparr>)"
  "disk (lock_inode p nd s) = disk s" "fs_device (lock_inode p nd s) = fs_device s"
  by (simp_all add: lock_inode_def upd_inode_def fs_ok_def vw_def cap_def me_def)

lemma ilock_spec: "open_ok s p nd \<Longrightarrow> ilock p s = Some (lock_inode p nd s)"
  by (simp add: open_ok_def ilock_def lk_acquire_def lock_inode_def)

lemma irel_spec:
  assumes "open_ok s p nd" "stored (lock_inode p nd s) v t"
  shows "\<exists>u. irel p t = Some u \<and> stored s v u \<and> disk u = disk t"
proof -
  let ?u = "s\<lparr>disk := disk t\<rparr>"
  note f = stored_fields [OF assms(2)]
  have nd: "nd\<lparr>inode_lock := None\<rparr> = nd" using assms(1) by (cases nd) (simp add: open_ok_def)
  have i: "(inodes s)(p \<mapsto> nd) = inodes s" using assms(1) by (simp add: open_ok_def fun_upd_idem)
  have "t = (lock_inode p nd s)\<lparr>disk := disk t\<rparr>" using assms(2) by (simp only: stored_def)
  then have "upd_inode p (nd\<lparr>inode_lock := None\<rparr>) t = upd_inode p (nd\<lparr>inode_lock := None\<rparr>) ((lock_inode p nd s)\<lparr>disk := disk t\<rparr>)"
    by (rule arg_cong)
  also have "\<dots> = s\<lparr>disk := disk t, inodes := (inodes s)(p \<mapsto> nd)\<rparr>"
    by (simp add: nd upd_inode_def lock_inode_def)
  also have "\<dots> = ?u" unfolding i by (cases s) simp
  finally have u: "upd_inode p (nd\<lparr>inode_lock := None\<rparr>) t = ?u" .
  have e: "(nd\<lparr>inode_lock := Some (me s)\<rparr>)\<lparr>inode_lock := None\<rparr> = nd\<lparr>inode_lock := None\<rparr>" by simp
  have "inodes t p = Some (nd\<lparr>inode_lock := Some (me s)\<rparr>)" "me t = me s" using f by simp_all
  then have "irel p t = Some ?u" unfolding irel_def using u by (simp add: lk_release_def)
  moreover have "stored s v ?u"
    using f by (simp add: stored_def fs_ok_def vw_def cap_def me_def)
  ultimately show ?thesis by auto
qed

lemma inode_read_at_spec:
  assumes "fs_ok s" "open_ok s p nd" "wf_inode (vw s) (cap s) (isector nd)" "0 \<le> off" "off < 512 * int MAX_BLOCKS"
  shows "returns s (inode_read_at p sze off s) (take (nat sze) (drop (nat off) (file_bytes (vw s) (isector nd))))"
proof -
  let ?s = "lock_inode p nd s" and ?b = "take (nat sze) (drop (nat off) (file_bytes (vw s) (isector nd)))"
  have "returns ?s (inode_read_loop p sze off ?s) (take (nat sze) (drop (nat off) (file_bytes (vw ?s) (isector nd))))"
    using assms by (intro inode_read_loop_spec [where nd = "nd\<lparr>inode_lock := Some (me s)\<rparr>"]) (simp_all add: open_ok_def)
  then obtain t where t: "inode_read_loop p sze off ?s = Some (?b, t)" "stored ?s (vw s) t"
    by (auto simp: returns_def)
  obtain u where u: "irel p t = Some u" "stored s (vw s) u" using irel_spec [OF assms(2) t(2)] by blast
  show ?thesis using assms(2) t(1) u by (simp add: inode_read_at_def ilock_spec [OF assms(2)] returns_def open_ok_def)
qed

text \<open>Outside the range of the block map \<open>byte_to_sector\<close> fails its assertion before it compares the
  position with the length.\<close>

lemma inode_read_at_far:
  assumes "0 < sze" "512 * int MAX_BLOCKS \<le> off" "off < 2 ^ 31"
  shows "inode_read_at p sze off s = None"
proof -
  have "wrap32 (int (bytes_to_sector_index off)) = off div 512" "off div 512 \<ge> 16524"
    using assms(2,3) index_of_pos [of off] by (simp_all add: MAX_BLOCKS_def)
  then have "byte_to_sector p off t = None" for t
    by (simp add: byte_to_sector_def NUM_DIRECT_PTRS_def bind_eq_None_conv)
  then have "inode_read_loop p sze off t = None" for t
    using assms(1) by (subst inode_read_loop.simps) simp
  then show ?thesis by (simp add: inode_read_at_def bind_eq_None_conv)
qed

end
