(* ===== verification/Inode_Write.thy ===== *)
theory Inode_Write
  imports Inode_Read
begin

text \<open>Writing to an inode. A write inside the file overwrites exactly the bytes it names, in this file
  and in no other sector.\<close>

section \<open>Words in a sector\<close>

lemma word_at_set:
  assumes "length b = 512" "k < 128" "x < 2 ^ 32"
  shows "word_at (overlay b (4 * k) (4 * k + 4) (le32 (of_nat x))) k = x"
proof -
  have "take 4 (drop (4 * k) (overlay b (4 * k) (4 * k + 4) (le32 (of_nat x)))) = le32 (of_nat x)"
    using overlay_read_back [of "4 * k" "4 * k + 4" b "le32 (of_nat x)"] assms by simp
  then show ?thesis using assms(3) by (simp add: word_at_def unsigned_of_nat take_bit_nat_eq_self)
qed

lemma word_at_other:
  assumes "length b = 512" "k < 128" "j < 128" "j \<noteq> k"
  shows "word_at (overlay b (4 * k) (4 * k + 4) (le32 w)) j = word_at b j"
proof -
  have "take 4 (drop (4 * j) (overlay b (4 * k) (4 * k + 4) (le32 w))) = take 4 (drop (4 * j) b)"
    using assms by (intro take_drop_overlay) auto
  then show ?thesis by (simp add: word_at_def)
qed

section \<open>Separation\<close>

text \<open>The sectors that hold the block map of an inode with \<open>m\<close> blocks, and those that hold its data.\<close>

definition meta :: "(nat \<Rightarrow> bytes) \<Rightarrow> nat \<Rightarrow> nat \<Rightarrow> nat set" where
  "meta v n m = {n} \<union> (if m > 12 then {i_single v n} else {})
     \<union> (if m > 140 then {i_double v n} \<union> i_ind v n ` {k. 140 + 128 * k < m} else {})"

definition data :: "(nat \<Rightarrow> bytes) \<Rightarrow> nat \<Rightarrow> nat \<Rightarrow> nat set" where
  "data v n m = imap v n ` {..<m}"

text \<open>No sector has two roles.\<close>

definition separate :: "(nat \<Rightarrow> bytes) \<Rightarrow> nat \<Rightarrow> nat \<Rightarrow> bool" where
  "separate v n m \<longleftrightarrow> inj_on (imap v n) {..<m} \<and> data v n m \<inter> meta v n m = {}"

definition sep_inode :: "(nat \<Rightarrow> bytes) \<Rightarrow> nat \<Rightarrow> nat \<Rightarrow> bool" where
  "sep_inode v c n \<longleftrightarrow> wf_inode v c n \<and> separate v n (blocks (i_len v n))"

lemma meta_self [simp]: "n \<in> meta v n m"
  by (simp add: meta_def)

lemma imap_frame:
  assumes "\<forall>x \<in> meta v n m. w x = v x" "i < m"
  shows "imap w n i = imap v n i"
proof -
  have n: "w n = v n" using assms(1) by simp
  have s: "i_single w n = i_single v n" "i_double w n = i_double v n" using n by (simp_all add: i_single_def i_double_def)
  consider "i < 12" | "12 \<le> i" "i < 140" | "140 \<le> i" by linarith
  then show ?thesis
  proof cases
    case 1
    then show ?thesis using n by (simp add: imap_def)
  next
    case 2
    then have "i_single v n \<in> meta v n m" using assms(2) by (simp add: meta_def)
    then show ?thesis using 2 s assms(1) by (simp add: imap_def)
  next
    case 3
    let ?k = "(i - 140) div 128"
    have "i = 140 + (128 * ?k + (i - 140) mod 128)" using 3 by simp
    then have k: "140 + 128 * ?k < m" using assms(2) by linarith
    then have "i_double v n \<in> meta v n m" "i_ind v n ?k \<in> meta v n m" by (auto simp: meta_def)
    moreover then have "i_ind w n ?k = i_ind v n ?k" using s assms(1) by (simp add: i_ind_def)
    ultimately show ?thesis using 3 assms(1) by (simp add: imap_def)
  qed
qed

lemma i_ind_frame:
  assumes "\<forall>x \<in> meta v n m. w x = v x" "m > 140"
  shows "i_ind w n k = i_ind v n k"
proof -
  have "w n = v n" "i_double v n \<in> meta v n m" using assms by (simp_all add: meta_def)
  then show ?thesis using assms(1) by (simp add: i_ind_def i_double_def)
qed

lemma meta_frame: "\<forall>x \<in> meta v n m. w x = v x \<Longrightarrow> meta w n m = meta v n m"
proof -
  assume a: "\<forall>x \<in> meta v n m. w x = v x"
  have n: "w n = v n" using a by simp
  have "i_ind w n ` K = i_ind v n ` K" if "m > 140" for K using i_ind_frame [OF a that] by (simp add: image_def)
  then show ?thesis using n by (simp add: meta_def i_single_def i_double_def)
qed

lemma data_frame: "\<forall>x \<in> meta v n m. w x = v x \<Longrightarrow> data w n m = data v n m"
  using imap_frame by (auto simp: data_def image_def)

lemma i_len_frame: "w n = v n \<Longrightarrow> i_len w n = i_len v n"
  by (simp add: i_len_def)

lemma blk_ok_frame:
  assumes "\<forall>x \<in> meta v n m. w x = v x" "i < m"
  shows "blk_ok w c n i = blk_ok v c n i"
proof -
  have n: "w n = v n" using assms(1) by simp
  have "i_ind w n k = i_ind v n k" if "140 \<le> i" for k using i_ind_frame [OF assms(1)] that assms(2) by simp
  then show ?thesis using imap_frame [OF assms] n by (auto simp: blk_ok_def i_single_def i_double_def)
qed

lemma sep_inode_frame:
  assumes "sep_inode v c n" "\<forall>x \<in> meta v n (blocks (i_len v n)). w x = v x"
  shows "sep_inode w c n" "i_len w n = i_len v n"
proof -
  show l: "i_len w n = i_len v n" using assms(2) by (intro i_len_frame) simp
  have "inj_on (imap w n) {..<blocks (i_len v n)} = inj_on (imap v n) {..<blocks (i_len v n)}"
    using imap_frame [OF assms(2)] by (intro inj_on_cong) simp
  then show "sep_inode w c n" using assms(1) l blk_ok_frame [OF assms(2)] meta_frame [OF assms(2)] data_frame [OF assms(2)]
    by (auto simp: sep_inode_def wf_inode_def separate_def)
qed

lemma file_bytes_frame:
  assumes "sep_inode v c n" "\<forall>x \<in> meta v n (blocks (i_len v n)) \<union> data v n (blocks (i_len v n)). w x = v x"
  shows "file_bytes w n = file_bytes v n"
proof -
  have m: "\<forall>x \<in> meta v n (blocks (i_len v n)). w x = v x" using assms(2) by blast
  have "w (imap w n i) = v (imap v n i)" if "i < blocks (i_len v n)" for i
    using that imap_frame [OF m that] assms(2) by (auto simp: data_def)
  then have "map (\<lambda>i. w (imap w n i)) [0..<blocks (i_len v n)] = map (\<lambda>i. v (imap v n i)) [0..<blocks (i_len v n)]"
    by simp
  then show ?thesis unfolding file_bytes_def sep_inode_frame(2) [OF assms(1) m]
    by (rule arg_cong [where f = "\<lambda>x. take (nat (i_len v n)) (concat x)"])
qed

section \<open>The write loop\<close>

text \<open>The contents of the first \<open>m\<close> blocks.\<close>

definition raw :: "(nat \<Rightarrow> bytes) \<Rightarrow> nat \<Rightarrow> nat \<Rightarrow> bytes" where
  "raw v n m = concat (map (\<lambda>i. v (imap v n i)) [0..<m])"

lemma file_bytes_raw: "file_bytes v n = take (nat (i_len v n)) (raw v n (blocks (i_len v n)))"
  by (simp add: file_bytes_def raw_def)

lemma length_raw: "\<forall>i < m. length (v (imap v n i)) = 512 \<Longrightarrow> length (raw v n m) = 512 * m"
  by (simp add: raw_def length_concat_blocks)

lemma nth_raw: "\<forall>i < m. length (v (imap v n i)) = 512 \<Longrightarrow> k < 512 * m \<Longrightarrow> raw v n m ! k = v (imap v n (k div 512)) ! (k mod 512)"
  by (simp add: raw_def nth_concat_blocks)

lemma take_overlay: "start \<le> fin \<Longrightarrow> fin \<le> l \<Longrightarrow> l \<le> length old \<Longrightarrow> fin - start \<le> length input \<Longrightarrow>
    take l (overlay old start fin input) = overlay (take l old) start fin input"
  by (intro nth_equalityI) (auto simp: nth_overlay)

lemma drop_overlay: "start \<le> fin \<Longrightarrow> fin \<le> l \<Longrightarrow> l \<le> length old \<Longrightarrow> fin - start \<le> length input \<Longrightarrow>
    drop l (overlay old start fin input) = drop l old"
  by (intro nth_equalityI) (auto simp: nth_overlay)

lemma raw_write:
  assumes lb: "\<forall>i < m. length (v (imap v n i)) = 512" and inj: "inj_on (imap v n) {..<m}"
    and M: "\<forall>x \<in> meta v n m. w x = v x"
    and k: "pos + k \<le> 512 * m" "pos mod 512 + k \<le> 512" "0 < k" "k \<le> length input"
    and w: "w = v(imap v n (pos div 512) := overlay (v (imap v n (pos div 512))) (pos mod 512) (pos mod 512 + k) input)"
  shows "raw w n m = overlay (raw v n m) pos (pos + k) input"
proof (rule nth_equalityI)
  let ?i = "pos div 512"
  have i: "?i < m" using k by (simp add: less_mult_imp_div_less mult.commute)
  have im: "imap w n j = imap v n j" if "j < m" for j by (rule imap_frame [OF M that])
  have lb': "\<forall>i < m. length (w (imap w n i)) = 512" using lb i k im by (auto simp: w)
  have lr: "length (raw v n m) = 512 * m" "length (raw w n m) = 512 * m" by (simp_all add: length_raw lb lb')
  show "length (raw w n m) = length (overlay (raw v n m) pos (pos + k) input)" using lr k by simp
  fix j assume "j < length (raw w n m)"
  then have j: "j < 512 * m" "j div 512 < m" using lr by (simp_all add: less_mult_imp_div_less mult.commute)
  have "raw w n m ! j = w (imap v n (j div 512)) ! (j mod 512)" using nth_raw [OF lb' j(1)] im [OF j(2)] by simp
  also have "\<dots> = (if pos \<le> j \<and> j < pos + k then input ! (j - pos) else raw v n m ! j)"
  proof (cases "j div 512 = ?i")
    case True
    have e: "pos = 512 * ?i + pos mod 512" "j = 512 * ?i + j mod 512" using True by (metis mult_div_mod_eq)+
    have "pos mod 512 \<le> j mod 512 \<longleftrightarrow> pos \<le> j" "j mod 512 < pos mod 512 + k \<longleftrightarrow> j < pos + k" "j mod 512 - pos mod 512 = j - pos"
      using e by linarith+
    then show ?thesis using nth_raw [OF lb j(1)] True lb [rule_format, OF i] k by (simp add: w nth_overlay)
  next
    case False
    have "imap v n (j div 512) \<noteq> imap v n ?i" using False j(2) i inj by (auto dest: inj_onD)
    moreover have "\<not> (pos \<le> j \<and> j < pos + k)"
    proof
      assume a: "pos \<le> j \<and> j < pos + k"
      then have "j = pos + (j - pos)" "pos mod 512 + (j - pos) < 512" using k(2) by linarith+
      then have "j div 512 = ?i" using same_block by metis
      with False show False by simp
    qed
    ultimately show ?thesis using nth_raw [OF lb j(1)] by (auto simp: w)
  qed
  also have "\<dots> = overlay (raw v n m) pos (pos + k) input ! j" using j lr k by (simp add: nth_overlay)
  finally show "raw w n m ! j = overlay (raw v n m) pos (pos + k) input ! j" .
qed

lemma write_block:
  assumes "sep_inode v c n" "full_sectors v c" "pos + k \<le> nat (i_len v n)" "pos mod 512 + k \<le> 512" "0 < k" "k \<le> length input"
    and w: "w = v(imap v n (pos div 512) := overlay (v (imap v n (pos div 512))) (pos mod 512) (pos mod 512 + k) input)"
  shows "sep_inode w c n" "full_sectors w c" "i_len w n = i_len v n"
    "raw w n (blocks (i_len v n)) = overlay (raw v n (blocks (i_len v n))) pos (pos + k) input"
    "\<forall>x. x \<notin> data v n (blocks (i_len v n)) \<longrightarrow> w x = v x"
    "data w n (blocks (i_len v n)) = data v n (blocks (i_len v n))"
proof -
  let ?m = "blocks (i_len v n)" and ?i = "pos div 512"
  have wf: "wf_inode v c n" and sep: "separate v n ?m" using assms(1) by (auto simp: sep_inode_def)
  have ib: "?i < ?m" using assms(3,5) by (intro block_of_pos) simp
  have x: "imap v n ?i \<in> data v n ?m" using ib by (auto simp: data_def)
  then show o: "\<forall>x. x \<notin> data v n ?m \<longrightarrow> w x = v x" by (auto simp: w)
  then have M: "\<forall>x \<in> meta v n ?m. w x = v x" using sep by (auto simp: separate_def)
  show S: "sep_inode w c n" and L: "i_len w n = i_len v n" by (rule sep_inode_frame [OF assms(1) M])+
  have lb: "\<forall>i < ?m. length (v (imap v n i)) = 512" using wf_block_length [OF wf assms(2)] by simp
  show F: "full_sectors w c" using assms(2,4,6) lb ib by (auto simp: full_sectors_def w)
  show "data w n ?m = data v n ?m" by (rule data_frame [OF M])
  have "pos + k \<le> 512 * ?m" using assms(3) blocks_bound [of "i_len v n"] wf by (simp add: wf_inode_def)
  then show "raw w n ?m = overlay (raw v n ?m) pos (pos + k) input"
    using sep by (intro raw_write [OF lb _ M _ assms(4-6) w]) (simp_all add: separate_def)
qed

text \<open>The number of bytes a write of \<open>sze\<close> bytes at \<open>off\<close> stores in a file of length \<open>len\<close>.\<close>

definition fits :: "int \<Rightarrow> int \<Rightarrow> int \<Rightarrow> nat" where
  "fits sze off len = nat (min sze (len - off))"

lemma inode_write_loop_spec:
  assumes "fs_ok s" "inodes s p = Some nd" "isector nd = n" "p \<noteq> 0" "sep_inode (vw s) (cap s) n"
    "0 \<le> off" "off < 512 * int MAX_BLOCKS" "nat sze \<le> length buf"
  shows "\<exists>v t. inode_write_loop p buf sze off s = Some (int (fits sze off (i_len (vw s) n)), t) \<and> stored s v t
    \<and> sep_inode v (cap s) n \<and> i_len v n = i_len (vw s) n
    \<and> raw v n (blocks (i_len (vw s) n)) = overlay (raw (vw s) n (blocks (i_len (vw s) n)))
        (nat off) (nat off + fits sze off (i_len (vw s) n)) buf
    \<and> (\<forall>x. x \<notin> data (vw s) n (blocks (i_len (vw s) n)) \<longrightarrow> v x = vw s x)"
  using assms
proof (induction "nat sze" arbitrary: sze off s buf rule: less_induct)
  case less
  let ?v = "vw s" and ?len = "i_len (vw s) n"
  let ?m = "blocks ?len"
  have wf: "wf_inode ?v (cap s) n" using less.prems(5) by (simp add: sep_inode_def)
  have n: "isector nd < cap s" "?len < 512 * int MAX_BLOCKS" "0 \<le> ?len"
    using less.prems(3) wf by (auto simp: wf_inode_def)
  have lim: "?len < 2 ^ 31" "off < 2 ^ 31" using n(2) less.prems(7) by (simp_all add: MAX_BLOCKS_def)
  have F: "full_sectors ?v (cap s)" by (rule vw_full [OF less.prems(1)])
  show ?case
  proof (cases "sze > 0")
    case False
    then have "fits sze off ?len = 0" by (simp add: fits_def)
    then show ?thesis using False stored_refl [OF less.prems(1)] less.prems(5)
      by (intro exI [of _ ?v] exI [of _ s]) (simp add: inode_write_loop.simps)
  next
    case pos: True
    obtain sec where sec: "returns s (byte_to_sector p off s) sec"
      "off < ?len \<Longrightarrow> sec = imap ?v n (nat off div 512)"
      using byte_to_sector_past [OF less.prems(1,2) n(1) less.prems(6,7)]
        byte_to_sector_spec [OF less.prems(1,2,3) wf less.prems(6)] less.prems(3) by (cases "off < ?len") auto
    obtain t1 where t1: "byte_to_sector p off s = Some (sec, t1)" "stored s ?v t1"
      using sec(1) by (auto simp: returns_def)
    note f1 = stored_fields [OF t1(2)]
    obtain t2 where t2: "inode_length p t1 = Some (?len, t2)" "stored s ?v t2"
      using returns_at [OF t1(2) inode_length_spec, of p nd] f1 less.prems(2-4) n by auto
    note f2 = stored_fields [OF t2(2)]
    show ?thesis
    proof (cases "off < ?len")
      case False
      then have "chunk sze ?len off \<le> 0" using chunk_past n(3) lim(2) less.prems(6) by simp
      moreover have "fits sze off ?len = 0" using False by (simp add: fits_def)
      ultimately show ?thesis using pos t1(1) t2 less.prems(5)
        by (intro exI [of _ ?v] exI [of _ t2]) (simp add: inode_write_loop.simps [of p buf sze off s] Let_def)
    next
      case True
      define c where "c = chunk sze ?len off"
      define r where "r = off mod 512"
      have ceq: "c = min sze (min (?len - off) (512 - r))"
        unfolding c_def r_def by (rule chunk_eq [OF less.prems(6) True lim(1)])
      have r: "0 \<le> r" "r < 512" "off smod 512 = r" "nat r = nat off mod 512"
        using less.prems(6) by (simp_all add: r_def signed_modulo_int_def sgn_if nat_mod_distrib)
      have c: "0 < c" "c \<le> sze" "off + c \<le> ?len" "r + c \<le> 512" using ceq pos True r by auto
      have secc: "sec < cap s"
        using wf sec(2) [OF True] block_of_pos [of "nat off" ?len] True less.prems(6)
        by (simp add: wf_inode_def blk_ok_def)
      have cl: "nat c \<le> length buf" using c(1,2) less.prems(8) by linarith
      have rc: "nat (r + c) = nat off mod 512 + nat c" using r(1,4) c(1) by (simp add: nat_add_distrib)
      define w where "w = ?v(sec := overlay (?v sec) (nat off mod 512) (nat off mod 512 + nat c) buf)"
      obtain t3 where t3: "fs_write sec buf r (r + c) t2 = Some t3" "stored s w t3"
        using fs_write_spec [of t2 sec r "r + c" buf] f2 secc r c cl stored_trans [OF t2(2)] by (auto simp: w_def rc)
      note f3 = stored_fields [OF t3(2)]
      have "nat off + nat c \<le> nat ?len" "nat off mod 512 + nat c \<le> 512"
        using c less.prems(6) rc by linarith+
      note W = write_block [OF less.prems(5) F this _ cl w_def [unfolded sec(2) [OF True]]]
      have c0: "0 < nat c" using c(1) by simp
      have m: "blocks (i_len w n) = ?m" using W(3) [OF c0] by simp
      have "\<exists>v t. inode_write_loop p (drop (nat c) buf) (sze - c) (off + c) t3 =
            Some (int (fits (sze - c) (off + c) (i_len (vw t3) n)), t) \<and> stored t3 v t
          \<and> sep_inode v (cap t3) n \<and> i_len v n = i_len (vw t3) n
          \<and> raw v n (blocks (i_len (vw t3) n)) = overlay (raw (vw t3) n (blocks (i_len (vw t3) n)))
              (nat (off + c)) (nat (off + c) + fits (sze - c) (off + c) (i_len (vw t3) n)) (drop (nat c) buf)
          \<and> (\<forall>x. x \<notin> data (vw t3) n (blocks (i_len (vw t3) n)) \<longrightarrow> v x = vw t3 x)"
      proof (rule less.hyps)
        show "nat (sze - c) < nat sze" using c pos by simp
        show "off + c < 512 * int MAX_BLOCKS" using c(3) n(2) by simp
        show "nat (sze - c) \<le> length (drop (nat c) buf)" using less.prems(8) c by (simp add: nat_diff_distrib)
        show "sep_inode (vw t3) (cap t3) n" using W(1) [OF c0] f3 by simp
      qed (use f3 less.prems c in auto)
      then obtain v t where t: "inode_write_loop p (drop (nat c) buf) (sze - c) (off + c) t3 =
            Some (int (fits (sze - c) (off + c) ?len), t)" "stored t3 v t"
          "sep_inode v (cap s) n" "i_len v n = ?len"
          "raw v n ?m = overlay (raw w n ?m) (nat (off + c)) (nat (off + c) + fits (sze - c) (off + c) ?len) (drop (nat c) buf)"
          "\<forall>x. x \<notin> data ?v n ?m \<longrightarrow> v x = w x"
        unfolding f3(14,15) m W(3) [OF c0] W(6) [OF c0] by blast
      have fit: "fits sze off ?len = nat c + fits (sze - c) (off + c) ?len" using c by (auto simp: fits_def min_def)
      have fb: "nat off + fits sze off ?len \<le> 512 * ?m" "fits sze off ?len \<le> length buf"
        using blocks_bound [OF n(3)] less.prems(6,8) True by (auto simp: fits_def)
      have lr: "length (raw ?v n ?m) = 512 * ?m" using wf_block_length [OF wf F] by (intro length_raw) simp
      have oc: "nat (off + c) = nat off + nat c" using c(1) less.prems(6) by (simp add: nat_add_distrib)
      have R: "raw v n ?m = overlay (raw ?v n ?m) (nat off) (nat off + fits sze off ?len) buf"
        unfolding t(5) W(4) [OF c0] oc
        using overlay_append [of "nat off" "nat off + nat c" "nat off + fits sze off ?len" "raw ?v n ?m" buf] fb fit lr
        by (simp add: add.assoc)
      have O: "\<forall>x. x \<notin> data ?v n ?m \<longrightarrow> v x = ?v x" using t(6) W(5) [OF c0] by simp
      have "inode_write_loop p buf sze off s = Some (int (fits sze off ?len), t)"
        using pos c t1(1) t2(1) t3(1) t(1) r(3) fit
        by (subst inode_write_loop.simps) (simp add: Let_def c_def [symmetric])
      moreover have "stored s v t" by (rule stored_trans [OF t3(2) t(2)])
      ultimately show ?thesis using t(3,4) R O by blast
    qed
  qed
qed

section \<open>Writing inside the file\<close>

lemma index_mono: "0 \<le> a \<Longrightarrow> a \<le> b \<Longrightarrow> b < 2 ^ 31 \<Longrightarrow> bytes_to_sector_index a \<le> bytes_to_sector_index b"
  using index_of_pos(1) [of a] index_of_pos(1) [of b] by (simp add: div_le_mono nat_mono)

lemma index_minus_one: "bytes_to_sector_index (-1) = 0"
  by (simp add: bytes_to_sector_index_def signed_divide_int_def)

lemma extend_inside:
  assumes "fs_ok s" "inodes s p = Some nd" "isector nd < cap s"
    "0 < i_len (vw s) (isector nd)" "0 \<le> new_length" "new_length \<le> i_len (vw s) (isector nd)"
  shows "returns s (inode_extend_to_bytes fm p new_length s) True"
proof -
  let ?n = "isector nd" and ?len = "i_len (vw s) (isector nd)"
  have l: "?len < 2 ^ 31" using wrap32_range [of "int (word_at (vw s ?n) 0)"] by (simp add: i_len_def in_int32_def)
  then have w: "wrap32 (?len - 1) = ?len - 1" "wrap32 (new_length - 1) = new_length - 1"
    using assms(4-6) by (simp_all add: wrap32_id in_int32_def)
  have "bytes_to_sector_index (new_length - 1) \<le> bytes_to_sector_index (?len - 1)"
  proof (cases "new_length = 0")
    case True
    then show ?thesis by (simp add: index_minus_one)
  next
    case False
    then show ?thesis using assms(5,6) l by (intro index_mono) simp_all
  qed
  moreover obtain t1 where t1: "inode_get_length ?n s = Some (?len, t1)" "stored s (vw s) t1"
    using inode_get_length_spec [OF assms(1,3)] by blast
  moreover obtain t2 where t2: "inode_get_length ?n t1 = Some (?len, t2)" "stored s (vw s) t2"
    using returns_at [OF t1(2) field_returns(1), of ?n] stored_fields [OF t1(2)] assms(3) by auto
  moreover obtain t3 where t3: "inode_get_length ?n t2 = Some (?len, t3)" "stored s (vw s) t3"
    using returns_at [OF t2(2) field_returns(1), of ?n] stored_fields [OF t2(2)] assms(3) by auto
  ultimately show ?thesis using assms(2,4,6) w
    by (simp add: inode_extend_to_bytes_def Let_def returns_def)
qed

lemma inode_write_inside:
  assumes "fs_ok s" "open_ok s p nd" "isector nd = n" "deny_write_cnt nd = 0" "sep_inode (vw s) (cap s) n"
    "0 \<le> off" "0 \<le> sze" "off + sze \<le> i_len (vw s) n" "0 < i_len (vw s) n" "nat sze \<le> length buf"
  shows "\<exists>v t. inode_write_at fm p buf sze off s = Some (sze, t) \<and> stored s v t
    \<and> sep_inode v (cap s) n \<and> i_len v n = i_len (vw s) n
    \<and> raw v n (blocks (i_len (vw s) n)) = overlay (raw (vw s) n (blocks (i_len (vw s) n))) (nat off) (nat off + nat sze) buf
    \<and> (\<forall>x. x \<notin> data (vw s) n (blocks (i_len (vw s) n)) \<longrightarrow> v x = vw s x)"
proof -
  let ?s = "lock_inode p nd s" and ?len = "i_len (vw s) n" and ?nd = "nd\<lparr>inode_lock := Some (me s)\<rparr>"
  have wf: "n < cap s" "?len < 512 * int MAX_BLOCKS" using assms(5) by (auto simp: sep_inode_def wf_inode_def)
  have w: "wrap32 (off + sze) = off + sze"
    using assms(6-8) wf(2) by (intro wrap32_id) (simp add: in_int32_def MAX_BLOCKS_def)
  have "returns ?s (inode_extend_to_bytes fm p (off + sze) ?s) True"
    using assms wf by (intro extend_inside [where nd = ?nd]) simp_all
  then obtain t1 where t1: "inode_extend_to_bytes fm p (off + sze) ?s = Some (True, t1)" "stored ?s (vw s) t1"
    by (auto simp: returns_def)
  note f1 = stored_fields [OF t1(2)]
  have fit: "fits sze off ?len = nat sze" using assms(8) by (simp add: fits_def)
  have offm: "off < 512 * int MAX_BLOCKS" using assms(7,8) wf(2) by simp
  have "\<exists>v t. inode_write_loop p buf sze off t1 = Some (int (fits sze off (i_len (vw t1) n)), t) \<and> stored t1 v t
    \<and> sep_inode v (cap t1) n \<and> i_len v n = i_len (vw t1) n
    \<and> raw v n (blocks (i_len (vw t1) n)) = overlay (raw (vw t1) n (blocks (i_len (vw t1) n)))
        (nat off) (nat off + fits sze off (i_len (vw t1) n)) buf
    \<and> (\<forall>x. x \<notin> data (vw t1) n (blocks (i_len (vw t1) n)) \<longrightarrow> v x = vw t1 x)"
    using f1 assms(2,3,5,6,10) offm by (intro inode_write_loop_spec [where nd = ?nd]) (simp_all add: open_ok_def)
  then obtain v t where t: "inode_write_loop p buf sze off t1 = Some (sze, t)" "stored t1 v t" "sep_inode v (cap s) n"
    "i_len v n = ?len" "raw v n (blocks ?len) = overlay (raw (vw s) n (blocks ?len)) (nat off) (nat off + nat sze) buf"
    "\<forall>x. x \<notin> data (vw s) n (blocks ?len) \<longrightarrow> v x = vw s x"
    using f1 fit assms(7) by auto
  obtain u where u: "irel p t = Some u" "stored s v u" using irel_spec [OF assms(2) stored_trans [OF t1(2) t(2)]] by blast
  have "inode_write_at fm p buf sze off s = Some (sze, u)"
    using assms(2,4) f1 t1(1) t(1) u(1) by (simp add: inode_write_at_def ilock_spec [OF assms(2)] w open_ok_def)
  then show ?thesis using u(2) t(3-6) by blast
qed

end
