(* ===== verification/Free_Map_Proofs.thy ===== *)
theory Free_Map_Proofs
  imports Inode_Write
begin

text \<open>
  The free map. In every state between operations the bitmap in memory and the free map file on the
  device agree (\<open>fm_inv\<close>); an allocation takes the first free sectors, a release gives them back, and
  neither touches a sector other than those of the free map file.
\<close>

definition fp :: "(nat \<Rightarrow> bytes) \<Rightarrow> nat \<Rightarrow> nat set" where
  "fp v n = meta v n (blocks (i_len v n)) \<union> data v n (blocks (i_len v n))"

definition used :: "fs \<Rightarrow> nat \<Rightarrow> bool" where
  "used s x \<longleftrightarrow> getb (free_map s) x"

text \<open>The free map file is open, with the right length.\<close>

definition fm_file :: "fs \<Rightarrow> bool" where
  "fm_file s \<longleftrightarrow> fs_ok s \<and> 0 < cap s \<and> cap s + 31 < 2 ^ 32 \<and> free_map_file s \<noteq> 0
     \<and> (\<exists>f nd. files s (free_map_file s) = Some f \<and> open_ok s (f_inode f) nd \<and> isector nd = 0 \<and> deny_write_cnt nd = 0)
     \<and> sep_inode (vw s) (cap s) 0 \<and> i_len (vw s) 0 = int (byte_cnt (cap s))"

definition fm_inv :: "fs \<Rightarrow> bool" where
  "fm_inv s \<longleftrightarrow> fm_file s \<and> da_lock s = None \<and> bitmap_wf (free_map s) \<and> bit_cnt (free_map s) = cap s
     \<and> file_bytes (vw s) 0 = bitmap_bytes (free_map s) \<and> (\<forall>x \<in> fp (vw s) 0. used s x)"

lemma length_bitmap_bytes: "length (bitmap_bytes b) = 4 * length (bits b)"
proof -
  have "length (concat (map le32 ws)) = 4 * length ws" for ws by (induction ws) simp_all
  then show ?thesis by (simp add: bitmap_bytes_def)
qed

lemma byte_cnt_eq:
  assumes "c + 31 < 2 ^ 32"
  shows "byte_cnt c = 4 * ((c + 31) div 32)" "byte_cnt c < 2 ^ 30" "0 < c \<Longrightarrow> 0 < byte_cnt c"
proof -
  have "(c + 31) div 32 < 2 ^ 27" using assms by simp
  then show e: "byte_cnt c = 4 * ((c + 31) div 32)" and "byte_cnt c < 2 ^ 30"
    by (simp_all add: byte_cnt_def elem_cnt_eq [OF assms] sz_id)
  show "0 < c \<Longrightarrow> 0 < byte_cnt c" by (simp add: e div_greater_zero_iff)
qed

lemma bitmap_bytes_length:
  "bitmap_wf b \<Longrightarrow> length (bitmap_bytes b) = byte_cnt (bit_cnt b)"
  by (simp add: length_bitmap_bytes byte_cnt_eq bitmap_wf_def)

lemma bitmap_write_spec:
  assumes "fm_file s" "bitmap_wf b" "bit_cnt b = cap s"
  shows "\<exists>v t. bitmap_write fm b (free_map_file s) s = Some (True, t) \<and> stored s v t
    \<and> sep_inode v (cap s) 0 \<and> i_len v 0 = i_len (vw s) 0 \<and> file_bytes v 0 = bitmap_bytes b
    \<and> (\<forall>x. x \<notin> data (vw s) 0 (blocks (i_len (vw s) 0)) \<longrightarrow> v x = vw s x)"
proof -
  let ?c = "cap s" and ?k = "byte_cnt (cap s)"
  obtain f nd where f: "files s (free_map_file s) = Some f" "open_ok s (f_inode f) nd" "isector nd = 0" "deny_write_cnt nd = 0"
    using assms(1) by (auto simp: fm_file_def)
  have c: "?c + 31 < 2 ^ 32" "0 < ?c" and I: "fs_ok s" "sep_inode (vw s) ?c 0" and len: "i_len (vw s) 0 = int ?k"
    using assms(1) by (simp_all add: fm_file_def)
  have k: "0 < ?k" "?k < 2 ^ 30" using byte_cnt_eq [OF c(1)] c(2) by simp_all
  have w: "wrap32 (int ?k) = int ?k" using k by (intro wrap32_id) (simp add: in_int32_def)
  have lb: "length (bitmap_bytes b) = ?k" using bitmap_bytes_length [OF assms(2)] assms(3) by simp
  have "\<exists>v t. inode_write_at fm (f_inode f) (bitmap_bytes b) (int ?k) 0 s = Some (int ?k, t) \<and> stored s v t
    \<and> sep_inode v ?c 0 \<and> i_len v 0 = i_len (vw s) 0
    \<and> raw v 0 (blocks (i_len (vw s) 0)) = overlay (raw (vw s) 0 (blocks (i_len (vw s) 0))) (nat 0) (nat 0 + nat (int ?k)) (bitmap_bytes b)
    \<and> (\<forall>x. x \<notin> data (vw s) 0 (blocks (i_len (vw s) 0)) \<longrightarrow> v x = vw s x)"
    using I k lb len by (intro inode_write_inside [OF _ f(2) f(3) f(4)]) simp_all
  then obtain v t where t: "inode_write_at fm (f_inode f) (bitmap_bytes b) (int ?k) 0 s = Some (int ?k, t)" "stored s v t"
    "sep_inode v ?c 0" "i_len v 0 = i_len (vw s) 0"
    "raw v 0 (blocks (i_len (vw s) 0)) = overlay (raw (vw s) 0 (blocks (i_len (vw s) 0))) 0 ?k (bitmap_bytes b)"
    "\<forall>x. x \<notin> data (vw s) 0 (blocks (i_len (vw s) 0)) \<longrightarrow> v x = vw s x"
    by auto
  have "file_bytes v 0 = take ?k (overlay (raw (vw s) 0 (blocks (i_len (vw s) 0))) 0 ?k (bitmap_bytes b))"
    by (simp add: file_bytes_raw t(4,5) len) (simp add: t(5) [unfolded len])
  then have "file_bytes v 0 = bitmap_bytes b" using lb by (simp add: overlay_def)
  moreover have "bitmap_write fm b (free_map_file s) s = Some (True, t)"
    using t(1) f(1) assms(3) w by (simp add: bitmap_write_def file_write_at_def)
  ultimately show ?thesis using t(2-4,6) by blast
qed

text \<open>States that differ in the device, the free map and the statistics only.\<close>

definition same_rest :: "fs \<Rightarrow> fs \<Rightarrow> bool" where
  "same_rest s t \<longleftrightarrow> t = s\<lparr>disk := disk t, free_map := free_map t, alloc_sectors := alloc_sectors t\<rparr>
     \<and> me t = me s \<and> cap t = cap s"

lemma same_rest_fields:
  assumes "same_rest s t"
  shows "inodes t = inodes s" "files t = files s" "dirs t = dirs s" "next_addr t = next_addr s"
    "open_inodes t = open_inodes s" "open_lock t = open_lock s"
    "free_map_file t = free_map_file s" "da_lock t = da_lock s" "cwd t = cwd s" "uninit t = uninit s"
    "fs_device t = fs_device s" "cap t = cap s" "me t = me s"
proof -
  have t: "t = s\<lparr>disk := disk t, free_map := free_map t, alloc_sectors := alloc_sectors t\<rparr>"
    using assms by (simp add: same_rest_def)
  show "inodes t = inodes s" "files t = files s" "dirs t = dirs s" "next_addr t = next_addr s"
    "open_inodes t = open_inodes s" "open_lock t = open_lock s"
    "free_map_file t = free_map_file s" "da_lock t = da_lock s" "cwd t = cwd s" "uninit t = uninit s"
    "fs_device t = fs_device s"
    by (subst t, simp)+
  show "cap t = cap s" "me t = me s" using assms by (simp_all add: same_rest_def)
qed

lemma same_rest_trans:
  assumes "same_rest s t" "same_rest t u"
  shows "same_rest s u"
proof -
  have a: "t = s\<lparr>disk := disk t, free_map := free_map t, alloc_sectors := alloc_sectors t\<rparr>"
    and b: "u = t\<lparr>disk := disk u, free_map := free_map u, alloc_sectors := alloc_sectors u\<rparr>"
    using assms by (simp_all only: same_rest_def)
  have "t\<lparr>disk := disk u, free_map := free_map u, alloc_sectors := alloc_sectors u\<rparr> =
      (s\<lparr>disk := disk t, free_map := free_map t, alloc_sectors := alloc_sectors t\<rparr>)
        \<lparr>disk := disk u, free_map := free_map u, alloc_sectors := alloc_sectors u\<rparr>"
    by (rule arg_cong [OF a, of "\<lambda>r. r\<lparr>disk := disk u, free_map := free_map u, alloc_sectors := alloc_sectors u\<rparr>"])
  also have "\<dots> = s\<lparr>disk := disk u, free_map := free_map u, alloc_sectors := alloc_sectors u\<rparr>" by simp
  finally have "u = s\<lparr>disk := disk u, free_map := free_map u, alloc_sectors := alloc_sectors u\<rparr>"
    using b by (rule trans [rotated])
  then show ?thesis using assms by (simp only: same_rest_def simp_thms)
qed

lemma same_rest_refl [simp]: "same_rest s s"
  by (simp add: same_rest_def)

lemma stored_same_rest: "stored s v t \<Longrightarrow> same_rest s t"
proof -
  assume a: "stored s v t"
  have t: "t = s\<lparr>disk := disk t\<rparr>" using a by (simp only: stored_def)
  have "s\<lparr>disk := disk t, free_map := free_map t, alloc_sectors := alloc_sectors t\<rparr> = s\<lparr>disk := disk t\<rparr>"
    using stored_fields(7,17) [OF a] by (cases s) simp
  with t have "t = s\<lparr>disk := disk t, free_map := free_map t, alloc_sectors := alloc_sectors t\<rparr>" by (rule trans [OF _ sym])
  then show ?thesis using stored_fields [OF a] by (simp add: same_rest_def)
qed

lemma open_ok_cong: "inodes t = inodes s \<Longrightarrow> open_ok t p nd = open_ok s p nd"
  by (simp add: open_ok_def)

lemma fm_file_stored:
  assumes "fm_file s" "stored s v t" "sep_inode v (cap s) 0" "i_len v 0 = i_len (vw s) 0"
  shows "fm_file t"
  using assms stored_fields [OF assms(2)] open_ok_cong [of t s] by (auto simp: fm_file_def)

lemma dev_fields [simp]:
  "vw (s\<lparr>da_lock := l\<rparr>) = vw s" "vw (s\<lparr>free_map := b\<rparr>) = vw s" "vw (s\<lparr>alloc_sectors := k\<rparr>) = vw s"
  "cap (s\<lparr>da_lock := l\<rparr>) = cap s" "cap (s\<lparr>free_map := b\<rparr>) = cap s" "cap (s\<lparr>alloc_sectors := k\<rparr>) = cap s"
  "me (s\<lparr>da_lock := l\<rparr>) = me s" "me (s\<lparr>free_map := b\<rparr>) = me s" "me (s\<lparr>alloc_sectors := k\<rparr>) = me s"
  "fs_ok (s\<lparr>da_lock := l\<rparr>) = fs_ok s" "fs_ok (s\<lparr>free_map := b\<rparr>) = fs_ok s" "fs_ok (s\<lparr>alloc_sectors := k\<rparr>) = fs_ok s"
  by (simp_all add: vw_def cap_def me_def fs_ok_def)

lemma fm_file_fields [simp]:
  "fm_file (s\<lparr>da_lock := l\<rparr>) = fm_file s" "fm_file (s\<lparr>free_map := b\<rparr>) = fm_file s" "fm_file (s\<lparr>alloc_sectors := k\<rparr>) = fm_file s"
  by (simp_all add: fm_file_def open_ok_def)

lemma meta_bound:
  assumes "\<forall>i < m. blk_ok v c n i" "n < c" "x \<in> meta v n m"
  shows "x < c" "x \<noteq> n \<Longrightarrow> x \<noteq> 0"
proof -
  have s: "i_single v n < c \<and> i_single v n \<noteq> 0" if "12 < m" using assms(1) that by (simp add: blk_ok_def)
  have d: "i_double v n < c \<and> i_double v n \<noteq> 0" if "140 < m" using assms(1) that by (simp add: blk_ok_def)
  have i: "i_ind v n k < c \<and> i_ind v n k \<noteq> 0" if "140 + 128 * k < m" for k
    using assms(1) [rule_format, OF that] by (simp add: blk_ok_def)
  show "x < c" "x \<noteq> n \<Longrightarrow> x \<noteq> 0" using assms(2,3) s d i by (auto simp: meta_def split: if_splits)
qed

lemma fp_bound:
  assumes "wf_inode v c n" "x \<in> fp v n"
  shows "x < c"
  using assms meta_bound(1) [of "blocks (i_len v n)" v c n x]
  by (auto simp: fp_def wf_inode_def data_def blk_ok_def)

lemma fp_frame:
  assumes "sep_inode v c n" "\<forall>x. x \<notin> data v n (blocks (i_len v n)) \<longrightarrow> w x = v x"
  shows "fp w n = fp v n" "i_len w n = i_len v n" "data w n (blocks (i_len v n)) = data v n (blocks (i_len v n))"
proof -
  have M: "\<forall>x \<in> meta v n (blocks (i_len v n)). w x = v x"
    using assms by (auto simp: sep_inode_def separate_def)
  show l: "i_len w n = i_len v n" by (rule sep_inode_frame(2) [OF assms(1) M])
  show d: "data w n (blocks (i_len v n)) = data v n (blocks (i_len v n))" by (rule data_frame [OF M])
  show "fp w n = fp v n" using l d meta_frame [OF M] by (simp add: fp_def)
qed

text \<open>The effect of updating the free map: the bitmap becomes \<open>g\<close>, and at most the data sectors of the
  free map file change.\<close>

definition fm_step :: "fs \<Rightarrow> (nat \<Rightarrow> bool) \<Rightarrow> fs \<Rightarrow> bool" where
  "fm_step s g t \<longleftrightarrow> same_rest s t \<and> fm_inv t \<and> (\<forall>y < cap s. used t y = g y)
     \<and> (\<forall>x. x \<notin> data (vw s) 0 (blocks (i_len (vw s) 0)) \<longrightarrow> vw t x = vw s x) \<and> fp (vw t) 0 = fp (vw s) 0"

lemma fm_commit:
  assumes "fm_inv s" "bitmap_upd (free_map s) g b" "\<forall>x \<in> fp (vw s) 0. g x"
  shows "\<exists>t. bitmap_write fm b (free_map_file s) (s\<lparr>da_lock := l, alloc_sectors := k, free_map := b\<rparr>) = Some (True, t)
    \<and> da_lock t = l \<and> me t = me s \<and> free_map t = b \<and> fm_step s g (t\<lparr>da_lock := None\<rparr>)"
proof -
  let ?s = "s\<lparr>da_lock := l, alloc_sectors := k, free_map := b\<rparr>"
  have F: "fm_file ?s" using assms(1) by (simp add: fm_inv_def)
  have I: "fm_file s" "da_lock s = None" "bit_cnt (free_map s) = cap s" using assms(1) by (simp_all add: fm_inv_def)
  have b: "bitmap_wf b" "bit_cnt b = cap s" "\<forall>j < cap s. getb b j = g j"
    using assms(2) I(3) by (simp_all add: bitmap_upd_def)
  obtain v t where t: "bitmap_write fm b (free_map_file s) ?s = Some (True, t)" "stored ?s v t" "sep_inode v (cap s) 0"
    "i_len v 0 = i_len (vw s) 0" "file_bytes v 0 = bitmap_bytes b"
    "\<forall>x. x \<notin> data (vw s) 0 (blocks (i_len (vw s) 0)) \<longrightarrow> v x = vw s x"
    using bitmap_write_spec [OF F b(1), of fm] b(2) by auto
  note f = stored_fields [OF t(2)]
  let ?t = "t\<lparr>da_lock := None\<rparr>"
  have "t = ?s\<lparr>disk := disk t\<rparr>" using t(2) by (simp only: stored_def)
  then have "?t = (?s\<lparr>disk := disk t\<rparr>)\<lparr>da_lock := None\<rparr>" by (rule arg_cong)
  also have "\<dots> = s\<lparr>disk := disk ?t, free_map := free_map ?t, alloc_sectors := alloc_sectors ?t\<rparr>"
    using f I(2) by (cases s) simp
  finally have e: "?t = s\<lparr>disk := disk ?t, free_map := free_map ?t, alloc_sectors := alloc_sectors ?t\<rparr>" .
  have "me ?t = me s" "cap ?t = cap s" using f by simp_all
  with e have R: "same_rest s ?t" unfolding same_rest_def by blast
  have S: "sep_inode (vw s) (cap s) 0" using I(1) by (simp add: fm_file_def)
  have fpe: "fp v 0 = fp (vw s) 0" by (rule fp_frame(1) [OF S t(6)])
  have "fm_file t" using fm_file_stored [OF F t(2)] t(3,4) by simp
  moreover have "getb b x" if "x \<in> fp v 0" for x
  proof -
    have "x \<in> fp (vw s) 0" using that fpe by simp
    moreover have "x < cap s" using fp_bound [of "vw s" "cap s" 0 x] S calculation by (simp add: sep_inode_def)
    ultimately show ?thesis using assms(3) b(3) by simp
  qed
  ultimately have "fm_inv ?t" using f t(5) b by (simp add: fm_inv_def used_def)
  then have "fm_step s g ?t" using R f b(3) t(6) fpe by (simp add: fm_step_def used_def)
  then show ?thesis using t(1) f by auto
qed

lemma free_map_allocate_spec:
  assumes "fm_inv s"
  shows "(\<exists>x t. free_map_allocate cnt s = Some (Some x, t) \<and> first_group (free_map s) cnt False 0 x
      \<and> fm_step s (\<lambda>y. used s y \<or> x \<le> y \<and> y < x + cnt) t)
    \<or> (\<exists>t. free_map_allocate cnt s = Some (None, t) \<and> (\<forall>k. \<not> bit_group (free_map s) cnt False k)
      \<and> fm_step s (used s) t \<and> vw t = vw s)"
proof -
  let ?k = "wrap32 (alloc_sectors s + int cnt)"
  have I: "da_lock s = None" "bitmap_wf (free_map s)" "free_map_file s \<noteq> 0" using assms by (simp_all add: fm_inv_def fm_file_def)
  obtain r b where r: "bitmap_scan_and_flip (free_map s) 0 cnt False = Some (r, b)"
    "r = BITMAP_ERROR \<and> b = free_map s \<and> (\<forall>k. \<not> bit_group (free_map s) cnt False k)
       \<or> r \<noteq> BITMAP_ERROR \<and> first_group (free_map s) cnt False 0 r
         \<and> bitmap_upd (free_map s) (\<lambda>j. if r \<le> j \<and> j < r + cnt then \<not> False else getb (free_map s) j) b"
    using bitmap_scan_and_flip_spec [OF I(2), of 0 cnt False] by auto
  show ?thesis
  proof (cases "r = BITMAP_ERROR")
    case True
    then have b: "b = free_map s" "\<forall>k. \<not> bit_group (free_map s) cnt False k" using r(2) by auto
    let ?t = "s\<lparr>alloc_sectors := ?k\<rparr>"
    have e: "s\<lparr>da_lock := None, alloc_sectors := ?k, free_map := free_map s\<rparr> = ?t" using I(1) by (cases s) simp
    have "free_map_allocate cnt s = Some (None, ?t)"
      using I(1) r(1) True b(1) e
      by (cases s) (simp add: free_map_allocate_def fm_lock_def fm_rel_def lk_acquire_def lk_release_def Let_def me_def)
    moreover have "fm_inv ?t" using assms by (simp add: fm_inv_def used_def)
    then have "fm_step s (used s) ?t" by (simp add: fm_step_def same_rest_def used_def)
    ultimately show ?thesis using b(2) by auto
  next
    case False
    then have g: "first_group (free_map s) cnt False 0 r"
      "bitmap_upd (free_map s) (\<lambda>j. if r \<le> j \<and> j < r + cnt then \<not> False else getb (free_map s) j) b" using r(2) by auto
    have "(\<lambda>j. if r \<le> j \<and> j < r + cnt then \<not> False else getb (free_map s) j) = (\<lambda>y. used s y \<or> r \<le> y \<and> y < r + cnt)"
      by (auto simp: used_def)
    then have u: "bitmap_upd (free_map s) (\<lambda>y. used s y \<or> r \<le> y \<and> y < r + cnt) b" using g(2) by simp
    have "\<forall>x \<in> fp (vw s) 0. used s x \<or> r \<le> x \<and> x < r + cnt" using assms by (simp add: fm_inv_def)
    from fm_commit [OF assms u this, where fm = no_fm and l = "Some (me s)" and k = ?k]
    obtain t where t: "bitmap_write no_fm b (free_map_file s) (s\<lparr>da_lock := Some (me s), alloc_sectors := ?k, free_map := b\<rparr>) = Some (True, t)"
      "da_lock t = Some (me s)" "me t = me s" "fm_step s (\<lambda>y. used s y \<or> r \<le> y \<and> y < r + cnt) (t\<lparr>da_lock := None\<rparr>)" by blast
    have "free_map_allocate cnt s = Some (Some r, t\<lparr>da_lock := None\<rparr>)"
      using I(1,3) r(1) False t(1-3)
      by (simp add: free_map_allocate_def fm_lock_def fm_rel_def lk_acquire_def lk_release_def Let_def)
    then show ?thesis using g(1) t(4) by auto
  qed
qed

lemma free_map_release_spec:
  assumes "fm_inv s" "x + cnt \<le> cap s" "\<forall>y. x \<le> y \<and> y < x + cnt \<longrightarrow> used s y \<and> y \<notin> fp (vw s) 0"
  shows "\<exists>t. free_map_release x cnt s = Some t \<and> fm_step s (\<lambda>y. used s y \<and> \<not> (x \<le> y \<and> y < x + cnt)) t"
proof -
  have I: "da_lock s = None" "bitmap_wf (free_map s)" "bit_cnt (free_map s) = cap s" "free_map_file s \<noteq> 0"
    using assms by (simp_all add: fm_inv_def fm_file_def)
  have a: "bitmap_all (free_map s) x cnt = Some True"
    using bitmap_all_spec [OF I(2), of x cnt] assms(2,3) I(3) by (auto simp: used_def)
  obtain b where b: "bitmap_set_multiple (free_map s) x cnt False = Some b"
    "bitmap_upd (free_map s) (\<lambda>j. if x \<le> j \<and> j < x + cnt then False else getb (free_map s) j) b"
    using bitmap_set_multiple_spec [OF I(2), of x cnt False] assms(2) I(3) by auto
  have "(\<lambda>j. if x \<le> j \<and> j < x + cnt then False else getb (free_map s) j) = (\<lambda>y. used s y \<and> \<not> (x \<le> y \<and> y < x + cnt))"
    by (auto simp: used_def)
  then have u: "bitmap_upd (free_map s) (\<lambda>y. used s y \<and> \<not> (x \<le> y \<and> y < x + cnt)) b" using b(2) by simp
  have "\<forall>y \<in> fp (vw s) 0. used s y \<and> \<not> (x \<le> y \<and> y < x + cnt)" using assms(1,3) by (auto simp: fm_inv_def)
  from fm_commit [OF assms(1) u this, where fm = no_fm and l = "Some (me s)" and k = "alloc_sectors s"]
  obtain t where t: "bitmap_write no_fm b (free_map_file s) (s\<lparr>da_lock := Some (me s), alloc_sectors := alloc_sectors s, free_map := b\<rparr>) = Some (True, t)"
    "da_lock t = Some (me s)" "me t = me s" "fm_step s (\<lambda>y. used s y \<and> \<not> (x \<le> y \<and> y < x + cnt)) (t\<lparr>da_lock := None\<rparr>)" by blast
  have "s\<lparr>da_lock := Some (me s), alloc_sectors := alloc_sectors s, free_map := b\<rparr> = s\<lparr>da_lock := Some (me s), free_map := b\<rparr>"
    by (cases s) simp
  then have "free_map_release x cnt s = Some (t\<lparr>da_lock := None\<rparr>)"
    using I(1) a b(1) t(1-3) by (simp add: free_map_release_def fm_lock_def fm_rel_def lk_acquire_def lk_release_def Let_def)
  then show ?thesis using t(4) by auto
qed

end
