(* ===== verification/Inode_Extend.thy ===== *)
theory Inode_Extend
  imports Free_Map_Proofs
begin

text \<open>
  Growing a file. New sectors come from the free map, so they belong to no file; the block map of the
  inode is extended by them, and what they hold is zero.
\<close>

section \<open>Steps on the device\<close>

definition D0 :: "fs \<Rightarrow> nat set" where
  "D0 s = data (vw s) 0 (blocks (i_len (vw s) 0))"

definition Free :: "fs \<Rightarrow> nat set" where
  "Free s = {x. x < cap s \<and> \<not> used s x}"

lemma finite_Free [simp]: "finite (Free s)"
  by (rule finite_subset [of _ "{..<cap s}"]) (auto simp: Free_def)

text \<open>A state \<open>t\<close> reached from \<open>s\<close> in which the sectors outside the free map file hold \<open>w\<close> and the
  sectors \<open>F\<close> are free.\<close>

definition at :: "fs \<Rightarrow> (nat \<Rightarrow> bytes) \<Rightarrow> nat set \<Rightarrow> fs \<Rightarrow> bool" where
  "at s w F t \<longleftrightarrow> same_rest s t \<and> fm_inv t \<and> fp (vw t) 0 = fp (vw s) 0 \<and> D0 t = D0 s \<and> Free t = F
     \<and> (\<forall>y. y \<notin> D0 s \<longrightarrow> vw t y = w y)"

lemma at_refl: "fm_inv s \<Longrightarrow> at s (vw s) (Free s) s"
  by (simp add: at_def)

lemma at_facts:
  assumes "at s w F t"
  shows "fs_ok t" "fm_inv t" "cap t = cap s" "me t = me s" "inodes t = inodes s" "finite F" "F \<subseteq> {..<cap s}"
    "\<And>y. y \<notin> D0 s \<Longrightarrow> vw t y = w y" "F \<inter> fp (vw s) 0 = {}" "D0 s \<subseteq> fp (vw s) 0"
proof -
  have t: "same_rest s t" "fm_inv t" "Free t = F" "fp (vw t) 0 = fp (vw s) 0" "D0 t = D0 s" using assms by (simp_all add: at_def)
  show "fs_ok t" "fm_inv t" using t(2) by (simp_all add: fm_inv_def fm_file_def)
  show "cap t = cap s" "me t = me s" "inodes t = inodes s" using same_rest_fields [OF t(1)] by simp_all
  show "finite F" using t(3) finite_Free [of t] by simp
  show "F \<subseteq> {..<cap s}" using t(3) same_rest_fields [OF t(1)] by (auto simp: Free_def)
  show "vw t y = w y" if "y \<notin> D0 s" for y using assms that by (simp add: at_def)
  show "F \<inter> fp (vw s) 0 = {}" using t(2-4) by (auto simp: fm_inv_def Free_def)
  show "D0 s \<subseteq> fp (vw s) 0" by (auto simp: D0_def fp_def)
qed

lemma at_cong: "at s w F t \<Longrightarrow> (\<And>y. y \<notin> D0 s \<Longrightarrow> w y = w' y) \<Longrightarrow> at s w' F t"
  by (simp add: at_def)

lemma at_read:
  assumes "at s w F t" "stored t (vw t) u"
  shows "at s w F u"
proof -
  note f = stored_fields [OF assms(2)]
  have "fm_inv u" using at_facts(2) [OF assms(1)] f fm_file_stored [OF _ assms(2)]
    by (simp add: fm_inv_def used_def fm_file_def)
  then show ?thesis using assms(1) f same_rest_trans [OF _ stored_same_rest [OF assms(2)], of s]
    by (simp add: at_def D0_def Free_def used_def)
qed

lemma at_write:
  assumes "at s w F t" "stored t ((vw t)(x := b)) u" "x \<notin> fp (vw s) 0"
  shows "at s (w(x := b)) F u"
proof -
  have I: "fm_inv t" "fp (vw t) 0 = fp (vw s) 0" using assms(1) by (simp_all add: at_def)
  define v where "v = (vw t)(x := b)"
  let ?m = "blocks (i_len (vw t) 0)"
  have st: "stored t v u" using assms(2) by (simp add: v_def)
  note f = stored_fields [OF st]
  have S: "sep_inode (vw t) (cap t) 0" using I by (simp add: fm_inv_def fm_file_def)
  have e: "\<forall>y \<in> meta (vw t) 0 ?m \<union> data (vw t) 0 ?m. v y = vw t y"
    using assms(3) I(2) by (auto simp: fp_def v_def)
  then have M: "\<forall>y \<in> meta (vw t) 0 ?m. v y = vw t y" by blast
  have S': "sep_inode v (cap t) 0" "i_len v 0 = i_len (vw t) 0" by (rule sep_inode_frame [OF S M])+
  have d: "fp v 0 = fp (vw t) 0" "data v 0 ?m = data (vw t) 0 ?m"
    using meta_frame [OF M] data_frame [OF M] S'(2) by (simp_all add: fp_def)
  have "fm_inv u" using I(1) f fm_file_stored [OF _ st S'] file_bytes_frame [OF S e] d(1)
    by (simp add: fm_inv_def used_def)
  then show ?thesis using assms(1) f d S'(2) same_rest_trans [OF _ stored_same_rest [OF st], of s]
    by (simp add: at_def D0_def Free_def used_def) (simp add: v_def)
qed

lemma at_get32:
  assumes "at s w F t" "y < cap s" "y \<notin> D0 s" "k < 128" "a = 4 * int k"
  shows "\<exists>u. get32 y a t = Some (word_at (w y) k, u) \<and> at s w F u"
proof -
  note f = at_facts [OF assms(1)]
  show ?thesis using get32_spec [OF f(1), of y k a] assms f(3) f(8) [OF assms(3)] at_read [OF assms(1)] by auto
qed

lemma at_set32:
  assumes "at s w F t" "y < cap s" "y \<notin> fp (vw s) 0" "k < 128" "a = 4 * int k"
  shows "\<exists>u. set32 y a x t = Some u \<and> at s (w(y := overlay (w y) (4 * k) (4 * k + 4) (le32 (of_nat x)))) F u"
proof -
  note f = at_facts [OF assms(1)]
  have y: "y \<notin> D0 s" using f(10) assms(3) by blast
  show ?thesis using set32_spec [OF f(1), of y k a x] assms(2,4,5) f(3) f(8) [OF y] at_write [OF assms(1) _ assms(3)] by auto
qed

lemma at_zero:
  assumes "at s w F t" "y < cap s" "y \<notin> fp (vw s) 0"
  shows "\<exists>u. fs_write y zero_block 0 512 t = Some u \<and> at s (w(y := zero_block)) F u"
proof -
  note f = at_facts [OF assms(1)]
  have l: "length (vw t y) = 512" using vw_length [OF f(1)] f(3) assms(2) by simp
  have "overlay (vw t y) 0 512 zero_block = zero_block" using l by (simp add: zero_block_def)
  then show ?thesis using fs_write_spec [OF f(1), of y 0 512 zero_block] assms(2) f(3) at_write [OF assms(1) _ assms(3)]
    by (auto simp: zero_block_def)
qed

section \<open>Allocating and releasing single sectors\<close>

lemma at_fm_step:
  assumes "at s w F t" "fm_step t g u"
  shows "at s w {x. x < cap s \<and> \<not> g x} u"
proof -
  have "same_rest t u" "fm_inv u" "\<forall>y < cap t. used u y = g y" "fp (vw u) 0 = fp (vw t) 0"
    and o: "\<forall>x. x \<notin> D0 t \<longrightarrow> vw u x = vw t x"
    using assms(2) by (simp_all add: fm_step_def D0_def)
  moreover have "D0 u = D0 t"
    using fp_frame(2,3) [of "vw t" "cap t" 0 "vw u"] o at_facts(2) [OF assms(1)]
    by (simp add: D0_def fm_inv_def fm_file_def)
  ultimately show ?thesis using assms(1) same_rest_trans [of s t u] same_rest_fields(12) [of t u] same_rest_fields(12) [of s t]
    by (auto simp: at_def Free_def)
qed

lemma at_grab:
  assumes "at s w F t" "F \<noteq> {}"
  shows "\<exists>x u. get_sector FM t = Some (Some x, u) \<and> x \<in> F \<and> at s (w(x := zero_block)) (F - {x}) u"
proof -
  note f = at_facts [OF assms(1)]
  have Ft: "F = {x. x < cap s \<and> \<not> used t x}" using assms(1) f(3) by (auto simp: at_def Free_def)
  obtain z where z: "z < cap s" "\<not> used t z" using assms(2) Ft by auto
  have bc: "bit_cnt (free_map t) = cap s" using f(2,3) by (simp add: fm_inv_def)
  have "bit_group (free_map t) 1 False z" using z bc by (auto simp: bit_group_def used_def less_Suc_eq)
  then obtain x u where x: "free_map_allocate 1 t = Some (Some x, u)" "first_group (free_map t) 1 False 0 x"
    "fm_step t (\<lambda>y. used t y \<or> x \<le> y \<and> y < x + 1) u"
    using free_map_allocate_spec [OF f(2), of 1] by blast
  have xF: "x \<in> F" using x(2) bc Ft by (auto simp: first_group_def bit_group_def used_def)
  have "{y. y < cap s \<and> \<not> (used t y \<or> x \<le> y \<and> y < x + 1)} = F - {x}" using Ft by auto
  then have a: "at s w (F - {x}) u" using at_fm_step [OF assms(1) x(3)] by simp
  have "x < cap s" "x \<notin> fp (vw s) 0" using xF f(7,9) by auto
  then obtain u' where "fs_write x zero_block 0 512 u = Some u'" "at s (w(x := zero_block)) (F - {x}) u'"
    using at_zero [OF a] by blast
  then show ?thesis using x(1) xF by (auto simp: get_sector_def FM_def)
qed

lemma at_grab_none:
  assumes "at s w {} t"
  shows "\<exists>u. get_sector FM t = Some (None, u) \<and> at s w {} u"
proof -
  note f = at_facts [OF assms(1)]
  have Ft: "{x. x < cap s \<and> \<not> used t x} = {}" using assms(1) f(3) by (auto simp: at_def Free_def)
  have bc: "bit_cnt (free_map t) = cap s" using f(2,3) by (simp add: fm_inv_def)
  have "\<not> first_group (free_map t) 1 False 0 x" for x
  proof
    assume "first_group (free_map t) 1 False 0 x"
    then have "x < cap s" "\<not> used t x" using bc by (auto simp: first_group_def bit_group_def used_def)
    then show False using Ft by blast
  qed
  then obtain u where u: "free_map_allocate 1 t = Some (None, u)" "fm_step t (used t) u"
    using free_map_allocate_spec [OF f(2), of 1] by blast
  have "at s w {} u" using at_fm_step [OF assms(1) u(2)] Ft by simp
  then show ?thesis using u(1) by (simp add: get_sector_def FM_def)
qed

lemma at_need:
  "at s w F t \<Longrightarrow> F \<noteq> {} \<Longrightarrow> \<exists>x u. need_sector FM t = Some (x, u) \<and> x \<in> F \<and> at s (w(x := zero_block)) (F - {x}) u"
  using at_grab [of s w F t] by (force simp: need_sector_def)

lemma at_release:
  assumes "at s w F t" "x < cap s" "x \<notin> F" "x \<notin> fp (vw s) 0"
  shows "\<exists>u. fm_release FM x 1 t = Some u \<and> at s w (insert x F) u"
proof -
  note f = at_facts [OF assms(1)]
  have Ft: "F = {x. x < cap s \<and> \<not> used t x}" "fp (vw t) 0 = fp (vw s) 0" using assms(1) f(3) by (auto simp: at_def Free_def)
  have "\<forall>y. x \<le> y \<and> y < x + 1 \<longrightarrow> used t y \<and> y \<notin> fp (vw t) 0" using assms(2-4) Ft by (auto simp: less_Suc_eq)
  then obtain u where u: "free_map_release x 1 t = Some u" "fm_step t (\<lambda>y. used t y \<and> \<not> (x \<le> y \<and> y < x + 1)) u"
    using free_map_release_spec [OF f(2), of x 1] assms(2) f(3) by auto
  have "{y. y < cap s \<and> \<not> (used t y \<and> \<not> (x \<le> y \<and> y < x + 1))} = insert x F" using Ft assms(2) by auto
  then show ?thesis using u(1) at_fm_step [OF assms(1) u(2)] by (simp add: FM_def)
qed

lemma at_release_loop:
  assumes "at s w F t" "distinct xs" "set xs \<subseteq> {..<cap s}" "set xs \<inter> F = {}" "set xs \<inter> fp (vw s) 0 = {}"
  shows "\<exists>u. release_loop FM xs t = Some u \<and> at s w (F \<union> set xs) u"
  using assms
proof (induction xs arbitrary: F t)
  case Nil
  then show ?case by auto
next
  case (Cons x xs)
  then obtain u where u: "fm_release FM x 1 t = Some u" "at s w (insert x F) u"
    using at_release [OF Cons.prems(1), of x] by auto
  have "\<exists>u'. release_loop FM xs u = Some u' \<and> at s w (insert x F \<union> set xs) u'"
    using Cons.prems by (intro Cons.IH [OF u(2)]) auto
  then show ?case using u(1) by auto
qed

lemma at_can_allocate_loop:
  assumes "at s w F t" "secs \<noteq> []" "distinct secs" "set secs \<subseteq> {..<cap s}" "set secs \<inter> F = {}" "set secs \<inter> fp (vw s) 0 = {}"
  shows "\<exists>w' u. can_allocate_loop FM num secs t = Some (num \<le> length secs + card F, u)
    \<and> at s w' (F \<union> set (tl secs)) u \<and> (\<forall>y. y \<notin> F \<longrightarrow> w' y = w y)"
  using assms
proof (induction "num - length secs" arbitrary: w F t secs)
  case 0
  have "\<exists>u. release_loop FM (rev (tl secs)) t = Some u \<and> at s w (F \<union> set (rev (tl secs))) u"
    using 0 by (intro at_release_loop) (auto simp: distinct_tl dest: in_set_tlD)
  then show ?case using 0(1) by (subst can_allocate_loop.simps) auto
next
  case (Suc k)
  have l: "length secs < num" using Suc(2) by simp
  show ?case
  proof (cases "F = {}")
    case True
    obtain u where u: "get_sector FM t = Some (None, u)" "at s w {} u" using at_grab_none Suc.prems(1) True by blast
    have "\<exists>u'. release_loop FM (rev (tl secs)) u = Some u' \<and> at s w ({} \<union> set (rev (tl secs))) u'"
      using Suc.prems by (intro at_release_loop [OF u(2)]) (auto simp: distinct_tl dest: in_set_tlD)
    then show ?thesis using l u(1) True by (subst can_allocate_loop.simps) auto
  next
    case False
    then obtain x u where x: "get_sector FM t = Some (Some x, u)" "x \<in> F" "at s (w(x := zero_block)) (F - {x}) u"
      using at_grab [OF Suc.prems(1)] by blast
    note f = at_facts [OF Suc.prems(1)]
    have "\<exists>w' u'. can_allocate_loop FM num (secs @ [x]) u = Some (num \<le> length (secs @ [x]) + card (F - {x}), u')
      \<and> at s w' (F - {x} \<union> set (tl (secs @ [x]))) u' \<and> (\<forall>y. y \<notin> F - {x} \<longrightarrow> w' y = (w(x := zero_block)) y)"
      using Suc.hyps(2) Suc.prems x(2) f(7,9) by (intro Suc.hyps(1) [OF _ x(3)]) auto
    then obtain w' u' where u': "can_allocate_loop FM num (secs @ [x]) u = Some (num \<le> length (secs @ [x]) + card (F - {x}), u')"
      "at s w' (F - {x} \<union> set (tl (secs @ [x]))) u'" "\<forall>y. y \<notin> F - {x} \<longrightarrow> w' y = (w(x := zero_block)) y" by blast
    have "card (F - {x}) + 1 = card F" using x(2) f(6) by (metis Suc_eq_plus1 card_Suc_Diff1)
    then have c: "num \<le> length (secs @ [x]) + card (F - {x}) \<longleftrightarrow> num \<le> length secs + card F" by auto
    have "F - {x} \<union> set (tl (secs @ [x])) = F \<union> set (tl secs)" using Suc.prems(2) x(2) by auto
    then have "at s w' (F \<union> set (tl secs)) u'" using u'(2) by simp
    moreover have "can_allocate_loop FM num secs t = Some (num \<le> length secs + card F, u')"
      using l x(1) u'(1) by (subst can_allocate_loop.simps) (simp add: c del: length_append)
    ultimately show ?thesis using u'(3) x(2) by fastforce
  qed
qed

text \<open>\<open>can_allocate\<close> finds out whether there are enough free sectors, and keeps the first it took.\<close>

lemma at_can_allocate:
  assumes "at s w F t"
  shows "\<exists>w' F' u. can_allocate FM num t = Some (num \<le> card F, u) \<and> at s w' F' u \<and> (\<forall>y. y \<notin> F \<longrightarrow> w' y = w y)
    \<and> (if num = 0 \<or> F = {} then F' = F else (\<exists>x \<in> F. F' = F - {x}))"
proof (cases "num = 0 \<or> F = {}")
  case True
  show ?thesis
  proof (cases "num = 0")
    case True
    then have "can_allocate FM num t = Some (True, t)" by (simp add: can_allocate_def can_allocate_loop.simps)
    then show ?thesis using assms True by (intro exI [of _ w] exI [of _ F] exI [of _ t]) simp
  next
    case False
    then have F: "F = {}" using True by simp
    obtain u where u: "get_sector FM t = Some (None, u)" "at s w {} u" using at_grab_none assms F by blast
    then have "can_allocate FM num t = Some (False, u)"
      using False by (subst can_allocate_def, subst can_allocate_loop.simps) simp
    then show ?thesis using u(2) F False by (intro exI [of _ w] exI [of _ F] exI [of _ u]) simp
  qed
next
  case False
  then obtain x u where x: "get_sector FM t = Some (Some x, u)" "x \<in> F" "at s (w(x := zero_block)) (F - {x}) u"
    using at_grab [OF assms] by blast
  note f = at_facts [OF assms]
  have "\<exists>w' u'. can_allocate_loop FM num [x] u = Some (num \<le> length [x] + card (F - {x}), u')
      \<and> at s w' (F - {x} \<union> set (tl [x])) u' \<and> (\<forall>y. y \<notin> F - {x} \<longrightarrow> w' y = (w(x := zero_block)) y)"
    using x(2) f(7,9) by (intro at_can_allocate_loop [OF x(3)]) auto
  then obtain w' u' where u': "can_allocate_loop FM num [x] u = Some (num \<le> 1 + card (F - {x}), u')"
    "at s w' (F - {x}) u'" "\<forall>y. y \<notin> F - {x} \<longrightarrow> w' y = (w(x := zero_block)) y" by auto
  have "card (F - {x}) + 1 = card F" using x(2) f(6) by (metis Suc_eq_plus1 card_Suc_Diff1)
  then have "can_allocate FM num t = Some (num \<le> card F, u')"
    using False x(1) u'(1) by (subst can_allocate_def, subst can_allocate_loop.simps) (auto simp: add.commute)
  then show ?thesis using False u'(2,3) x(2) by (intro exI [of _ w'] exI [of _ "F - {x}"] exI [of _ u']) auto
qed

end
