(* ===== verification/Inode_Install.thy ===== *)
theory Inode_Install
  imports Inode_Extend
begin

text \<open>\<open>install_sector\<close> adds one block to the block map, at each of the three levels.\<close>

section \<open>Well-formed block maps\<close>

definition ptrs_ok :: "(nat \<Rightarrow> bytes) \<Rightarrow> nat \<Rightarrow> nat \<Rightarrow> nat \<Rightarrow> bool" where
  "ptrs_ok v c n m \<longleftrightarrow> (12 < m \<longrightarrow> 0 < i_single v n \<and> i_single v n < c)
     \<and> (140 < m \<longrightarrow> 0 < i_double v n \<and> i_double v n < c)
     \<and> (\<forall>k. 140 + 128 * k < m \<longrightarrow> 0 < i_ind v n k \<and> i_ind v n k < c)"

text \<open>Pointers that are not in use are zero.\<close>

definition clean :: "(nat \<Rightarrow> bytes) \<Rightarrow> nat \<Rightarrow> nat \<Rightarrow> bool" where
  "clean v n m \<longleftrightarrow> (m \<le> 12 \<longrightarrow> i_single v n = 0) \<and> (m \<le> 140 \<longrightarrow> i_double v n = 0)
     \<and> (140 < m \<longrightarrow> (\<forall>k < 128. m \<le> 140 + 128 * k \<longrightarrow> i_ind v n k = 0))"

definition meta_distinct :: "(nat \<Rightarrow> bytes) \<Rightarrow> nat \<Rightarrow> nat \<Rightarrow> bool" where
  "meta_distinct v n m \<longleftrightarrow> (12 < m \<longrightarrow> i_single v n \<noteq> n)
     \<and> (140 < m \<longrightarrow> i_double v n \<noteq> n \<and> i_double v n \<noteq> i_single v n)
     \<and> (\<forall>k. 140 + 128 * k < m \<longrightarrow> i_ind v n k \<noteq> n \<and> i_ind v n k \<noteq> i_single v n \<and> i_ind v n k \<noteq> i_double v n)
     \<and> inj_on (i_ind v n) {k. 140 + 128 * k < m}"

text \<open>An inode with \<open>m\<close> blocks that owns its sectors: they are neither in \<open>F\<close> nor in \<open>Z\<close>.\<close>

definition tree :: "(nat \<Rightarrow> bytes) \<Rightarrow> nat \<Rightarrow> nat \<Rightarrow> nat \<Rightarrow> nat set \<Rightarrow> nat set \<Rightarrow> bool" where
  "tree v c n m F Z \<longleftrightarrow> n < c \<and> ptrs_ok v c n m \<and> (\<forall>i < m. 0 < imap v n i \<and> imap v n i < c) \<and> separate v n m
     \<and> clean v n m \<and> meta_distinct v n m \<and> (meta v n m \<union> data v n m) \<inter> (F \<union> Z) = {}"

lemma blk_ok_iff: "(\<forall>i < m. blk_ok v c n i) \<longleftrightarrow> ptrs_ok v c n m \<and> (\<forall>i < m. 0 < imap v n i \<and> imap v n i < c)"
proof
  assume a: "\<forall>i < m. blk_ok v c n i"
  have "0 < i_ind v n k \<and> i_ind v n k < c" if "140 + 128 * k < m" for k
    using a [rule_format, OF that] by (simp add: blk_ok_def)
  moreover have "12 < m \<longrightarrow> 0 < i_single v n \<and> i_single v n < c" using a by (auto simp: blk_ok_def dest: spec [of _ 12])
  moreover have "140 < m \<longrightarrow> 0 < i_double v n \<and> i_double v n < c" using a by (auto simp: blk_ok_def dest: spec [of _ 140])
  ultimately show "ptrs_ok v c n m \<and> (\<forall>i < m. 0 < imap v n i \<and> imap v n i < c)"
    using a by (auto simp: ptrs_ok_def blk_ok_def)
next
  assume a: "ptrs_ok v c n m \<and> (\<forall>i < m. 0 < imap v n i \<and> imap v n i < c)"
  show "\<forall>i < m. blk_ok v c n i"
  proof (intro allI impI)
    fix i assume i: "i < m"
    have "140 + 128 * ((i - 140) div 128) < m" if "140 \<le> i"
    proof -
      have "140 + (128 * ((i - 140) div 128) + (i - 140) mod 128) = i" using that by simp
      then show ?thesis using i by linarith
    qed
    then show "blk_ok v c n i" using a i by (auto simp: blk_ok_def ptrs_ok_def)
  qed
qed

section \<open>Updating words\<close>

definition setw :: "(nat \<Rightarrow> bytes) \<Rightarrow> nat \<Rightarrow> nat \<Rightarrow> nat \<Rightarrow> nat \<Rightarrow> bytes" where
  "setw w y k x = w(y := overlay (w y) (4 * k) (4 * k + 4) (le32 (of_nat x)))"

lemma word_at_setw:
  assumes "length (w y) = 512" "k < 128" "j < 128" "x < 2 ^ 32"
  shows "word_at (setw w y k x z) j = (if z = y \<and> j = k then x else word_at (w z) j)"
  using assms word_at_set [OF assms(1,2,4)] word_at_other [OF assms(1-3)] by (auto simp: setw_def)

lemma length_setw: "length (w y) = 512 \<Longrightarrow> k < 128 \<Longrightarrow> length (setw w y k x z) = length (w z)"
  by (simp add: setw_def)

lemma word_at_zero [simp]: "j < 128 \<Longrightarrow> word_at zero_block j = 0"
proof -
  assume j: "j < 128"
  have "take 4 (drop (4 * j) zero_block) = replicate 4 0" using j by (simp add: zero_block_def)
  then show ?thesis by (simp add: word_at_def un_le32_def)
qed

lemma length_zero_block [simp]: "length zero_block = 512"
  by (simp add: zero_block_def)

section \<open>One more block\<close>

definition grown :: "nat \<Rightarrow> nat \<Rightarrow> nat \<Rightarrow> nat set \<Rightarrow> (nat \<Rightarrow> bytes) \<Rightarrow> nat set \<Rightarrow> (nat \<Rightarrow> bytes) \<Rightarrow> nat set \<Rightarrow> bool" where
  "grown c n m Z w F w' F' \<longleftrightarrow> tree w' c n (m + 1) F' Z \<and> F' \<subseteq> F \<and> card F \<le> card F' + 3
     \<and> (\<forall>i < m. imap w' n i = imap w n i \<and> w' (imap w n i) = w (imap w n i)) \<and> w' (imap w' n m) = zero_block
     \<and> i_len w' n = i_len w n \<and> meta w' n (m + 1) \<subseteq> meta w n m \<union> F \<and> imap w' n m \<in> F \<and> (\<forall>y. y \<notin> F \<union> meta w n m \<longrightarrow> w' y = w y)"

lemma grownI:
  assumes T: "tree w c n m F Z" and F: "finite F" "F \<subseteq> {..<c}" "0 \<notin> F" "F \<inter> Z = {}"
    and x: "x \<in> F" "E \<subseteq> F - {x}" "card E \<le> 2" "F' = F - {x} - E"
    and im: "\<forall>i < m. imap w' n i = imap w n i" "imap w' n m = x" "meta w' n (m + 1) = meta w n m \<union> E"
    and p: "ptrs_ok w' c n (m + 1)" "clean w' n (m + 1)" "meta_distinct w' n (m + 1)"
    and o: "w' x = zero_block" "i_len w' n = i_len w n" "\<forall>y. y \<notin> F \<union> meta w n m \<longrightarrow> w' y = w y"
  shows "grown c n m Z w F w' F'"
proof -
  have t: "n < c" "\<forall>i < m. 0 < imap w n i \<and> imap w n i < c" "separate w n m" "(meta w n m \<union> data w n m) \<inter> (F \<union> Z) = {}"
    using T by (simp_all add: tree_def)
  have d: "data w' n (m + 1) = insert x (data w n m)"
  proof -
    have "imap w' n ` {..<m} = imap w n ` {..<m}" using im(1) by (intro image_cong) simp_all
    then show ?thesis using im(2) by (simp add: data_def lessThan_Suc)
  qed
  have "inj_on (imap w' n) {..<m + 1}"
  proof -
    have "inj_on (imap w' n) {..<m}" using t(3) im(1) inj_on_cong [of "{..<m}" "imap w' n" "imap w n"] by (simp add: separate_def)
    moreover have "imap w' n m \<notin> imap w' n ` {..<m}" using im t(4) x(1) by (auto simp: data_def)
    ultimately show ?thesis by (simp add: lessThan_Suc)
  qed
  moreover have "data w' n (m + 1) \<inter> meta w' n (m + 1) = {}"
    unfolding d im(3) using t(3,4) x(1,2) by (auto simp: separate_def)
  ultimately have S: "separate w' n (m + 1)" by (simp add: separate_def)
  have "0 < x" "x < c" using x(1) F(2,3) by (auto intro: gr0I)
  then have b: "\<forall>i < m + 1. 0 < imap w' n i \<and> imap w' n i < c" using im(1,2) t(2) by (auto simp: less_Suc_eq)
  have "(meta w' n (m + 1) \<union> data w' n (m + 1)) \<inter> (F' \<union> Z) = {}"
    unfolding d im(3) using t(4) x F(4) by auto
  then have "tree w' c n (m + 1) F' Z" using t(1) p b S by (simp add: tree_def)
  moreover have "F' \<subseteq> F" "card F \<le> card F' + 3"
  proof -
    show "F' \<subseteq> F" using x(4) by auto
    have E: "finite E" "insert x E \<subseteq> F" using finite_subset [OF x(2)] F(1) x(1,2) by auto
    have e: "F' = F - insert x E" using x(4) by blast
    have "card F' = card F - card (insert x E)"
      unfolding e using E by (intro card_Diff_subset) simp_all
    moreover have "card (insert x E) \<le> 3" using x(3) E(1) by (simp add: card_insert_if)
    ultimately show "card F \<le> card F' + 3" by simp
  qed
  moreover have "w' (imap w n i) = w (imap w n i)" if "i < m" for i
  proof -
    have "imap w n i \<in> data w n m" using that by (auto simp: data_def)
    then have "imap w n i \<notin> F \<union> meta w n m" using t(3,4) by (auto simp: separate_def)
    then show ?thesis using o(3) by blast
  qed
  moreover have "meta w' n (m + 1) \<subseteq> meta w n m \<union> F" "imap w' n m \<in> F" using im(2,3) x(1,2) by auto
  ultimately show ?thesis using im(1,2) o by (simp add: grown_def)
qed

lemma at_length:
  assumes "at s w F t" "y < cap s" "y \<notin> D0 s"
  shows "length (w y) = 512"
  using vw_length [OF at_facts(1) [OF assms(1)]] at_facts(3,8) [OF assms(1)] assms(2,3) by metis

section \<open>The three levels, on the contents of the sectors\<close>

lemma tree_meta: "tree w c n m F Z \<Longrightarrow> y \<in> meta w n m \<Longrightarrow> y \<notin> F \<and> y \<notin> Z \<and> y < c"
  using meta_bound(1) [of m w c n y] blk_ok_iff [of m w c n] by (auto simp: tree_def)

text \<open>The view after a free sector was taken (and zeroed) for the new block.\<close>

lemma grow_direct:
  assumes T: "tree w c n m F Z" and F: "finite F" "F \<subseteq> {..<c}" "0 \<notin> F" "F \<inter> Z = {}" "x \<in> F"
    and m: "m < 12" and c: "c \<le> 2 ^ 32" and l: "length (w n) = 512"
    and W: "w' = setw (w(x := zero_block)) n (2 + m) x"
  shows "grown c n m Z w F w' (F - {x})"
proof -
  have nF: "n \<notin> F" using tree_meta [OF T meta_self] by simp
  then have nx: "n \<noteq> x" using F(5) by auto
  have x32: "x < 2 ^ 32" using F(2,5) c by auto
  have w: "word_at (w' z) j = (if z = n \<and> j = 2 + m then x else word_at ((w(x := zero_block)) z) j)" if "j < 128" for z j
    unfolding W using that m l nx x32 by (intro word_at_setw) simp_all
  have s: "i_single w' n = i_single w n" "i_double w' n = i_double w n" "i_len w' n = i_len w n"
    using nx m by (simp_all add: i_single_def i_double_def i_len_def w)
  have im: "imap w' n i = (if i = m then x else imap w n i)" if "i < 12" for i
    using that nx by (simp add: imap_def w)
  have me: "meta w' n (m + 1) = {n}" "meta w n m = {n}" using m by (simp_all add: meta_def)
  have cl: "i_single w n = 0" "i_double w n = 0" using T m by (simp_all add: tree_def clean_def)
  show ?thesis
  proof (rule grownI [OF T F(1-5), where E = "{}"])
    show "\<forall>y. y \<notin> F \<union> meta w n m \<longrightarrow> w' y = w y" using F(5) by (auto simp: me W setw_def)
    show "w' x = zero_block" using nx by (simp add: W setw_def)
    show "clean w' n (m + 1)" using cl s m by (simp add: clean_def)
  qed (use im m me s in \<open>auto simp: ptrs_ok_def meta_distinct_def\<close>)
qed

lemma grow_single_old:
  assumes T: "tree w c n m F Z" and F: "finite F" "F \<subseteq> {..<c}" "0 \<notin> F" "F \<inter> Z = {}" "x \<in> F"
    and m: "12 < m" "m < 140" and c: "c \<le> 2 ^ 32" and l: "length (w (i_single w n)) = 512"
    and W: "w' = setw (w(x := zero_block)) (i_single w n) (m - 12) x"
  shows "grown c n m Z w F w' (F - {x})"
proof -
  let ?g = "i_single w n"
  have me: "meta w n m = {n, ?g}" using m by (auto simp: meta_def)
  have F': "n \<notin> F" "?g \<notin> F" using tree_meta [OF T, of n] tree_meta [OF T, of ?g] me by auto
  then have nx: "n \<noteq> x" "?g \<noteq> x" using F(5) by auto
  have gn: "?g \<noteq> n" "0 < ?g" "?g < c" using T m by (simp_all add: tree_def meta_distinct_def ptrs_ok_def)
  have x32: "x < 2 ^ 32" using F(2,5) c by auto
  have w: "word_at (w' z) j = (if z = ?g \<and> j = m - 12 then x else word_at ((w(x := zero_block)) z) j)" if "j < 128" for z j
    unfolding W using that m l nx x32 by (intro word_at_setw) simp_all
  have s: "i_single w' n = ?g" "i_double w' n = i_double w n" "i_len w' n = i_len w n"
    using nx gn by (simp_all add: i_single_def i_double_def i_len_def w)
  have im: "imap w' n i = (if i = m then x else imap w n i)" if "i < 140" for i
    using that nx gn s(1) m by (simp add: imap_def w) (auto simp: imap_def)
  have me': "meta w' n (m + 1) = {n, ?g}" using m s by (auto simp: meta_def)
  have cl: "i_double w n = 0" using T m by (simp add: tree_def clean_def)
  show ?thesis
  proof (rule grownI [OF T F(1-5), where E = "{}"])
    show "\<forall>y. y \<notin> F \<union> meta w n m \<longrightarrow> w' y = w y" using F(5) by (auto simp: me W setw_def)
    show "w' x = zero_block" using nx by (simp add: W setw_def)
    show "clean w' n (m + 1)" using cl s m by (simp add: clean_def)
    show "\<forall>i < m. imap w' n i = imap w n i" "imap w' n m = x" using im m by simp_all
    show "ptrs_ok w' c n (m + 1)" "meta_distinct w' n (m + 1)" using m s gn by (simp_all add: ptrs_ok_def meta_distinct_def)
    show "meta w' n (m + 1) = meta w n m \<union> {}" using me me' by simp
  qed (simp_all add: s)
qed

lemma grow_single_new:
  assumes T: "tree w c n 12 F Z" and F: "finite F" "F \<subseteq> {..<c}" "0 \<notin> F" "F \<inter> Z = {}" "x \<in> F"
    and x2: "x2 \<in> F - {x}" and c: "c \<le> 2 ^ 32" and l: "length (w n) = 512"
    and W0: "w0 = w(x := zero_block, x2 := zero_block)" and W1: "w1 = setw w0 n 14 x2" and W: "w' = setw w1 x2 0 x"
  shows "grown c n 12 Z w F w' (F - {x} - {x2})"
proof -
  have me: "meta w n 12 = {n}" by (simp add: meta_def)
  have nF: "n \<notin> F" using tree_meta [OF T meta_self] by simp
  then have nx: "n \<noteq> x" "n \<noteq> x2" "x2 \<noteq> x" using F(5) x2 by auto
  have x32: "x < 2 ^ 32" "x2 < 2 ^ 32" "0 < x2" "x2 < c" using F(2,3,5) x2 c by (auto intro: gr0I)
  have w1: "word_at (w1 z) j = (if z = n \<and> j = 14 then x2 else word_at (w0 z) j)" if "j < 128" for z j
    unfolding W1 using that l nx x32 by (intro word_at_setw) (simp_all add: W0)
  have l1: "length (w1 x2) = 512" using nx l by (simp add: W1 W0 length_setw)
  have w: "word_at (w' z) j = (if z = x2 \<and> j = 0 then x else word_at (w1 z) j)" if "j < 128" for z j
    unfolding W using that l1 x32 by (intro word_at_setw) simp_all
  have s: "i_single w' n = x2" "i_double w' n = i_double w n" "i_len w' n = i_len w n"
    using nx by (simp_all add: i_single_def i_double_def i_len_def w w1 W0)
  have im: "imap w' n i = (if i = 12 then x else imap w n i)" if "i < 13" for i
    using that nx s(1) by (cases "i < 12") (auto simp: imap_def w w1 W0)
  have me': "meta w' n 13 = {n, x2}" using s by (auto simp: meta_def)
  have cl: "i_double w n = 0" using T by (simp add: tree_def clean_def)
  show ?thesis
  proof (rule grownI [OF T F(1-5), where E = "{x2}"])
    show "\<forall>y. y \<notin> F \<union> meta w n 12 \<longrightarrow> w' y = w y" using F(5) x2 by (auto simp: me W W1 W0 setw_def)
    show "w' x = zero_block" using nx by (simp add: W W1 W0 setw_def)
    show "clean w' n (12 + 1)" using cl s by (simp add: clean_def)
    show "\<forall>i < 12. imap w' n i = imap w n i" "imap w' n 12 = x" using im by simp_all
    show "ptrs_ok w' c n (12 + 1)" "meta_distinct w' n (12 + 1)" using s nx x32 by (simp_all add: ptrs_ok_def meta_distinct_def)
  qed (use x2 in \<open>simp_all add: me me' s insert_commute\<close>)
qed

lemma ind_index: "140 \<le> m \<Longrightarrow> 140 + 128 * ((m - 140) div 128) + (m - 140) mod 128 = (m::nat)"
  by simp

lemma ind_set:
  fixes m :: nat
  assumes "140 \<le> m"
  shows "{k. 140 + 128 * k < m + 1} =
    (if (m - 140) mod 128 = 0 then insert ((m - 140) div 128) {k. 140 + 128 * k < m} else {k. 140 + 128 * k < m})"
proof -
  let ?d = "(m - 140) div 128" and ?r = "(m - 140) mod 128"
  have e: "140 + 128 * ?d + ?r = m" by (rule ind_index [OF assms])
  have "140 + 128 * k = m \<longleftrightarrow> ?r = 0 \<and> k = ?d" for k
  proof
    assume "140 + 128 * k = m"
    then have "m - 140 = 128 * k" by simp
    then show "?r = 0 \<and> k = ?d" by simp
  qed (use e in simp)
  then have "140 + 128 * k < m + 1 \<longleftrightarrow> 140 + 128 * k < m \<or> ?r = 0 \<and> k = ?d" for k by (metis less_Suc_eq Suc_eq_plus1)
  then show ?thesis by auto
qed

lemma ind_lt: "140 + 128 * k < m \<Longrightarrow> m \<le> MAX_BLOCKS \<Longrightarrow> k < 128"
  by (simp add: MAX_BLOCKS_def)

lemma block_ind:
  assumes "140 \<le> i" "i < m" "m \<le> MAX_BLOCKS"
  shows "140 + 128 * ((i - 140) div 128) < m" "(i - 140) div 128 < 128" "(i - 140) mod 128 < 128"
proof -
  show "140 + 128 * ((i - 140) div 128) < m" using ind_index [OF assms(1)] assms(2) by linarith
  then show "(i - 140) div 128 < 128" using ind_lt assms(3) by blast
qed simp

text \<open>What a new pointer at the lowest level changes in the block map, for the pointers at the levels above.\<close>

lemma imap_lower:
  assumes T: "tree w c n m F Z" "140 < m" "m \<le> MAX_BLOCKS"
    and same: "\<And>j. j < 128 \<Longrightarrow> word_at (w' n) j = word_at (w n) j"
      "\<And>j. j < 128 \<Longrightarrow> word_at (w' (i_single w n)) j = word_at (w (i_single w n)) j"
      "\<And>k j. 140 + 128 * k < m \<Longrightarrow> j < 128 \<Longrightarrow> 140 + 128 * k + j < m \<Longrightarrow>
        word_at (w' (i_ind w n k)) j = word_at (w (i_ind w n k)) j"
      "\<And>k. 140 + 128 * k < m \<Longrightarrow> word_at (w' (i_double w n)) k = word_at (w (i_double w n)) k"
    and i: "i < m"
  shows "imap w' n i = imap w n i"
proof -
  have s: "i_single w' n = i_single w n" "i_double w' n = i_double w n" using same(1) by (simp_all add: i_single_def i_double_def)
  consider "i < 12" | "12 \<le> i" "i < 140" | "140 \<le> i" by linarith
  then show ?thesis
  proof cases
    case 1
    then show ?thesis using same(1) by (simp add: imap_def)
  next
    case 2
    then show ?thesis using same(2) s by (simp add: imap_def)
  next
    case 3
    note b = block_ind [OF 3 i T(3)]
    have "i_ind w' n ((i - 140) div 128) = i_ind w n ((i - 140) div 128)" using same(4) [OF b(1)] s by (simp add: i_ind_def)
    moreover have "140 + 128 * ((i - 140) div 128) + (i - 140) mod 128 < m" using ind_index [OF 3] i by simp
    ultimately show ?thesis using 3 same(3) [OF b(1,3)] by (simp add: imap_def)
  qed
qed

lemma grow_ind_old:
  assumes T: "tree w c n m F Z" and F: "finite F" "F \<subseteq> {..<c}" "0 \<notin> F" "F \<inter> Z = {}" "x \<in> F"
    and m: "140 \<le> m" "(m - 140) mod 128 \<noteq> 0" "m < MAX_BLOCKS" and c: "c \<le> 2 ^ 32"
    and g: "g = i_ind w n ((m - 140) div 128)" and l: "length (w g) = 512"
    and W: "w' = setw (w(x := zero_block)) g ((m - 140) mod 128) x"
  shows "grown c n m Z w F w' (F - {x})"
proof -
  define d where "d = (m - 140) div 128"
  define r where "r = (m - 140) mod 128"
  have e: "140 + 128 * d + r = m" "r < 128" "r \<noteq> 0" using ind_index [OF m(1)] m(2) by (simp_all add: d_def r_def)
  have dm: "140 + 128 * d < m" "140 < m" using e by linarith+
  have ks: "{k. 140 + 128 * k < m + 1} = {k. 140 + 128 * k < m}" using ind_set [OF m(1)] m(2) by simp
  have gm: "g \<in> meta w n m" "i_double w n \<in> meta w n m" "i_single w n \<in> meta w n m" using dm by (auto simp: meta_def g d_def)
  have km: "i_ind w n k \<in> meta w n m" if "140 + 128 * k < m" for k using that dm by (auto simp: meta_def)
  have nF: "y \<noteq> x" if "y \<in> meta w n m" for y using tree_meta [OF T that] F(5) by auto
  have MD: "meta_distinct w n m" "ptrs_ok w c n m" "clean w n m" using T by (simp_all add: tree_def)
  have gn: "g \<noteq> n" "g \<noteq> i_single w n" "g \<noteq> i_double w n" using MD(1) dm by (simp_all add: meta_distinct_def g d_def)
  have x32: "x < 2 ^ 32" using F(2,5) c by auto
  have w: "word_at (w' z) j = (if z = g \<and> j = r then x else word_at ((w(x := zero_block)) z) j)" if "j < 128" for z j
    unfolding W using that e l nF [OF gm(1)] x32 by (subst word_at_setw) (simp_all add: r_def)
  have s: "i_single w' n = i_single w n" "i_double w' n = i_double w n" "i_len w' n = i_len w n"
    using nF [of n] gn by (simp_all add: i_single_def i_double_def i_len_def w)
  have ii: "i_ind w' n k = i_ind w n k" if "k < 128" for k
    using that s(2) nF [OF gm(2)] gn(3) by (simp add: i_ind_def w)
  have k128: "k < 128" if "140 + 128 * k < m" for k using ind_lt [OF that] m(3) by simp
  have inj: "k = d" if "140 + 128 * k < m" "i_ind w n k = g" for k
    using MD(1) that dm by (auto simp: meta_distinct_def g d_def [symmetric] dest: inj_onD)
  have im: "\<forall>i < m. imap w' n i = imap w n i"
  proof (intro allI impI)
    fix i assume "i < m"
    then show "imap w' n i = imap w n i"
    proof (rule imap_lower [OF T dm(2) less_imp_le [OF m(3)], rotated -1])
      fix k j assume k: "140 + 128 * k < m" "j < 128" "140 + 128 * k + j < m"
      have "\<not> (i_ind w n k = g \<and> j = r)" using inj [OF k(1)] k(3) e(1) by auto
      then show "word_at (w' (i_ind w n k)) j = word_at (w (i_ind w n k)) j"
        using k(2) nF [OF km [OF k(1)]] by (auto simp: w)
    qed (use nF [of n] nF [OF gm(2)] nF [OF gm(3)] gn k128 in \<open>auto simp: w\<close>)
  qed
  have imm: "imap w' n m = x" using m(1) ii [OF k128 [OF dm(1)]] e by (simp add: imap_def d_def [symmetric] r_def [symmetric] w g)
  have me: "meta w' n (m + 1) = meta w n m"
  proof -
    have "i_ind w' n ` {k. 140 + 128 * k < m} = i_ind w n ` {k. 140 + 128 * k < m}" using ii k128 by (intro image_cong) auto
    then show ?thesis using s dm(2) by (simp only: meta_def ks) simp
  qed
  have inj': "inj_on (i_ind w' n) {k. 140 + 128 * k < m + 1}"
    unfolding ks using MD(1) ii k128 inj_on_cong [of "{k. 140 + 128 * k < m}" "i_ind w' n" "i_ind w n"] by (simp add: meta_distinct_def)
  have kk: "140 + 128 * k < m + 1 \<longleftrightarrow> 140 + 128 * k < m" for k using ks by blast
  show ?thesis
  proof (rule grownI [OF T F(1-5), where E = "{}"])
    show "\<forall>y. y \<notin> F \<union> meta w n m \<longrightarrow> w' y = w y" using F(5) gm(1) by (auto simp: W setw_def)
    show "w' x = zero_block" using nF [OF gm(1)] by (simp add: W setw_def)
    show "meta w' n (m + 1) = meta w n m \<union> {}" using me by simp
    show "ptrs_ok w' c n (m + 1)" using MD(2) dm s ii k128 unfolding ptrs_ok_def kk by simp
    show "clean w' n (m + 1)" using MD(3) dm s ii k128 unfolding clean_def by auto
    show "meta_distinct w' n (m + 1)" using MD(1) dm s ii k128 inj' unfolding meta_distinct_def kk by simp
  qed (use im imm s in simp_all)
qed

lemma grow_ind_new:
  assumes T: "tree w c n m F Z" and F: "finite F" "F \<subseteq> {..<c}" "0 \<notin> F" "F \<inter> Z = {}" "x \<in> F"
    and x2: "x2 \<in> F - {x}"
    and m: "140 < m" "(m - 140) mod 128 = 0" "m < MAX_BLOCKS" and c: "c \<le> 2 ^ 32"
    and l: "length (w (i_double w n)) = 512"
    and W0: "w0 = w(x := zero_block, x2 := zero_block)" and W1: "w1 = setw w0 (i_double w n) ((m - 140) div 128) x2"
    and W: "w' = setw w1 x2 0 x"
  shows "grown c n m Z w F w' (F - {x} - {x2})"
proof -
  define d where "d = (m - 140) div 128"
  let ?b = "i_double w n"
  have m': "140 \<le> m" using m(1) by simp
  have e: "140 + 128 * d = m" "d < 128" using ind_index [OF m'] m(2,3) by (simp_all add: d_def MAX_BLOCKS_def)
  have ks: "{k. 140 + 128 * k < m + 1} = insert d {k. 140 + 128 * k < m}" using ind_set [OF m'] m(2) by (simp add: d_def)
  have gm: "?b \<in> meta w n m" "i_single w n \<in> meta w n m" using m(1) by (auto simp: meta_def)
  have km: "i_ind w n k \<in> meta w n m" if "140 + 128 * k < m" for k using that m(1) by (auto simp: meta_def)
  have nF: "y \<noteq> x \<and> y \<noteq> x2" if "y \<in> meta w n m" for y using tree_meta [OF T that] F(5) x2 by auto
  have MD: "meta_distinct w n m" "ptrs_ok w c n m" "clean w n m" using T by (simp_all add: tree_def)
  have bn: "?b \<noteq> n" "?b \<noteq> i_single w n" using MD(1) m(1) by (simp_all add: meta_distinct_def)
  have kb: "i_ind w n k \<noteq> ?b" if "140 + 128 * k < m" for k using MD(1) that by (simp add: meta_distinct_def)
  have x32: "x < 2 ^ 32" "x2 < 2 ^ 32" "0 < x2" "x2 < c" "x2 \<noteq> x" using F(2,3,5) x2 c by (auto intro: gr0I)
  have lb: "length (w0 ?b) = 512" using l nF [OF gm(1)] by (simp add: W0)
  have w1: "word_at (w1 z) j = (if z = ?b \<and> j = d then x2 else word_at (w0 z) j)" if "j < 128" for z j
    unfolding W1 using that e lb x32 by (subst word_at_setw) (simp_all add: d_def)
  have l1: "length (w1 x2) = 512" using nF [OF gm(1)] lb e by (simp add: W1 d_def length_setw) (simp add: W0)
  have w: "word_at (w' z) j = (if z = x2 \<and> j = 0 then x else if z = ?b \<and> j = d then x2 else word_at (w0 z) j)" if "j < 128" for z j
    unfolding W using that l1 x32 by (subst word_at_setw) (simp_all add: w1)
  have s: "i_single w' n = i_single w n" "i_double w' n = ?b" "i_len w' n = i_len w n"
    using nF [of n] bn by (simp_all add: i_single_def i_double_def i_len_def w W0)
  have ii: "i_ind w' n k = (if k = d then x2 else i_ind w n k)" if "k < 128" for k
    using that s(2) nF [OF gm(1)] by (simp add: i_ind_def w) (simp add: W0)
  have k128: "k < 128 \<and> k \<noteq> d" if "140 + 128 * k < m" for k using ind_lt [OF that] m(3) e that by auto
  have im: "\<forall>i < m. imap w' n i = imap w n i"
  proof (intro allI impI)
    fix i assume "i < m"
    then show "imap w' n i = imap w n i"
    proof (rule imap_lower [OF T m(1) less_imp_le [OF m(3)], rotated -1])
      fix k j assume k: "140 + 128 * k < m" "j < 128" "140 + 128 * k + j < m"
      show "word_at (w' (i_ind w n k)) j = word_at (w (i_ind w n k)) j"
        using k(2) nF [OF km [OF k(1)]] kb [OF k(1)] by (simp add: w W0)
    qed (use nF [of n] nF [OF gm(1)] nF [OF gm(2)] bn k128 in \<open>auto simp: w W0\<close>)
  qed
  have imm: "imap w' n m = x"
    using m'  m(2) ii [OF e(2)] by (simp add: imap_def d_def [symmetric] w)
  have img: "i_ind w' n ` {k. 140 + 128 * k < m} = i_ind w n ` {k. 140 + 128 * k < m}"
    using ii k128 by (intro image_cong) auto
  have me: "meta w' n (m + 1) = meta w n m \<union> {x2}"
    unfolding meta_def ks using s m(1) img ii [OF e(2)] by auto
  have inj': "inj_on (i_ind w' n) {k. 140 + 128 * k < m + 1}"
  proof -
    have "inj_on (i_ind w' n) {k. 140 + 128 * k < m}"
      using MD(1) ii k128 inj_on_cong [of "{k. 140 + 128 * k < m}" "i_ind w' n" "i_ind w n"] by (simp add: meta_distinct_def)
    moreover have "x2 \<notin> i_ind w n ` {k. 140 + 128 * k < m}" using nF [OF km] by auto
    ultimately show ?thesis unfolding ks using ii [OF e(2)] img e(1) by simp
  qed
  have kk: "140 + 128 * k < m + 1 \<longleftrightarrow> k = d \<or> 140 + 128 * k < m" for k using ks by blast
  show ?thesis
  proof (rule grownI [OF T F(1-5), where E = "{x2}"])
    show "\<forall>y. y \<notin> F \<union> meta w n m \<longrightarrow> w' y = w y" using F(5) x2 gm(1) by (auto simp: W W1 W0 setw_def)
    show "w' x = zero_block" using nF [OF gm(1)] x32(5) by (auto simp: W W1 W0 setw_def)
    show "meta w' n (m + 1) = meta w n m \<union> {x2}" using me by simp
    show "ptrs_ok w' c n (m + 1)"
      using MD(2) m(1) s ii [OF e(2)] ii k128 x32 unfolding ptrs_ok_def kk by auto
    show "clean w' n (m + 1)" using MD(3) m(1) s ii e(1) unfolding clean_def by auto
    show "meta_distinct w' n (m + 1)"
      using MD(1) m(1) s ii [OF e(2)] ii k128 inj' nF [of n] nF [OF gm(1)] nF [OF gm(2)] bn unfolding meta_distinct_def kk by auto
  qed (use im imm s x2 in simp_all)
qed

lemma grow_double_new:
  assumes T: "tree w c n 140 F Z" and F: "finite F" "F \<subseteq> {..<c}" "0 \<notin> F" "F \<inter> Z = {}" "x \<in> F"
    and x2: "x2 \<in> F - {x}" and x3: "x3 \<in> F - {x} - {x2}" and c: "c \<le> 2 ^ 32" and l: "length (w n) = 512"
    and W0: "w0 = w(x := zero_block, x2 := zero_block)" and W1: "w1 = setw w0 n 15 x2"
    and W2: "w2 = w1(x3 := zero_block)" and W3: "w3 = setw w2 x2 0 x3" and W: "w' = setw w3 x3 0 x"
  shows "grown c n 140 Z w F w' (F - {x} - {x2, x3})"
proof -
  have gm: "i_single w n \<in> meta w n 140" by (auto simp: meta_def)
  have nF: "y \<noteq> x \<and> y \<noteq> x2 \<and> y \<noteq> x3" if "y \<in> meta w n 140" for y using tree_meta [OF T that] F(5) x2 x3 by auto
  have MD: "meta_distinct w n 140" "ptrs_ok w c n 140" "clean w n 140" using T by (simp_all add: tree_def)
  have x32: "x < 2 ^ 32" "x2 < 2 ^ 32" "x3 < 2 ^ 32" "0 < x2" "x2 < c" "0 < x3" "x3 < c" "x2 \<noteq> x" "x3 \<noteq> x" "x3 \<noteq> x2"
    using F(2,3,5) x2 x3 c by (auto intro: gr0I)
  have nn: "n \<noteq> x" "n \<noteq> x2" "n \<noteq> x3" using nF [of n] by auto
  have gg: "i_single w n \<noteq> n" "i_single w n \<noteq> x" "i_single w n \<noteq> x2" "i_single w n \<noteq> x3"
    using nF [OF gm] MD(1) by (auto simp: meta_distinct_def)
  have w1: "word_at (w1 z) j = (if z = n \<and> j = 15 then x2 else word_at (w0 z) j)" if "j < 128" for z j
    unfolding W1 using that l nn x32 by (subst word_at_setw) (simp_all add: W0)
  have l2: "length (w2 x2) = 512" "length (w2 x3) = 512" using nn x32 by (simp_all add: W2 W1 W0 setw_def)
  have w3: "word_at (w3 z) j = (if z = x2 \<and> j = 0 then x3 else word_at (w2 z) j)" if "j < 128" for z j
    unfolding W3 using that l2 x32 by (subst word_at_setw) simp_all
  have l3: "length (w3 x3) = 512" using l2 x32 by (simp add: W3 length_setw)
  have w: "word_at (w' z) j = (if z = x3 \<and> j = 0 then x else word_at (w3 z) j)" if "j < 128" for z j
    unfolding W using that l3 x32 by (subst word_at_setw) simp_all
  have w2: "word_at (w2 z) j = (if z = x3 then 0 else word_at (w1 z) j)" if "j < 128" for z j
    using that by (simp add: W2)
  have w0: "word_at (w0 z) j = (if z = x2 then 0 else if z = x then 0 else word_at (w z) j)" if "j < 128" for z j
    using that by (simp add: W0)
  note ws = w w3 w2 w1 w0
  have s: "i_single w' n = i_single w n" "i_double w' n = x2" "i_len w' n = i_len w n"
    using nn by (simp_all add: i_single_def i_double_def i_len_def ws)
  have ii: "i_ind w' n k = (if k = 0 then x3 else 0)" if "k < 128" for k
    using that s(2) nn x32 by (simp add: i_ind_def ws)
  have im: "\<forall>i < 140. imap w' n i = imap w n i"
  proof (intro allI impI)
    fix i :: nat assume "i < 140"
    then show "imap w' n i = imap w n i" using nn gg s(1) by (cases "i < 12") (simp_all add: imap_def ws)
  qed
  have imm: "imap w' n 140 = x" using ii [of 0] by (simp add: imap_def w)
  have k0: "140 + 128 * k < 141 \<longleftrightarrow> k = 0" for k :: nat by auto
  have me: "meta w' n 141 = {n, i_single w n, x2, x3}" "meta w n 140 = {n, i_single w n}"
    using s ii [of 0] by (auto simp: meta_def)
  show ?thesis
  proof (rule grownI [OF T F(1-5), where E = "{x2, x3}"])
    show "\<forall>y. y \<notin> F \<union> meta w n 140 \<longrightarrow> w' y = w y" using F(5) x2 x3 by (auto simp: me W W3 W2 W1 W0 setw_def)
    show "w' x = zero_block" using nn x32 by (auto simp: W W3 W2 W1 W0 setw_def)
    show "clean w' n (140 + 1)" using s ii by (simp add: clean_def)
    show "ptrs_ok w' c n (140 + 1)"
      using MD(2) s ii [of 0] x32 by (simp add: ptrs_ok_def k0)
    show "meta_distinct w' n (140 + 1)"
      using s ii [of 0] x32 nn gg by (auto simp: meta_distinct_def k0 inj_on_def)
    show "meta w' n (140 + 1) = meta w n 140 \<union> {x2, x3}" using me by auto
  qed (use im imm s x2 x3 x32 in auto)
qed

end
