(* ===== verification/Inode_Grow.thy ===== *)
theory Inode_Grow
  imports Inode_Install
begin

text \<open>The operations that extend an inode: \<open>install_sector\<close>, \<open>inode_extend\<close>,
  \<open>inode_extend_to_bytes\<close>, and with them writes beyond the end of a file.\<close>

lemma at_setw:
  "at s w F t \<Longrightarrow> y < cap s \<Longrightarrow> y \<notin> fp (vw s) 0 \<Longrightarrow> k < 128 \<Longrightarrow> a = 4 * int k \<Longrightarrow>
     \<exists>u. set32 y a x t = Some u \<and> at s (setw w y k x) F u"
  using at_set32 [of s w F t y k a x] by (simp add: setw_def)

lemma at_write_sector:
  "at s w F t \<Longrightarrow> y < cap s \<Longrightarrow> y \<notin> fp (vw s) 0 \<Longrightarrow> y \<noteq> 0 \<Longrightarrow> k < 128 \<Longrightarrow> i = int k \<Longrightarrow>
     \<exists>u. write_sector y i x t = Some u \<and> at s (setw w y k x) F u"
  using at_setw [of s w F t y k "i * 4" x] by (auto simp: write_sector_def)

lemma at_read_sector:
  "at s w F t \<Longrightarrow> y < cap s \<Longrightarrow> y \<notin> fp (vw s) 0 \<Longrightarrow> y \<noteq> 0 \<Longrightarrow> k < 128 \<Longrightarrow> i = int k \<Longrightarrow>
     \<exists>u. read_sector y i t = Some (word_at (w y) k, u) \<and> at s w F u"
  using at_get32 [of s w F t y k "i * 4"] at_facts(10) [of s w F t] by (auto simp: read_sector_def)

lemma at_single:
  "at s w F t \<Longrightarrow> n < cap s \<Longrightarrow> n \<notin> fp (vw s) 0 \<Longrightarrow>
     \<exists>u. inode_get_single_ptr n t = Some (i_single w n, u) \<and> at s w F u"
  using at_get32 [of s w F t n 14 "8 + 4 * NUM_DIRECT_PTRS"] at_facts(10) [of s w F t]
  by (auto simp: inode_get_single_ptr_def NUM_DIRECT_PTRS_def i_single_def)

lemma at_double:
  "at s w F t \<Longrightarrow> n < cap s \<Longrightarrow> n \<notin> fp (vw s) 0 \<Longrightarrow>
     \<exists>u. inode_get_double_ptr n t = Some (i_double w n, u) \<and> at s w F u"
  using at_get32 [of s w F t n 15 "8 + 4 * NUM_DIRECT_PTRS + 4"] at_facts(10) [of s w F t]
  by (auto simp: inode_get_double_ptr_def NUM_DIRECT_PTRS_def i_double_def)

lemma at_set_single:
  "at s w F t \<Longrightarrow> n < cap s \<Longrightarrow> n \<notin> fp (vw s) 0 \<Longrightarrow>
     \<exists>u. inode_set_single_ptr n x t = Some u \<and> at s (setw w n 14 x) F u"
  using at_setw [of s w F t n 14 "8 + 4 * NUM_DIRECT_PTRS" x]
  by (simp add: inode_set_single_ptr_def NUM_DIRECT_PTRS_def)

lemma at_set_double:
  "at s w F t \<Longrightarrow> n < cap s \<Longrightarrow> n \<notin> fp (vw s) 0 \<Longrightarrow>
     \<exists>u. inode_set_double_ptr n x t = Some u \<and> at s (setw w n 15 x) F u"
  using at_setw [of s w F t n 15 "8 + 4 * NUM_DIRECT_PTRS + 4" x]
  by (simp add: inode_set_double_ptr_def NUM_DIRECT_PTRS_def)

lemma at_sets:
  assumes "at s w F t"
  shows "finite F" "F \<subseteq> {..<cap s}" "0 \<notin> F" "F \<inter> fp (vw s) 0 = {}" "cap s \<le> 2 ^ 32"
proof -
  note f = at_facts [OF assms]
  show "finite F" "F \<subseteq> {..<cap s}" "F \<inter> fp (vw s) 0 = {}" by (rule f)+
  have "0 \<in> fp (vw s) 0" by (simp add: fp_def)
  then show "0 \<notin> F" using f(9) by blast
  show "cap s \<le> 2 ^ 32" using f(2,3) by (simp add: fm_inv_def fm_file_def)
qed

lemma card_left: "x \<in> F \<Longrightarrow> Suc k \<le> card F \<Longrightarrow> k \<le> card (F - {x})"
  by (cases "finite F") (simp_all add: card_Diff_singleton)

lemma card_more: "x \<in> F \<Longrightarrow> Suc (Suc k) \<le> card F \<Longrightarrow> F - {x} \<noteq> {}"
  using card_left [of x F "Suc k"] by (metis card.empty not_less_eq_eq zero_le)

text \<open>The beginning of \<open>install_sector\<close>: a zeroed sector for the block.\<close>

lemma install_start:
  assumes "at s w F t" "F \<noteq> {}" "m < MAX_BLOCKS"
  shows "\<exists>x u. x \<in> F \<and> at s (w(x := zero_block)) (F - {x}) u \<and> install_sector FM n (int m) t =
     (if int m < NUM_DIRECT_PTRS then inode_set_direct_ptr n (int m) x u
     else if int m < NUM_DIRECT_PTRS + 128 then do {
       (single, s) \<leftarrow> inode_get_single_ptr n u;
       s \<leftarrow> (if single = 0 then do {
               (new_sector, s) \<leftarrow> need_sector FM s;
               inode_set_single_ptr n new_sector s }
             else Some s);
       (single, s) \<leftarrow> inode_get_single_ptr n s;
       write_sector single (int m - NUM_DIRECT_PTRS) x s }
     else do {
       (double, s) \<leftarrow> inode_get_double_ptr n u;
       s \<leftarrow> (if double = 0 then do {
               (new_sector, s) \<leftarrow> need_sector FM s;
               inode_set_double_ptr n new_sector s }
             else Some s);
       let dab = int m - NUM_DIRECT_PTRS - Indirect_Block;
       ASSERT (dab \<ge> 0);
       (double, s) \<leftarrow> inode_get_double_ptr n s;
       (ind_sec, s) \<leftarrow> read_sector double (dab div Indirect_Block) s;
       (ind_sec, s) \<leftarrow> (if ind_sec = 0 then do {
               (ind_sec, s) \<leftarrow> need_sector FM s;
               (double, s) \<leftarrow> inode_get_double_ptr n s;
               s \<leftarrow> write_sector double (dab div Indirect_Block) ind_sec s;
               Some (ind_sec, s) }
             else Some (ind_sec, s));
       write_sector ind_sec (dab mod Indirect_Block) x s })"
proof -
  note F = at_sets [OF assms(1)]
  obtain x t1 where x: "need_sector FM t = Some (x, t1)" "x \<in> F" "at s (w(x := zero_block)) (F - {x}) t1"
    using at_need [OF assms(1,2)] by blast
  have "x < cap s" "x \<notin> fp (vw s) 0" using x(2) F by auto
  then obtain u where u: "fs_write x zero_block 0 512 t1 = Some u" "at s ((w(x := zero_block))(x := zero_block)) (F - {x}) u"
    using at_zero [OF x(3)] by blast
  have "int m < NUM_DIRECT_PTRS + 128 * (1 + 128)" using assms(3) by (simp add: NUM_DIRECT_PTRS_def MAX_BLOCKS_def)
  then show ?thesis using x(1,2) u by (intro exI [of _ x] exI [of _ u]) (simp add: install_sector_def)
qed

lemma install_direct:
  assumes "at s w F t" "tree w (cap s) n m F (fp (vw s) 0)" "F \<noteq> {}" "m < 12"
  shows "\<exists>w' F' t'. install_sector FM n (int m) t = Some t' \<and> at s w' F' t' \<and> grown (cap s) n m (fp (vw s) 0) w F w' F'"
proof -
  note F = at_sets [OF assms(1)]
  have n: "n < cap s" "n \<notin> fp (vw s) 0" "n \<notin> D0 s" using tree_meta [OF assms(2) meta_self] at_facts(10) [OF assms(1)] by auto
  have "m < MAX_BLOCKS" using assms(4) by (simp add: MAX_BLOCKS_def)
  then obtain x u where x: "x \<in> F" "at s (w(x := zero_block)) (F - {x}) u"
    "install_sector FM n (int m) t = inode_set_direct_ptr n (int m) x u"
    using install_start [OF assms(1,3), of m n] assms(4) by (auto simp: NUM_DIRECT_PTRS_def)
  obtain u' where "set32 n (8 + 4 * int m) x u = Some u'" "at s (setw (w(x := zero_block)) n (2 + m) x) (F - {x}) u'"
    using at_setw [OF x(2) n(1,2), of "2 + m" "8 + 4 * int m" x] assms(4) by auto
  then show ?thesis using x(3) grow_direct [OF assms(2) F(1-4) x(1) assms(4) F(5) at_length [OF assms(1) n(1,3)] refl]
    by (auto simp: inode_set_direct_ptr_def)
qed

lemma install_single:
  assumes "at s w F t" "tree w (cap s) n m F (fp (vw s) 0)" "3 \<le> card F" "12 \<le> m" "m < 140"
  shows "\<exists>w' F' t'. install_sector FM n (int m) t = Some t' \<and> at s w' F' t' \<and> grown (cap s) n m (fp (vw s) 0) w F w' F'"
proof -
  note F = at_sets [OF assms(1)]
  have n: "n < cap s" "n \<notin> fp (vw s) 0" "n \<notin> D0 s" "n \<notin> F" using tree_meta [OF assms(2) meta_self] at_facts(10) [OF assms(1)] by auto
  have "m < MAX_BLOCKS" "F \<noteq> {}" using assms(3,5) by (auto simp: MAX_BLOCKS_def)
  then obtain x u where x: "x \<in> F" "at s (w(x := zero_block)) (F - {x}) u"
    "install_sector FM n (int m) t = do {
       (single, s) \<leftarrow> inode_get_single_ptr n u;
       s \<leftarrow> (if single = 0 then do {
               (new_sector, s) \<leftarrow> need_sector FM s;
               inode_set_single_ptr n new_sector s }
             else Some s);
       (single, s) \<leftarrow> inode_get_single_ptr n s;
       write_sector single (int m - 12) x s }"
    using install_start [OF assms(1), of m n] assms(4,5) by (auto simp: NUM_DIRECT_PTRS_def)
  define w1 where "w1 = w(x := zero_block)"
  have nx: "n \<noteq> x" using n(4) x(1) by auto
  have s1: "i_single w1 n = i_single w n" using nx by (simp add: i_single_def w1_def)
  obtain t1 where t1: "inode_get_single_ptr n u = Some (i_single w n, t1)" "at s w1 (F - {x}) t1"
    using at_single [OF x(2) n(1,2)] s1 by (auto simp: w1_def)
  have k: "m - 12 < 128" "int m - 12 = int (m - 12)" using assms(4,5) by auto
  show ?thesis
  proof (cases "m = 12")
    case True
    then have z: "i_single w n = 0" using assms(2) by (simp add: tree_def clean_def)
    have "F - {x} \<noteq> {}" by (rule card_more [OF x(1), of 1]) (use assms(3) in simp)
    then obtain x2 t2 where x2: "need_sector FM t1 = Some (x2, t2)" "x2 \<in> F - {x}" "at s (w1(x2 := zero_block)) (F - {x} - {x2}) t2"
      using at_need [OF t1(2)] by blast
    obtain t3 where t3: "inode_set_single_ptr n x2 t2 = Some t3" "at s (setw (w1(x2 := zero_block)) n 14 x2) (F - {x} - {x2}) t3"
      using at_set_single [OF x2(3) n(1,2)] by blast
    have lw: "length ((w1(x2 := zero_block)) n) = 512" using at_length [OF x2(3) n(1,3)] .
    have x2b: "x2 < cap s" "x2 \<notin> fp (vw s) 0" "x2 \<noteq> 0" "x2 < 2 ^ 32" using x2(2) F by auto
    have "i_single (setw (w1(x2 := zero_block)) n 14 x2) n = x2"
      using word_at_setw [of "w1(x2 := zero_block)" n 14 14 x2 n, OF lw] x2b(4) by (simp add: i_single_def)
    then obtain t4 where t4: "inode_get_single_ptr n t3 = Some (x2, t4)" "at s (setw (w1(x2 := zero_block)) n 14 x2) (F - {x} - {x2}) t4"
      using at_single [OF t3(2) n(1,2)] by auto
    obtain t5 where t5: "write_sector x2 (int m - 12) x t4 = Some t5"
      "at s (setw (setw (w1(x2 := zero_block)) n 14 x2) x2 0 x) (F - {x} - {x2}) t5"
      using at_write_sector [OF t4(2) x2b(1-3), of 0] True by auto
    have "grown (cap s) n m (fp (vw s) 0) w F (setw (setw (w1(x2 := zero_block)) n 14 x2) x2 0 x) (F - {x} - {x2})"
      unfolding True by (rule grow_single_new [OF assms(2) [unfolded True] F(1-4) x(1) x2(2) F(5) at_length [OF assms(1) n(1,3)]])
        (simp_all add: w1_def)
    then show ?thesis using x(3) z t1(1) x2(1) t3(1) t4(1) t5 by auto
  next
    case False
    then have m: "12 < m" using assms(4) by simp
    let ?g = "i_single w n"
    have "?g \<in> meta w n m" using m by (simp add: meta_def)
    then have g: "?g < cap s" "?g \<notin> fp (vw s) 0" "?g \<notin> D0 s" using tree_meta [OF assms(2)] at_facts(10) [OF assms(1)] by auto
    have g0: "?g \<noteq> 0" using assms(2) m by (simp add: tree_def ptrs_ok_def)
    obtain t2 where t2: "inode_get_single_ptr n t1 = Some (?g, t2)" "at s w1 (F - {x}) t2"
      using at_single [OF t1(2) n(1,2)] s1 by auto
    obtain t3 where t3: "write_sector ?g (int m - 12) x t2 = Some t3" "at s (setw w1 ?g (m - 12) x) (F - {x}) t3"
      using at_write_sector [OF t2(2) g(1,2) g0 k] by blast
    have "grown (cap s) n m (fp (vw s) 0) w F (setw w1 ?g (m - 12) x) (F - {x})"
      by (rule grow_single_old [OF assms(2) F(1-4) x(1) m assms(5) F(5) at_length [OF assms(1) g(1,3)]]) (simp add: w1_def)
    then show ?thesis using x(3) g0 t1(1) t2(1) t3 by auto
  qed
qed

text \<open>The doubly indirect level, with the offsets computed.\<close>

definition install_rest :: "nat \<Rightarrow> nat \<Rightarrow> nat \<Rightarrow> nat \<Rightarrow> fs \<Rightarrow> fs option" where
  "install_rest n d r x u = do {
     (double, s) \<leftarrow> inode_get_double_ptr n u;
     s \<leftarrow> (if double = 0 then do {
             (new_sector, s) \<leftarrow> need_sector FM s;
             inode_set_double_ptr n new_sector s }
           else Some s);
     (double, s) \<leftarrow> inode_get_double_ptr n s;
     (ind_sec, s) \<leftarrow> read_sector double (int d) s;
     (ind_sec, s) \<leftarrow> (if ind_sec = 0 then do {
             (ind_sec, s) \<leftarrow> need_sector FM s;
             (double, s) \<leftarrow> inode_get_double_ptr n s;
             s \<leftarrow> write_sector double (int d) ind_sec s;
             Some (ind_sec, s) }
           else Some (ind_sec, s));
     write_sector ind_sec (int r) x s }"

lemma install_double_start:
  assumes "at s w F t" "F \<noteq> {}" "140 \<le> m" "m < MAX_BLOCKS"
  shows "\<exists>x u. x \<in> F \<and> at s (w(x := zero_block)) (F - {x}) u
    \<and> install_sector FM n (int m) t = install_rest n ((m - 140) div 128) ((m - 140) mod 128) x u"
proof -
  have a: "int m - 12 - 128 = int (m - 140)" "int (m - 140) div 128 = int ((m - 140) div 128)"
    "int (m - 140) mod 128 = int ((m - 140) mod 128)"
    using assms(3) by (auto simp: of_nat_div of_nat_mod)
  have b: "\<not> int m < 12" "\<not> int m < 12 + 128" using assms(3) by auto
  show ?thesis using install_start [OF assms(1,2,4), of n]
    unfolding NUM_DIRECT_PTRS_def Indirect_Block_def Let_def a install_rest_def using b by auto
qed

lemma install_double_new:
  assumes "at s w F t" "tree w (cap s) n 140 F (fp (vw s) 0)" "3 \<le> card F"
  shows "\<exists>w' F' t'. install_sector FM n 140 t = Some t' \<and> at s w' F' t' \<and> grown (cap s) n 140 (fp (vw s) 0) w F w' F'"
proof -
  note F = at_sets [OF assms(1)]
  have n: "n < cap s" "n \<notin> fp (vw s) 0" "n \<notin> D0 s" "n \<notin> F" using tree_meta [OF assms(2) meta_self] at_facts(10) [OF assms(1)] by auto
  have "F \<noteq> {}" using assms(3) by auto
  then obtain x u where x: "x \<in> F" "at s (w(x := zero_block)) (F - {x}) u" "install_sector FM n 140 t = install_rest n 0 0 x u"
    using install_double_start [OF assms(1), of 140 n] by (auto simp: MAX_BLOCKS_def)
  define w1 where "w1 = w(x := zero_block)"
  have nx: "n \<noteq> x" using n(4) x(1) by auto
  have z: "i_double w1 n = 0" using nx assms(2) by (simp add: i_double_def w1_def tree_def clean_def)
  obtain t1 where t1: "inode_get_double_ptr n u = Some (0, t1)" "at s w1 (F - {x}) t1"
    using at_double [OF x(2) n(1,2)] z by (auto simp: w1_def)
  have "F - {x} \<noteq> {}" by (rule card_more [OF x(1), of 1]) (use assms(3) in simp)
  then obtain x2 t2 where x2: "need_sector FM t1 = Some (x2, t2)" "x2 \<in> F - {x}" "at s (w1(x2 := zero_block)) (F - {x} - {x2}) t2"
    using at_need [OF t1(2)] by blast
  define w2 where "w2 = setw (w1(x2 := zero_block)) n 15 x2"
  obtain t3 where t3: "inode_set_double_ptr n x2 t2 = Some t3" "at s w2 (F - {x} - {x2}) t3"
    using at_set_double [OF x2(3) n(1,2)] by (auto simp: w2_def)
  have lw: "length ((w1(x2 := zero_block)) n) = 512" using at_length [OF x2(3) n(1,3)] .
  have x2b: "x2 < cap s" "x2 \<notin> fp (vw s) 0" "x2 \<noteq> 0" "x2 < 2 ^ 32" using x2(2) F by auto
  have d2: "i_double w2 n = x2"
    using word_at_setw [of "w1(x2 := zero_block)" n 15 15 x2 n, OF lw] x2b(4) by (simp add: i_double_def w2_def)
  have nx2: "n \<noteq> x2" using n(4) x2(2) by auto
  have z2: "word_at (w2 x2) 0 = 0" using word_at_setw [of "w1(x2 := zero_block)" n 15 0 x2 x2, OF lw] x2b(4) nx2 by (simp add: w2_def)
  obtain t4 where t4: "inode_get_double_ptr n t3 = Some (x2, t4)" "at s w2 (F - {x} - {x2}) t4"
    using at_double [OF t3(2) n(1,2)] d2 by auto
  obtain t5 where t5: "read_sector x2 0 t4 = Some (0, t5)" "at s w2 (F - {x} - {x2}) t5"
    using at_read_sector [OF t4(2) x2b(1-3), of 0 0] z2 by auto
  have "F - {x} - {x2} \<noteq> {}" by (rule card_more [OF x2(2), of 0]) (use card_left [OF x(1), of 2] assms(3) in simp)
  then obtain x3 t6 where x3: "need_sector FM t5 = Some (x3, t6)" "x3 \<in> F - {x} - {x2}" "at s (w2(x3 := zero_block)) (F - {x} - {x2} - {x3}) t6"
    using at_need [OF t5(2)] by blast
  have x3b: "x3 < cap s" "x3 \<notin> fp (vw s) 0" "x3 \<noteq> 0" "x3 \<noteq> n" using x3(2) F n(4) by auto
  have "i_double (w2(x3 := zero_block)) n = x2" using d2 x3b(4) by (simp add: i_double_def)
  then obtain t7 where t7: "inode_get_double_ptr n t6 = Some (x2, t7)" "at s (w2(x3 := zero_block)) (F - {x} - {x2} - {x3}) t7"
    using at_double [OF x3(3) n(1,2)] by auto
  define w3 where "w3 = setw (w2(x3 := zero_block)) x2 0 x3"
  obtain t8 where t8: "write_sector x2 0 x3 t7 = Some t8" "at s w3 (F - {x} - {x2} - {x3}) t8"
    using at_write_sector [OF t7(2) x2b(1-3), of 0 0] by (auto simp: w3_def)
  obtain t9 where t9: "write_sector x3 0 x t8 = Some t9" "at s (setw w3 x3 0 x) (F - {x} - {x2} - {x3}) t9"
    using at_write_sector [OF t8(2) x3b(1-3), of 0 0] by auto
  have e: "F - {x} - {x2} - {x3} = F - {x} - {x2, x3}" by blast
  have "grown (cap s) n 140 (fp (vw s) 0) w F (setw w3 x3 0 x) (F - {x} - {x2, x3})"
    by (rule grow_double_new [OF assms(2) F(1-4) x(1) x2(2) x3(2) F(5) at_length [OF assms(1) n(1,3)] _ w2_def refl w3_def refl])
      (simp add: w1_def)
  then show ?thesis using x(3) t1(1) x2(1) t3(1) t4(1) t5(1) x3(1) t7(1) t8(1) t9 e
    by (auto simp: install_rest_def)
qed

lemma install_ind_new:
  assumes "at s w F t" "tree w (cap s) n m F (fp (vw s) 0)" "3 \<le> card F" "140 < m" "m < MAX_BLOCKS" "(m - 140) mod 128 = 0"
  shows "\<exists>w' F' t'. install_sector FM n (int m) t = Some t' \<and> at s w' F' t' \<and> grown (cap s) n m (fp (vw s) 0) w F w' F'"
proof -
  note F = at_sets [OF assms(1)]
  define d where "d = (m - 140) div 128"
  have m: "140 \<le> m" using assms(4) by simp
  have d: "d < 128" "140 + 128 * d = m" using ind_index [OF m] assms(5,6) by (simp_all add: d_def MAX_BLOCKS_def)
  have n: "n < cap s" "n \<notin> fp (vw s) 0" "n \<notin> D0 s" "n \<notin> F" using tree_meta [OF assms(2) meta_self] at_facts(10) [OF assms(1)] by auto
  let ?b = "i_double w n"
  have "?b \<in> meta w n m" using assms(4) by (simp add: meta_def)
  then have b: "?b < cap s" "?b \<notin> fp (vw s) 0" "?b \<notin> D0 s" "?b \<notin> F" using tree_meta [OF assms(2)] at_facts(10) [OF assms(1)] by auto
  have b0: "?b \<noteq> 0" using assms(2,4) by (simp add: tree_def ptrs_ok_def)
  have "F \<noteq> {}" using assms(3) by auto
  then obtain x u where x: "x \<in> F" "at s (w(x := zero_block)) (F - {x}) u" "install_sector FM n (int m) t = install_rest n d 0 x u"
    using install_double_start [OF assms(1) _ m assms(5), of n] assms(6) by (auto simp: d_def)
  define w1 where "w1 = w(x := zero_block)"
  have nx: "n \<noteq> x" "?b \<noteq> x" using n(4) b(4) x(1) by auto
  have z: "i_double w1 n = ?b" "word_at (w1 ?b) d = 0"
    using nx assms(2,4) d by (simp_all add: i_double_def i_ind_def w1_def tree_def clean_def)
  obtain t1 where t1: "inode_get_double_ptr n u = Some (?b, t1)" "at s w1 (F - {x}) t1"
    using at_double [OF x(2) n(1,2)] z by (auto simp: w1_def)
  obtain t2 where t2: "inode_get_double_ptr n t1 = Some (?b, t2)" "at s w1 (F - {x}) t2"
    using at_double [OF t1(2) n(1,2)] z by auto
  obtain t3 where t3: "read_sector ?b (int d) t2 = Some (0, t3)" "at s w1 (F - {x}) t3"
    using at_read_sector [OF t2(2) b(1,2) b0 d(1) refl] z by auto
  have "F - {x} \<noteq> {}" by (rule card_more [OF x(1), of 1]) (use assms(3) in simp)
  then obtain x2 t4 where x2: "need_sector FM t3 = Some (x2, t4)" "x2 \<in> F - {x}" "at s (w1(x2 := zero_block)) (F - {x} - {x2}) t4"
    using at_need [OF t3(2)] by blast
  have x2b: "x2 < cap s" "x2 \<notin> fp (vw s) 0" "x2 \<noteq> 0" "x2 \<noteq> n" using x2(2) F n(4) by auto
  have "i_double (w1(x2 := zero_block)) n = ?b" using z x2b(4) by (simp add: i_double_def)
  then obtain t5 where t5: "inode_get_double_ptr n t4 = Some (?b, t5)" "at s (w1(x2 := zero_block)) (F - {x} - {x2}) t5"
    using at_double [OF x2(3) n(1,2)] by auto
  define w2 where "w2 = setw (w1(x2 := zero_block)) ?b d x2"
  obtain t6 where t6: "write_sector ?b (int d) x2 t5 = Some t6" "at s w2 (F - {x} - {x2}) t6"
    using at_write_sector [OF t5(2) b(1,2) b0 d(1) refl] by (auto simp: w2_def)
  obtain t7 where t7: "write_sector x2 0 x t6 = Some t7" "at s (setw w2 x2 0 x) (F - {x} - {x2}) t7"
    using at_write_sector [OF t6(2) x2b(1-3), of 0 0] by auto
  have "grown (cap s) n m (fp (vw s) 0) w F (setw w2 x2 0 x) (F - {x} - {x2})"
    by (rule grow_ind_new [OF assms(2) F(1-4) x(1) x2(2) assms(4,6,5) F(5) at_length [OF assms(1) b(1,3)] _ w2_def [unfolded d_def] refl])
      (simp add: w1_def)
  then show ?thesis using x(3) t1(1) t2(1) t3(1) x2(1) t5(1) t6(1) t7 b0
    by (auto simp: install_rest_def)
qed

lemma install_ind_old:
  assumes "at s w F t" "tree w (cap s) n m F (fp (vw s) 0)" "F \<noteq> {}" "140 \<le> m" "m < MAX_BLOCKS" "(m - 140) mod 128 \<noteq> 0"
  shows "\<exists>w' F' t'. install_sector FM n (int m) t = Some t' \<and> at s w' F' t' \<and> grown (cap s) n m (fp (vw s) 0) w F w' F'"
proof -
  note F = at_sets [OF assms(1)]
  define d where "d = (m - 140) div 128"
  define r where "r = (m - 140) mod 128"
  have e: "140 + 128 * d + r = m" "r \<noteq> 0" "r < 128" using ind_index [OF assms(4)] assms(6) by (simp_all add: d_def r_def)
  then have d: "140 + 128 * d < m" "r < 128" "140 < m" by linarith+
  have d1: "d < 128" using assms(5) by (simp add: d_def MAX_BLOCKS_def)
  let ?b = "i_double w n" let ?g = "i_ind w n d"
  have M: "n \<in> meta w n m" "?b \<in> meta w n m" "?g \<in> meta w n m" using d by (auto simp: meta_def)
  have P: "y < cap s \<and> y \<notin> fp (vw s) 0 \<and> y \<notin> D0 s \<and> y \<notin> F" if "y \<in> meta w n m" for y
    using tree_meta [OF assms(2) that] at_facts(10) [OF assms(1)] by auto
  note n = P [OF M(1)] and b = P [OF M(2)] and g = P [OF M(3)]
  have g0: "?b \<noteq> 0" "?g \<noteq> 0" using assms(2) d by (simp_all add: tree_def ptrs_ok_def)
  obtain x u where x: "x \<in> F" "at s (w(x := zero_block)) (F - {x}) u" "install_sector FM n (int m) t = install_rest n d r x u"
    using install_double_start [OF assms(1,3-5), of n] by (auto simp: d_def r_def)
  define w1 where "w1 = w(x := zero_block)"
  have nx: "n \<noteq> x" "?b \<noteq> x" using n b x(1) by auto
  have z: "i_double w1 n = ?b" "word_at (w1 ?b) d = ?g" using nx by (simp_all add: i_double_def i_ind_def w1_def)
  obtain t1 where t1: "inode_get_double_ptr n u = Some (?b, t1)" "at s w1 (F - {x}) t1"
    using at_double [OF x(2), of n] n z by (auto simp: w1_def)
  obtain t2 where t2: "inode_get_double_ptr n t1 = Some (?b, t2)" "at s w1 (F - {x}) t2"
    using at_double [OF t1(2), of n] n z by auto
  obtain t3 where t3: "read_sector ?b (int d) t2 = Some (?g, t3)" "at s w1 (F - {x}) t3"
    using at_read_sector [OF t2(2) _ _ g0(1) d1 refl] b z by auto
  obtain t4 where t4: "write_sector ?g (int r) x t3 = Some t4" "at s (setw w1 ?g r x) (F - {x}) t4"
    using at_write_sector [OF t3(2) _ _ g0(2) d(2) refl] g by blast
  have L: "length (w ?g) = 512" using at_length [OF assms(1)] g by simp
  have "grown (cap s) n m (fp (vw s) 0) w F (setw w1 ?g r x) (F - {x})"
    by (rule grow_ind_old [OF assms(2) F(1-4) x(1) assms(4,6,5) F(5) _ L]) (simp_all add: w1_def d_def r_def)
  then show ?thesis using x(3) t1(1) t2(1) t3(1) t4 g0 by (auto simp: install_rest_def)
qed

end
