(* ===== verification/Inode_Append.thy ===== *)
theory Inode_Append
  imports Inode_Grow
begin

text \<open>
  \<open>inode_extend\<close>, \<open>inode_extend_to_bytes\<close> and writes beyond the end of a file: the file is padded with
  zeros and the data are stored in it, and no sector of another file changes.
\<close>

section \<open>Contents with the same block map\<close>

definition same_map :: "(nat \<Rightarrow> bytes) \<Rightarrow> (nat \<Rightarrow> bytes) \<Rightarrow> nat \<Rightarrow> nat \<Rightarrow> bool" where
  "same_map w w' n m \<longleftrightarrow> i_single w' n = i_single w n \<and> i_double w' n = i_double w n
     \<and> (140 < m \<longrightarrow> (\<forall>k. i_ind w' n k = i_ind w n k)) \<and> (\<forall>i < m. imap w' n i = imap w n i)"

lemma same_map_sets:
  assumes "same_map w w' n m"
  shows "meta w' n m = meta w n m" "data w' n m = data w n m"
proof -
  show "meta w' n m = meta w n m" using assms by (auto simp: same_map_def meta_def image_def)
  show "data w' n m = data w n m" unfolding data_def using assms by (intro image_cong) (simp_all add: same_map_def)
qed

lemma same_map_tree:
  assumes "same_map w w' n m" "tree w c n m F Z" "F' \<subseteq> F"
  shows "tree w' c n m F' Z"
proof -
  note S = same_map_sets [OF assms(1)]
  have e: "i_single w' n = i_single w n" "i_double w' n = i_double w n" "\<forall>i < m. imap w' n i = imap w n i"
    "\<And>k. 140 < m \<Longrightarrow> i_ind w' n k = i_ind w n k" using assms(1) by (auto simp: same_map_def)
  have t: "n < c" "ptrs_ok w c n m" "\<forall>i < m. 0 < imap w n i \<and> imap w n i < c" "separate w n m" "clean w n m"
    "meta_distinct w n m" "(meta w n m \<union> data w n m) \<inter> (F \<union> Z) = {}" using assms(2) by (simp_all add: tree_def)
  have k: "140 < m" if "140 + 128 * k < m" for k :: nat using that by linarith
  have "ptrs_ok w' c n m" using t(2) e k by (auto simp: ptrs_ok_def)
  moreover have "clean w' n m" using t(5) e by (auto simp: clean_def)
  moreover have "meta_distinct w' n m"
  proof -
    have "inj_on (i_ind w' n) {k. 140 + 128 * k < m} = inj_on (i_ind w n) {k. 140 + 128 * k < m}"
      using e(4) k by (intro inj_on_cong) blast
    then show ?thesis using t(6) e k unfolding meta_distinct_def by metis
  qed
  moreover have "separate w' n m"
  proof -
    have "inj_on (imap w' n) {..<m} = inj_on (imap w n) {..<m}" using e(3) by (intro inj_on_cong) simp
    then show ?thesis using t(4) S by (simp add: separate_def)
  qed
  ultimately show ?thesis using t S e(3) assms(3) by (auto simp: tree_def)
qed

lemma same_map_frame:
  assumes "\<forall>y \<in> meta w n m. w' y = w y"
  shows "same_map w w' n m"
proof -
  have "w' n = w n" using assms by simp
  then show ?thesis using imap_frame [OF assms] i_ind_frame [OF assms] by (simp add: same_map_def i_single_def i_double_def)
qed

lemma raw_same:
  assumes "same_map w w' n m" "\<forall>y \<in> data w n m. w' y = w y"
  shows "raw w' n m = raw w n m"
proof -
  have "map (\<lambda>i. w' (imap w' n i)) [0..<m] = map (\<lambda>i. w (imap w n i)) [0..<m]"
    using assms by (auto simp: same_map_def data_def)
  then show ?thesis unfolding raw_def by (rule arg_cong)
qed

text \<open>Storing the length, which is word 0 of the inode.\<close>

lemma set_length:
  assumes "tree w c n m F Z" "length (w n) = 512" "0 \<le> L" "L < 2 ^ 31" "w' = setw w n 0 (nat (L mod 2 ^ 32))"
  shows "same_map w w' n m" "i_len w' n = L" "\<forall>y. y \<noteq> n \<longrightarrow> w' y = w y"
proof -
  have x: "nat (L mod 2 ^ 32) < 2 ^ 32" "nat (L mod 2 ^ 32) = nat L" using assms(3,4) by auto
  show o: "\<forall>y. y \<noteq> n \<longrightarrow> w' y = w y" by (simp add: assms(5) setw_def)
  have w: "word_at (w' n) j = (if j = 0 then nat L else word_at (w n) j)" if "j < 128" for j
    using word_at_setw [of w n 0 j "nat (L mod 2 ^ 32)" n, OF assms(2) _ that] x unfolding assms(5) by simp
  show "i_len w' n = L" using w [of 0] assms(3,4) by (simp add: i_len_def wrap32_id in_int32_def)
  have e: "i_single w' n = i_single w n" "i_double w' n = i_double w n" using w by (simp_all add: i_single_def i_double_def)
  have d: "12 < m \<longrightarrow> i_single w n \<noteq> n" "140 < m \<longrightarrow> i_double w n \<noteq> n"
    "\<forall>k. 140 + 128 * k < m \<longrightarrow> i_ind w n k \<noteq> n" using assms(1) by (auto simp: tree_def meta_distinct_def)
  have i: "i_ind w' n k = i_ind w n k" if "140 < m" for k using that d(2) o e by (simp add: i_ind_def)
  have "imap w' n i = imap w n i" if "i < m" for i
  proof -
    have "140 + 128 * ((i - 140) div 128) < m" if "140 \<le> i"
      using ind_index [OF that] \<open>i < m\<close> by linarith
    moreover consider "i < 12" | "12 \<le> i" "i < 140" | "140 \<le> i" by linarith
    ultimately show ?thesis using w e d o i \<open>i < m\<close> by cases (auto simp: imap_def)
  qed
  then show "same_map w w' n m" using e i by (simp add: same_map_def)
qed

section \<open>Several more blocks\<close>

definition grown_by :: "nat \<Rightarrow> nat \<Rightarrow> nat \<Rightarrow> nat \<Rightarrow> nat set \<Rightarrow> (nat \<Rightarrow> bytes) \<Rightarrow> nat set \<Rightarrow> (nat \<Rightarrow> bytes) \<Rightarrow> nat set \<Rightarrow> bool" where
  "grown_by c n m k Z w F w' F' \<longleftrightarrow> tree w' c n (m + k) F' Z \<and> F' \<subseteq> F \<and> raw w' n (m + k) = raw w n m @ replicate (512 * k) 0
     \<and> i_len w' n = i_len w n \<and> meta w' n (m + k) \<union> data w' n (m + k) \<subseteq> meta w n m \<union> data w n m \<union> F
     \<and> (\<forall>y. y \<notin> F \<union> meta w n m \<longrightarrow> w' y = w y)"

lemma grown_raw:
  assumes "grown c n m Z w F w' F'"
  shows "raw w' n (m + 1) = raw w n m @ replicate 512 0" "data w' n (m + 1) \<subseteq> data w n m \<union> F"
proof -
  have e: "\<forall>i < m. imap w' n i = imap w n i \<and> w' (imap w n i) = w (imap w n i)" "w' (imap w' n m) = zero_block"
    "imap w' n m \<in> F" using assms by (simp_all add: grown_def)
  have "map (\<lambda>i. w' (imap w' n i)) [0..<m] = map (\<lambda>i. w (imap w n i)) [0..<m]" using e(1) by simp
  then have "concat (map (\<lambda>i. w' (imap w' n i)) [0..<m]) = raw w n m" unfolding raw_def by (rule arg_cong)
  then show "raw w' n (m + 1) = raw w n m @ replicate 512 0" using e(2) by (simp add: raw_def zero_block_def)
  show "data w' n (m + 1) \<subseteq> data w n m \<union> F" using e(1,3) by (auto simp: data_def less_Suc_eq)
qed

lemma grown_by_step:
  assumes "grown c n m Z w F w1 F1" "grown_by c n (m + 1) k Z w1 F1 w2 F2"
  shows "grown_by c n m (Suc k) Z w F w2 F2"
proof -
  have a: "F1 \<subseteq> F" "i_len w1 n = i_len w n" "meta w1 n (m + 1) \<subseteq> meta w n m \<union> F" "\<forall>y. y \<notin> F \<union> meta w n m \<longrightarrow> w1 y = w y"
    using assms(1) by (simp_all add: grown_def)
  have b: "tree w2 c n (m + Suc k) F2 Z" "F2 \<subseteq> F1" "raw w2 n (m + Suc k) = raw w1 n (m + 1) @ replicate (512 * k) 0"
    "i_len w2 n = i_len w1 n" "meta w2 n (m + Suc k) \<union> data w2 n (m + Suc k) \<subseteq> meta w1 n (m + 1) \<union> data w1 n (m + 1) \<union> F1"
    "\<forall>y. y \<notin> F1 \<union> meta w1 n (m + 1) \<longrightarrow> w2 y = w1 y"
    using assms(2) by (simp_all add: grown_by_def)
  have r: "raw w2 n (m + Suc k) = raw w n m @ replicate (512 * Suc k) 0"
    using b(3) grown_raw(1) [OF assms(1)] by (simp add: replicate_add [symmetric])
  have "meta w2 n (m + Suc k) \<union> data w2 n (m + Suc k) \<subseteq> meta w n m \<union> data w n m \<union> F"
    using b(5) a(1,3) grown_raw(2) [OF assms(1)] by blast
  moreover have "w2 y = w y" if "y \<notin> F \<union> meta w n m" for y using that a(1,3,4) b(6) by (metis UnE UnI1 UnI2 subset_iff)
  ultimately show ?thesis unfolding grown_by_def using b(1,2,4) a(1,2) r by auto
qed

lemma install_step:
  assumes "at s w F t" "tree w (cap s) n m F (fp (vw s) 0)" "3 \<le> card F" "m < MAX_BLOCKS"
  shows "\<exists>w' F' t'. install_sector FM n (int m) t = Some t' \<and> at s w' F' t' \<and> grown (cap s) n m (fp (vw s) 0) w F w' F'"
proof -
  have F: "F \<noteq> {}" using assms(3) by auto
  consider "m < 12" | "12 \<le> m" "m < 140" | "m = 140" | "140 < m" "(m - 140) mod 128 = 0" | "140 < m" "(m - 140) mod 128 \<noteq> 0"
    by linarith
  then show ?thesis
  proof cases
    case 1 then show ?thesis using install_direct [OF assms(1,2) F] by blast
  next
    case 2 then show ?thesis using install_single [OF assms(1-3)] by blast
  next
    case 3 then show ?thesis using install_double_new [OF assms(1) _ assms(3)] assms(2) by simp
  next
    case 4 then show ?thesis by (intro install_ind_new [OF assms(1-3) _ assms(4)])
  next
    case 5 then show ?thesis using install_ind_old [OF assms(1,2) F _ assms(4)] by simp
  qed
qed

lemma install_blocks:
  assumes "at s w F t" "tree w (cap s) n m F (fp (vw s) 0)" "3 * k \<le> card F" "m + k \<le> MAX_BLOCKS"
  shows "\<exists>w' F' t'. install_loop FM n m (m + k) t = Some t' \<and> at s w' F' t' \<and> grown_by (cap s) n m k (fp (vw s) 0) w F w' F'"
  using assms
proof (induction k arbitrary: w F t m)
  case 0
  then show ?case by (intro exI [of _ w] exI [of _ F] exI [of _ t]) (auto simp: install_loop.simps grown_by_def)
next
  case (Suc k)
  obtain w1 F1 t1 where 1: "install_sector FM n (int m) t = Some t1" "at s w1 F1 t1" "grown (cap s) n m (fp (vw s) 0) w F w1 F1"
    using install_step [OF Suc.prems(1,2)] Suc.prems(3,4) by auto
  have "tree w1 (cap s) n (m + 1) F1 (fp (vw s) 0)" "3 * k \<le> card F1" "m + 1 + k \<le> MAX_BLOCKS"
    using 1(3) Suc.prems(3,4) by (simp_all add: grown_def)
  then obtain w2 F2 t2 where 2: "install_loop FM n (m + 1) (m + 1 + k) t1 = Some t2" "at s w2 F2 t2"
    "grown_by (cap s) n (m + 1) k (fp (vw s) 0) w1 F1 w2 F2"
    using Suc.IH [OF 1(2)] by blast
  have w: "wrap32 (int m) = int m" using Suc.prems(4) by (intro wrap32_id) (simp add: in_int32_def MAX_BLOCKS_def)
  have "install_loop FM n m (m + Suc k) t = Some t2"
    by (subst install_loop.simps) (use 1(1) 2(1) w in simp)
  then show ?case using 2(2) grown_by_step [OF 1(3) 2(3)] by blast
qed

section \<open>Extending an inode\<close>

lemma at_len:
  "at s w F t \<Longrightarrow> n < cap s \<Longrightarrow> n \<notin> D0 s \<Longrightarrow> \<exists>u. inode_get_length n t = Some (i_len w n, u) \<and> at s w F u"
  using at_get32 [of s w F t n 0 0] by (auto simp: inode_get_length_def i_len_def)

lemma last_index:
  assumes "0 < len" "len < 512 * int MAX_BLOCKS"
  shows "bytes_to_sector_index (wrap32 (len - 1)) = blocks len - 1" "0 < blocks len" "blocks len \<le> MAX_BLOCKS"
proof -
  have w: "wrap32 (len - 1) = len - 1" using assms by (intro wrap32_id) (simp add: in_int32_def MAX_BLOCKS_def)
  have b: "blocks len = (nat len - 1) div 512 + 1"
  proof -
    have "nat len + 511 = (nat len - 1) + 512" using assms(1) by simp
    then show ?thesis unfolding blocks_def by (simp only: div_add_self2 [of "512::nat"])
  qed
  have "bytes_to_sector_index (len - 1) = nat (len - 1) div 512" using assms by (intro index_of_pos) (simp_all add: MAX_BLOCKS_def)
  moreover have "nat (len - 1) = nat len - 1" by simp
  ultimately show "bytes_to_sector_index (wrap32 (len - 1)) = blocks len - 1" using w b by simp
  show "0 < blocks len" using b by simp
  show "blocks len \<le> MAX_BLOCKS" using assms by (simp add: blocks_def MAX_BLOCKS_def)
qed

lemma blocks_zero [simp]: "blocks 0 = 0"
  by (simp add: blocks_def)

lemma extend_blocks:
  assumes "at s w F t" "tree w (cap s) n (blocks (i_len w n)) F (fp (vw s) 0)" "inodes s p = Some nd" "isector nd = n"
    "0 \<le> i_len w n" "i_len w n < 512 * int MAX_BLOCKS" "3 * k + 1 \<le> card F" "blocks (i_len w n) + k \<le> MAX_BLOCKS"
  shows "\<exists>w' F' t'. inode_extend FM p k t = Some (True, t') \<and> at s w' F' t'
    \<and> grown_by (cap s) n (blocks (i_len w n)) k (fp (vw s) 0) w F w' F'"
proof -
  let ?len = "i_len w n" and ?m = "blocks (i_len w n)"
  note tm = tree_meta [OF assms(2)]
  have n: "n < cap s" "n \<notin> fp (vw s) 0" "n \<notin> D0 s" using tm [OF meta_self] at_facts(10) [OF assms(1)] by auto
  obtain t1 where t1: "inode_get_length n t = Some (?len, t1)" "at s w F t1" using at_len [OF assms(1) n(1,3)] by blast
  obtain t2 where t2: "inode_get_length n t1 = Some (?len, t2)" "at s w F t2" using at_len [OF t1(2) n(1,3)] by blast
  obtain w1 F1 t3 where t3: "can_allocate FM k t2 = Some (k \<le> card F, t3)" "at s w1 F1 t3" "\<forall>y. y \<notin> F \<longrightarrow> w1 y = w y"
    "if k = 0 \<or> F = {} then F1 = F else (\<exists>x \<in> F. F1 = F - {x})"
    using at_can_allocate [OF t2(2), of k] by blast
  have F1: "F1 \<subseteq> F" "3 * k \<le> card F1"
    using t3(4) assms(7) at_sets(1) [OF assms(1)] by (auto simp: card_Diff_singleton split: if_splits)
  have mf: "meta w n ?m \<inter> F = {}" "data w n ?m \<inter> F = {}" using assms(2) by (auto simp: tree_def)
  have S: "same_map w w1 n ?m" using t3(3) mf(1) by (intro same_map_frame) blast
  have T1: "tree w1 (cap s) n ?m F1 (fp (vw s) 0)" by (rule same_map_tree [OF S assms(2) F1(1)])
  obtain w2 F2 t4 where t4: "install_loop FM n ?m (?m + k) t3 = Some t4" "at s w2 F2 t4"
    "grown_by (cap s) n ?m k (fp (vw s) 0) w1 F1 w2 F2"
    using install_blocks [OF t3(2) T1 F1(2) assms(8)] by blast
  have start: "(if ?len = 0 then 0 else sz (bytes_to_sector_index (wrap32 (?len - 1)) + 1)) = ?m" "sz (?m + k) = ?m + k"
    using last_index [of ?len] assms(5,6,8) by (auto simp: sz_def MAX_BLOCKS_def)
  have "inodes t p = Some nd" using assms(1,3) at_facts(5) by metis
  then have r: "inode_extend FM p k t = Some (True, t4)"
    using assms(4,7) t1(1) t2(1) t3(1) t4(1) start by (simp add: inode_extend_def Let_def)
  have raw1: "raw w1 n ?m = raw w n ?m" using t3(3) mf(2) by (intro raw_same [OF S]) blast
  have l1: "i_len w1 n = ?len" using t3(3) tm [OF meta_self] by (intro i_len_frame) simp
  have g: "tree w2 (cap s) n (?m + k) F2 (fp (vw s) 0)" "F2 \<subseteq> F1" "raw w2 n (?m + k) = raw w1 n ?m @ replicate (512 * k) 0"
    "i_len w2 n = i_len w1 n" "meta w2 n (?m + k) \<union> data w2 n (?m + k) \<subseteq> meta w1 n ?m \<union> data w1 n ?m \<union> F1"
    "\<forall>y. y \<notin> F1 \<union> meta w1 n ?m \<longrightarrow> w2 y = w1 y" using t4(3) by (simp_all add: grown_by_def)
  note M = same_map_sets [OF S]
  have "w2 y = w y" if "y \<notin> F \<union> meta w n ?m" for y
  proof -
    have "y \<notin> F1 \<union> meta w1 n ?m" "y \<notin> F" using that F1(1) M(1) by auto
    then show ?thesis using g(6) t3(3) by simp
  qed
  moreover have "F2 \<subseteq> F" using g(2) F1(1) by (rule subset_trans)
  moreover have "meta w2 n (?m + k) \<union> data w2 n (?m + k) \<subseteq> meta w n ?m \<union> data w n ?m \<union> F" using g(5) F1(1) M by auto
  ultimately have "grown_by (cap s) n ?m k (fp (vw s) 0) w F w2 F2"
    unfolding grown_by_def using g(1,3,4) raw1 l1 by simp
  then show ?thesis using r t4(2) by blast
qed

text \<open>An inode that owns its sectors, with zeros behind the end of the file.\<close>

definition good :: "(nat \<Rightarrow> bytes) \<Rightarrow> nat \<Rightarrow> nat \<Rightarrow> nat set \<Rightarrow> nat set \<Rightarrow> bool" where
  "good w c n F Z \<longleftrightarrow> 0 \<le> i_len w n \<and> i_len w n < 512 * int MAX_BLOCKS \<and> tree w c n (blocks (i_len w n)) F Z"

text \<open>The effect of extending an inode to length \<open>L\<close>: zero blocks are appended, only the inode's own
  structure and free sectors change.\<close>

definition extended :: "nat \<Rightarrow> nat \<Rightarrow> int \<Rightarrow> nat set \<Rightarrow> (nat \<Rightarrow> bytes) \<Rightarrow> nat set \<Rightarrow> (nat \<Rightarrow> bytes) \<Rightarrow> nat set \<Rightarrow> bool" where
  "extended c n L Z w F w' F' \<longleftrightarrow> good w' c n F' Z \<and> i_len w' n = L \<and> F' \<subseteq> F
     \<and> raw w' n (blocks L) = raw w n (blocks (i_len w n)) @ replicate (512 * (blocks L - blocks (i_len w n))) 0
     \<and> fp w' n \<subseteq> fp w n \<union> F \<and> (\<forall>y. y \<notin> F \<union> meta w n (blocks (i_len w n)) \<longrightarrow> w' y = w y)"

lemma at_set_length:
  assumes "at s w F t" "n < cap s" "n \<notin> fp (vw s) 0"
  shows "\<exists>u. inode_set_length n L t = Some u \<and> at s (setw w n 0 (nat (L mod 2 ^ 32))) F u"
  using at_setw [OF assms, of 0 0 "nat (L mod 2 ^ 32)"] by (simp add: inode_set_length_def)

lemma grown_extended:
  assumes "grown_by c n (blocks (i_len w n)) k Z w F w1 F1" "length (w1 n) = 512" "0 < L" "L < 512 * int MAX_BLOCKS"
    "blocks L = blocks (i_len w n) + k" "w' = setw w1 n 0 (nat (L mod 2 ^ 32))"
  shows "extended c n L Z w F w' F1"
proof -
  let ?m = "blocks (i_len w n)"
  have g: "tree w1 c n (?m + k) F1 Z" "F1 \<subseteq> F" "raw w1 n (?m + k) = raw w n ?m @ replicate (512 * k) 0"
    "meta w1 n (?m + k) \<union> data w1 n (?m + k) \<subseteq> meta w n ?m \<union> data w n ?m \<union> F" "\<forall>y. y \<notin> F \<union> meta w n ?m \<longrightarrow> w1 y = w y"
    using assms(1) by (simp_all add: grown_by_def)
  have L: "0 \<le> L" "L < 2 ^ 31" using assms(3,4) by (simp_all add: MAX_BLOCKS_def)
  note S = set_length [OF g(1) assms(2) L assms(6)]
  note M = same_map_sets [OF S(1)]
  have nd: "n \<notin> data w1 n (?m + k)" using g(1) by (auto simp: tree_def separate_def)
  have r: "raw w' n (?m + k) = raw w n ?m @ replicate (512 * k) 0"
    using raw_same [OF S(1)] S(3) nd g(3) by metis
  have "tree w' c n (?m + k) F1 Z" by (rule same_map_tree [OF S(1) g(1)]) simp
  moreover have "\<forall>y. y \<notin> F \<union> meta w n ?m \<longrightarrow> w' y = w y" using g(5) S(3) by (metis UnI2 meta_self)
  ultimately show ?thesis using S(2) L(1) assms(4,5) g(2,4) r M by (simp add: extended_def good_def fp_def)
qed

lemma extend_to_bytes:
  assumes "at s w F t" "good w (cap s) n F (fp (vw s) 0)" "inodes s p = Some nd" "isector nd = n"
    "0 < L" "L < 512 * int MAX_BLOCKS" "i_len w n \<le> L" "3 * (blocks L - blocks (i_len w n)) + 1 \<le> card F"
  shows "\<exists>w' F' t'. inode_extend_to_bytes FM p L t = Some (True, t') \<and> at s w' F' t' \<and> extended (cap s) n L (fp (vw s) 0) w F w' F'"
proof -
  let ?len = "i_len w n" and ?m = "blocks (i_len w n)" and ?k = "blocks L - blocks (i_len w n)"
  have T: "tree w (cap s) n ?m F (fp (vw s) 0)" "0 \<le> ?len" "?len < 512 * int MAX_BLOCKS" using assms(2) by (simp_all add: good_def)
  have n: "n < cap s" "n \<notin> fp (vw s) 0" "n \<notin> D0 s" using tree_meta [OF T(1) meta_self] at_facts(10) [OF assms(1)] by auto
  have ip: "inodes u p = Some nd" if "at s w0 F0 u" for w0 F0 u using that assms(3) at_facts(5) by metis
  have bm: "?m \<le> blocks L" using assms(7) by (simp add: blocks_def div_le_mono)
  note li = last_index [OF assms(5,6)]
  obtain t1 where t1: "inode_get_length n t = Some (?len, t1)" "at s w F t1" using at_len [OF assms(1) n(1,3)] by blast
  obtain t2 where t2: "inode_get_length n t1 = Some (?len, t2)" "at s w F t2" using at_len [OF t1(2) n(1,3)] by blast
  have fin: "extended (cap s) n L (fp (vw s) 0) w F (setw w1 n 0 (nat (L mod 2 ^ 32))) F1"
    if "at s w1 F1 u" "grown_by (cap s) n ?m ?k (fp (vw s) 0) w F w1 F1" for w1 F1 u
    by (rule grown_extended [OF that(2) at_length [OF that(1) n(1,3)] assms(5,6) le_add_diff_inverse [OF bm, symmetric] refl])
  have main: ?thesis if "inode_extend_to_bytes FM p L t = do {
       (ok, s) \<leftarrow> inode_extend FM p ?k t2;
       if ok then do { s \<leftarrow> inode_set_length (isector nd) L s; Some (True, s) } else Some (False, s) }"
  proof -
    obtain w1 F1 t3 where t3: "inode_extend FM p ?k t2 = Some (True, t3)" "at s w1 F1 t3" "grown_by (cap s) n ?m ?k (fp (vw s) 0) w F w1 F1"
      using extend_blocks [OF t2(2) T(1) assms(3,4) T(2,3) assms(8)] bm li(3) by auto
    obtain t4 where t4: "inode_set_length n L t3 = Some t4" "at s (setw w1 n 0 (nat (L mod 2 ^ 32))) F1 t4"
      using at_set_length [OF t3(2) n(1,2)] by blast
    then have "inode_extend_to_bytes FM p L t = Some (True, t4)" using that t3(1) assms(4) by simp
    then show ?thesis using t4(2) fin [OF t3(2,3)] by blast
  qed
  consider (zero) "?len = 0" | (inside) "0 < ?len" "blocks L \<le> ?m" | (more) "0 < ?len" "?m < blocks L" using T(2) by linarith
  then show ?thesis
  proof cases
    case zero
    have "sz (blocks L - 1 + 1) = ?k" using zero li(2,3) by (simp add: sz_def MAX_BLOCKS_def)
    then show ?thesis using ip [OF assms(1)] assms(4) t1(1) t2(1) li(1) zero by (intro main) (simp add: inode_extend_to_bytes_def Let_def)
  next
    case inside
    obtain t3 where t3: "inode_get_length n t2 = Some (?len, t3)" "at s w F t3" using at_len [OF t2(2) n(1,3)] by blast
    have k: "?k = 0" "blocks L = ?m" using inside bm by simp_all
    have g: "grown_by (cap s) n ?m ?k (fp (vw s) 0) w F w F" using T(1) k by (auto simp: grown_by_def)
    note li' = last_index [OF inside(1) T(3)]
    show ?thesis
    proof (cases "?len < L")
      case True
      obtain t4 where t4: "inode_set_length n L t3 = Some t4" "at s (setw w n 0 (nat (L mod 2 ^ 32))) F t4"
        using at_set_length [OF t3(2) n(1,2)] by blast
      then have "inode_extend_to_bytes FM p L t = Some (True, t4)"
        using ip [OF assms(1)] assms(4) t1(1) t2(1) t3(1) li(1) li'(1) k True inside by (simp add: inode_extend_to_bytes_def Let_def)
      then show ?thesis using t4(2) fin [OF t3(2) g] by blast
    next
      case False
      then have L: "?len = L" using assms(7) by simp
      have "inode_extend_to_bytes FM p L t = Some (True, t3)"
        using ip [OF assms(1)] assms(4) t1(1) t2(1) t3(1) li(1) L inside(1) by (simp add: inode_extend_to_bytes_def Let_def)
      moreover have "extended (cap s) n L (fp (vw s) 0) w F w F" using assms(2) L by (auto simp: extended_def)
      ultimately show ?thesis using t3(2) by blast
    qed
  next
    case more
    note li' = last_index [OF more(1) T(3)]
    have "\<not> blocks L - 1 \<le> ?m - 1" "blocks L - 1 - (?m - 1) = ?k" using more(2) li'(2) by simp_all
    then show ?thesis using ip [OF assms(1)] assms(4) t1(1) t2(1) li(1) li'(1) more(1) by (intro main) (simp add: inode_extend_to_bytes_def Let_def)
  qed
qed

section \<open>Writing\<close>

text \<open>A step that changes nothing in the footprint of the free map file.\<close>

lemma at_stored:
  assumes "at s w F t" "stored t v u" "\<forall>y \<in> fp (vw s) 0. v y = vw t y"
  shows "at s v F u"
proof -
  have I: "fm_inv t" "fp (vw t) 0 = fp (vw s) 0" using assms(1) by (simp_all add: at_def)
  let ?m = "blocks (i_len (vw t) 0)"
  note f = stored_fields [OF assms(2)]
  have S: "sep_inode (vw t) (cap t) 0" using I by (simp add: fm_inv_def fm_file_def)
  have e: "\<forall>y \<in> meta (vw t) 0 ?m \<union> data (vw t) 0 ?m. v y = vw t y" using assms(3) I(2) by (auto simp: fp_def)
  then have M: "\<forall>y \<in> meta (vw t) 0 ?m. v y = vw t y" by blast
  have S': "sep_inode v (cap t) 0" "i_len v 0 = i_len (vw t) 0" by (rule sep_inode_frame [OF S M])+
  have d: "fp v 0 = fp (vw t) 0" "data v 0 ?m = data (vw t) 0 ?m"
    using meta_frame [OF M] data_frame [OF M] S'(2) by (simp_all add: fp_def)
  have "fm_inv u" using I(1) f fm_file_stored [OF _ assms(2) S'] file_bytes_frame [OF S e] d(1)
    by (simp add: fm_inv_def used_def)
  then show ?thesis using assms(1) f d S'(2) same_rest_trans [OF _ stored_same_rest [OF assms(2)], of s]
    by (simp add: at_def D0_def Free_def used_def)
qed

lemma good_sep: "good w c n F Z \<Longrightarrow> sep_inode w c n"
  using blk_ok_iff [of "blocks (i_len w n)" w c n] by (auto simp: good_def tree_def sep_inode_def wf_inode_def)

lemma good_fp: "good w c n F Z \<Longrightarrow> fp w n \<inter> (F \<union> Z) = {}"
  by (simp add: good_def tree_def fp_def)

lemma good_frame:
  assumes "good w c n F Z" "\<forall>y \<in> meta w n (blocks (i_len w n)). w' y = w y"
  shows "good w' c n F Z" "i_len w' n = i_len w n" "fp w' n = fp w n"
    "\<forall>y \<in> data w n (blocks (i_len w n)). w' y = w y \<Longrightarrow> raw w' n (blocks (i_len w n)) = raw w n (blocks (i_len w n))"
proof -
  have S: "same_map w w' n (blocks (i_len w n))" by (rule same_map_frame [OF assms(2)])
  show l: "i_len w' n = i_len w n" using assms(2) by (intro i_len_frame) simp
  show "good w' c n F Z" using assms(1) l same_map_tree [OF S _ subset_refl, of c F Z] by (simp add: good_def)
  show "fp w' n = fp w n" using same_map_sets [OF S] l by (simp add: fp_def)
  show "raw w' n (blocks (i_len w n)) = raw w n (blocks (i_len w n))" if "\<forall>y \<in> data w n (blocks (i_len w n)). w' y = w y"
    by (rule raw_same [OF S that])
qed

text \<open>Bytes behind the end of the file are zero.\<close>

definition zero_tail :: "(nat \<Rightarrow> bytes) \<Rightarrow> nat \<Rightarrow> bool" where
  "zero_tail w n \<longleftrightarrow> (\<forall>b \<in> set (drop (nat (i_len w n)) (raw w n (blocks (i_len w n)))). b = 0)"

text \<open>The contents of the file after a write.\<close>

lemma padded_overlay:
  assumes "length r \<le> K" "l \<le> length r" "\<forall>b \<in> set (drop l r). b = 0" "l \<le> L" "L \<le> K" "j + z \<le> L" "z \<le> length buf"
  shows "take L (overlay (r @ replicate (K - length r) 0) j (j + z) buf) = overlay (take l r @ replicate (L - l) 0) j (j + z) buf"
    "\<forall>b \<in> set (drop L (overlay (r @ replicate (K - length r) 0) j (j + z) buf)). b = (0 :: byte)"
proof -
  define R where "R = r @ replicate (K - length r) 0"
  have d: "drop l r = replicate (length r - l) 0"
    using assms(3) by (intro nth_equalityI) (simp_all add: all_set_conv_all_nth)
  have R: "R = (take l r @ replicate (L - l) 0) @ replicate (K - L) 0"
  proof -
    have "R = take l r @ drop l r @ replicate (K - length r) 0" by (simp add: R_def)
    also have "\<dots> = take l r @ replicate (K - l) 0" using assms(1,2) d by (simp add: replicate_add [symmetric])
    also have "replicate (K - l) (0 :: byte) = replicate (L - l) 0 @ replicate (K - L) 0"
      using assms(4,5) by (simp add: replicate_add [symmetric])
    finally show ?thesis by simp
  qed
  define A where "A = take l r @ replicate (L - l) (0 :: byte)"
  have A: "length A = L" using assms(2,4) by (simp add: A_def)
  have o: "overlay R j (j + z) buf = overlay A j (j + z) buf @ replicate (K - L) 0"
    unfolding R A_def [symmetric] using A assms(6) by (simp add: overlay_def)
  have lo: "length (overlay A j (j + z) buf) = L" using A assms(6,7) by (simp add: overlay_def)
  show "take L (overlay (r @ replicate (K - length r) 0) j (j + z) buf) = overlay (take l r @ replicate (L - l) 0) j (j + z) buf"
    unfolding R_def [symmetric] A_def [symmetric] o using lo by simp
  show "\<forall>b \<in> set (drop L (overlay (r @ replicate (K - length r) 0) j (j + z) buf)). b = (0 :: byte)"
    unfolding R_def [symmetric] o using lo by simp
qed

lemma upd_inode_fields [simp]:
  "vw (upd_inode p n s) = vw s" "cap (upd_inode p n s) = cap s" "me (upd_inode p n s) = me s" "fs_ok (upd_inode p n s) = fs_ok s"
  "Free (upd_inode p n s) = Free s" "D0 (upd_inode p n s) = D0 s" "inodes (upd_inode p n s) = (inodes s)(p \<mapsto> n)"
  by (simp_all add: upd_inode_def vw_def cap_def me_def fs_ok_def Free_def used_def D0_def)

text \<open>The free map does not depend on the inodes of other files.\<close>

lemma fm_inv_upd:
  assumes "fm_inv s" "inodes s p = Some nd" "isector nd \<noteq> 0"
  shows "fm_inv (upd_inode p nd' s)"
proof -
  obtain f n0 where f: "files s (free_map_file s) = Some f" "open_ok s (f_inode f) n0" "isector n0 = 0" "deny_write_cnt n0 = 0"
    using assms(1) by (auto simp: fm_inv_def fm_file_def)
  then have "f_inode f \<noteq> p" using assms(2,3) by (auto simp: open_ok_def)
  then have "open_ok (upd_inode p nd' s) (f_inode f) n0" using f(2) by (simp add: open_ok_def)
  then have "\<exists>f n0. files (upd_inode p nd' s) (free_map_file (upd_inode p nd' s)) = Some f
      \<and> open_ok (upd_inode p nd' s) (f_inode f) n0 \<and> isector n0 = 0 \<and> deny_write_cnt n0 = 0"
    using f by (auto simp: upd_inode_def)
  moreover have "free_map (upd_inode p nd' s) = free_map s" "da_lock (upd_inode p nd' s) = da_lock s"
    "free_map_file (upd_inode p nd' s) = free_map_file s" "used (upd_inode p nd' s) = used s"
    by (simp_all add: upd_inode_def used_def fun_eq_iff)
  ultimately show ?thesis using assms(1) by (simp add: fm_inv_def fm_file_def)
qed

lemma extend_any:
  assumes "at s w F t" "good w (cap s) n F (fp (vw s) 0)" "inodes s p = Some nd" "isector nd = n"
    "0 < L" "L < 512 * int MAX_BLOCKS" "3 * (blocks L - blocks (i_len w n)) + 1 \<le> card F"
  shows "\<exists>w' F' t'. inode_extend_to_bytes FM p L t = Some (True, t') \<and> at s w' F' t'
    \<and> extended (cap s) n (max (i_len w n) L) (fp (vw s) 0) w F w' F'"
proof (cases "i_len w n \<le> L")
  case True
  then show ?thesis using extend_to_bytes [OF assms(1-6) True assms(7)] by (simp add: max_absorb2)
next
  case False
  note f = at_facts [OF assms(1)]
  have T: "tree w (cap s) n (blocks (i_len w n)) F (fp (vw s) 0)" using assms(2) by (simp add: good_def)
  have n: "n < cap s" "n \<notin> D0 s" using tree_meta [OF T meta_self] f(10) by auto
  then have l: "i_len (vw t) n = i_len w n" using f(8) by (intro i_len_frame) simp
  have "returns t (inode_extend_to_bytes FM p L t) True"
    using False assms(3-5) f(1,3,5) n l by (intro extend_inside [where nd = nd]) simp_all
  then obtain t' where "inode_extend_to_bytes FM p L t = Some (True, t')" "at s w F t'"
    using at_read [OF assms(1)] by (auto simp: returns_def)
  moreover have "extended (cap s) n (i_len w n) (fp (vw s) 0) w F w F" using assms(2) by (auto simp: extended_def)
  ultimately show ?thesis using False by (auto simp: max_absorb1)
qed

text \<open>The inode is locked while its bytes are written.\<close>

lemma write_extended:
  assumes "at s w F t" "good w (cap s) n F (fp (vw s) 0)" "inodes s p = Some nd" "isector nd = n" "p \<noteq> 0"
    "0 \<le> off" "0 < sze" "off + sze \<le> i_len w n" "nat sze \<le> length buf"
  shows "\<exists>v u. inode_write_loop p buf sze off t = Some (sze, u) \<and> at s v F u \<and> good v (cap s) n F (fp (vw s) 0) \<and> i_len v n = i_len w n
    \<and> raw v n (blocks (i_len w n)) = overlay (raw w n (blocks (i_len w n))) (nat off) (nat off + nat sze) buf
    \<and> fp v n = fp w n \<and> (\<forall>y. y \<notin> data w n (blocks (i_len w n)) \<union> D0 s \<longrightarrow> v y = w y)"
proof -
  note f = at_facts [OF assms(1)]
  let ?m = "blocks (i_len w n)"
  have D: "fp w n \<inter> fp (vw s) 0 = {}" using good_fp [OF assms(2)] by blast
  have e: "\<forall>y \<in> meta w n ?m \<union> data w n ?m. vw t y = w y" using f(8,10) D by (auto simp: fp_def)
  then have e1: "\<forall>y \<in> meta w n ?m. vw t y = w y" and e2: "\<forall>y \<in> data w n ?m. vw t y = w y" by blast+
  note g = good_frame [OF assms(2) e1]
  have r: "raw (vw t) n ?m = raw w n ?m" by (rule g(4) [OF e2])
  have d: "data (vw t) n ?m = data w n ?m" using e by (intro data_frame) blast
  have S: "sep_inode (vw t) (cap t) n" using good_sep [OF g(1)] f(3) by simp
  have b: "off < 512 * int MAX_BLOCKS" using assms(2,7,8) by (simp add: good_def)
  have ip: "inodes t p = Some nd" using f(5) assms(3) by simp
  have fit: "fits sze off (i_len (vw t) n) = nat sze" using assms(8) g(2) by (simp add: fits_def)
  obtain v u where v: "inode_write_loop p buf sze off t = Some (sze, u)" "stored t v u" "i_len v n = i_len w n"
    "raw v n ?m = overlay (raw w n ?m) (nat off) (nat off + nat sze) buf" "\<forall>x. x \<notin> data w n ?m \<longrightarrow> v x = vw t x"
    using inode_write_loop_spec [OF f(1) ip assms(4,5) S assms(6) b assms(9)] fit g(2) r assms(7) d by auto
  have "data w n ?m \<inter> fp (vw s) 0 = {}" using D by (auto simp: fp_def)
  then have a: "at s v F u" using v(5) by (intro at_stored [OF assms(1) v(2)]) blast
  have "separate (vw t) n ?m" using g(1,2) by (simp add: good_def tree_def)
  then have "\<forall>y \<in> meta (vw t) n ?m. v y = vw t y" using v(5) d by (auto simp: separate_def)
  then have "good v (cap s) n F (fp (vw s) 0)" "fp v n = fp w n" using good_frame(1,3) [OF g(1)] g(2,3) by simp_all
  moreover have "v y = w y" if "y \<notin> data w n ?m \<union> D0 s" for y using v(5) f(8) that by auto
  ultimately show ?thesis using v a by blast
qed

text \<open>A file of the file system: it owns its sectors, which are marked as used and are not those of the
  free map file, and the bytes behind its end are zero.\<close>

definition file_ok :: "fs \<Rightarrow> nat \<Rightarrow> bool" where
  "file_ok s n \<longleftrightarrow> good (vw s) (cap s) n (Free s) (fp (vw s) 0) \<and> zero_tail (vw s) n"

text \<open>Releasing the lock of the inode at the end.\<close>

lemma release_written:
  assumes "fm_inv s" "open_ok s p nd" "isector nd \<noteq> 0" "at (lock_inode p nd s) v F u"
  shows "\<exists>t. irel p u = Some t \<and> fm_inv t \<and> vw t = vw u \<and> cap t = cap s \<and> Free t = F \<and> inodes t = inodes s \<and> me t = me s
    \<and> fp (vw t) 0 = fp (vw s) 0 \<and> (\<forall>y. y \<notin> D0 s \<longrightarrow> vw t y = v y)"
proof -
  note f = at_facts [OF assms(4)]
  have D: "D0 (lock_inode p nd s) = D0 s" by (simp add: lock_inode_def)
  have nd: "nd\<lparr>inode_lock := None\<rparr> = nd" using assms(2) by (cases nd) (simp add: open_ok_def)
  have ip: "inodes u p = Some (nd\<lparr>inode_lock := Some (me s)\<rparr>)" "me u = me s" using f by simp_all
  then have r: "irel p u = Some (upd_inode p nd u)" by (simp add: irel_def lk_release_def nd)
  have "fm_inv (upd_inode p nd u)" using assms(3) by (intro fm_inv_upd [OF f(2) ip(1)]) simp
  moreover have "inodes (upd_inode p nd u) = inodes s"
    using f(5) assms(2) by (simp add: lock_inode_def open_ok_def fun_upd_idem)
  moreover have "Free u = F" "fp (vw u) 0 = fp (vw s) 0" using assms(4) by (simp_all add: at_def)
  ultimately show ?thesis using r f(3,8) ip(2) D by auto
qed

lemma inode_write_grow:
  assumes "fm_inv s" "open_ok s p nd" "isector nd = n" "deny_write_cnt nd = 0" "file_ok s n"
    "0 \<le> off" "0 < sze" "off + sze < 512 * int MAX_BLOCKS" "nat sze \<le> length buf"
    "3 * (blocks (off + sze) - blocks (i_len (vw s) n)) + 1 \<le> card (Free s)"
  shows "\<exists>t. inode_write_at FM p buf sze off s = Some (sze, t) \<and> fm_inv t \<and> file_ok t n \<and> inodes t = inodes s
    \<and> file_bytes (vw t) n = overlay (file_bytes (vw s) n @ replicate (nat (off + sze) - length (file_bytes (vw s) n)) 0)
        (nat off) (nat off + nat sze) buf
    \<and> (\<forall>y. y \<notin> fp (vw s) n \<union> Free s \<union> D0 s \<longrightarrow> vw t y = vw s y) \<and> Free t \<subseteq> Free s
    \<and> fp (vw t) n \<subseteq> fp (vw s) n \<union> Free s \<and> fp (vw t) 0 = fp (vw s) 0 \<and> cap t = cap s"
proof -
  define s1 where "s1 = lock_inode p nd s"
  define L where "L = max (i_len (vw s) n) (off + sze)"
  let ?len = "i_len (vw s) n" and ?Z = "fp (vw s) 0" and ?nd = "nd\<lparr>inode_lock := Some (me s)\<rparr>"
  let ?m = "blocks (i_len (vw s) n)"
  have G: "good (vw s) (cap s) n (Free s) ?Z" "zero_tail (vw s) n" using assms(5) by (simp_all add: file_ok_def)
  have e1: "vw s1 = vw s" "cap s1 = cap s" "Free s1 = Free s" "D0 s1 = D0 s" "inodes s1 p = Some ?nd" "p \<noteq> 0"
    using assms(2) by (simp_all add: s1_def lock_inode_def open_ok_def)
  have "n \<in> fp (vw s) n" "0 \<in> ?Z" by (simp_all add: fp_def)
  then have n0: "n \<noteq> 0" using good_fp [OF G(1)] by (cases "n = 0") auto
  have "fm_inv s1" using assms(1-3) n0 unfolding s1_def lock_inode_def by (intro fm_inv_upd [where nd = nd]) (auto simp: open_ok_def)
  then have a0: "at s1 (vw s) (Free s) s1" using at_refl [of s1] e1 by simp
  have g1: "good (vw s) (cap s1) n (Free s) (fp (vw s1) 0)" using G(1) e1 by simp
  have osz: "0 < off + sze" "wrap32 (off + sze) = off + sze"
    using assms(6-8) by (auto intro!: wrap32_id simp: in_int32_def MAX_BLOCKS_def)
  obtain w F t1 where t1: "inode_extend_to_bytes FM p (off + sze) s1 = Some (True, t1)" "at s1 w F t1"
    "extended (cap s1) n L (fp (vw s1) 0) (vw s) (Free s) w F"
    using extend_any [OF a0 g1 e1(5) _ osz(1) assms(8,10)] assms(3) by (auto simp: L_def)
  have x: "good w (cap s1) n F (fp (vw s1) 0)" "i_len w n = L" "F \<subseteq> Free s" "fp w n \<subseteq> fp (vw s) n \<union> Free s"
    "raw w n (blocks L) = raw (vw s) n ?m @ replicate (512 * (blocks L - ?m)) 0"
    "\<forall>y. y \<notin> Free s \<union> meta (vw s) n ?m \<longrightarrow> w y = vw s y"
    using t1(3) by (simp_all add: extended_def)
  have L1: "off + sze \<le> i_len w n" using x(2) by (simp add: L_def)
  obtain v t2 where t2: "inode_write_loop p buf sze off t1 = Some (sze, t2)" "at s1 v F t2" "good v (cap s1) n F (fp (vw s1) 0)" "i_len v n = L"
    "raw v n (blocks L) = overlay (raw w n (blocks L)) (nat off) (nat off + nat sze) buf"
    "\<forall>y. y \<notin> data w n (blocks L) \<union> D0 s1 \<longrightarrow> v y = w y" "fp v n = fp w n"
    using write_extended [OF t1(2) x(1) e1(5) _ e1(6) assms(6,7) L1 assms(9)] assms(3) x(2) by auto
  obtain t where t: "irel p t2 = Some t" "fm_inv t" "vw t = vw t2" "cap t = cap s" "Free t = F" "inodes t = inodes s"
    "fp (vw t) 0 = ?Z" "\<forall>y. y \<notin> D0 s \<longrightarrow> vw t y = v y"
    using release_written [OF assms(1,2) _ t2(2) [unfolded s1_def]] assms(3) n0 by auto
  have D: "D0 s \<subseteq> ?Z" using at_facts(10) [OF t2(2)] e1 by simp
  have res: "inode_write_at FM p buf sze off s = Some (sze, t)"
    using assms(2,4) at_facts(5) [OF t1(2)] e1(5,6) t1(1) t2(1) t(1)
    by (simp add: inode_write_at_def ilock_spec [OF assms(2)] s1_def [symmetric] osz(2))
  have dv: "fp v n \<inter> D0 s = {}" using good_fp [OF t2(3)] D e1 by auto
  have m2: "\<forall>y \<in> meta v n (blocks (i_len v n)). vw t y = v y" "\<forall>y \<in> data v n (blocks (i_len v n)). vw t y = v y"
    using dv t(8) by (auto simp: fp_def)
  note gt = good_frame [OF t2(3) m2(1)]
  have rt: "raw (vw t) n (blocks L) = overlay (raw (vw s) n ?m @ replicate (512 * blocks L - length (raw (vw s) n ?m)) 0) (nat off) (nat off + nat sze) buf"
    and lr: "length (raw (vw s) n ?m) = 512 * ?m"
  proof -
    have "\<forall>i < ?m. length (vw s (imap (vw s) n i)) = 512"
      using wf_block_length [of "vw s" "cap s" n] good_sep [OF G(1)] vw_full [of s] assms(1)
      by (simp add: sep_inode_def fm_inv_def fm_file_def)
    then show lr: "length (raw (vw s) n ?m) = 512 * ?m" by (rule length_raw)
    show "raw (vw t) n (blocks L) = overlay (raw (vw s) n ?m @ replicate (512 * blocks L - length (raw (vw s) n ?m)) 0) (nat off) (nat off + nat sze) buf"
      using gt(4) [OF m2(2)] t2(4,5) x(5) lr by (simp add: diff_mult_distrib2)
  qed
  have nn: "0 \<le> ?len" "0 \<le> L" using G(1) osz(1) by (auto simp: good_def L_def)
  have bL: "?m \<le> blocks L" by (simp add: L_def blocks_def div_le_mono)
  have lf: "file_bytes (vw s) n = take (nat ?len) (raw (vw s) n ?m)" "length (file_bytes (vw s) n) = nat ?len"
    using file_bytes_raw [of "vw s" n] blocks_bound [OF nn(1)] lr by simp_all
  have pre: "length (raw (vw s) n ?m) \<le> 512 * blocks L" "nat ?len \<le> length (raw (vw s) n ?m)"
    "\<forall>b \<in> set (drop (nat ?len) (raw (vw s) n ?m)). b = 0" "nat ?len \<le> nat L" "nat L \<le> 512 * blocks L"
    "nat off + nat sze \<le> nat L" "nat sze \<le> length buf"
    using lr bL blocks_bound [OF nn(1)] G(2) blocks_bound [OF nn(2)] assms(6,7,9) L1 x(2)
    by (auto simp: zero_tail_def L_def nat_le_iff)
  have P: "take (nat L) (raw (vw t) n (blocks L)) = overlay (take (nat ?len) (raw (vw s) n ?m) @ replicate (nat L - nat ?len) 0) (nat off) (nat off + nat sze) buf"
    "\<forall>b \<in> set (drop (nat L) (raw (vw t) n (blocks L))). b = 0"
    unfolding rt by (rule padded_overlay [OF pre])+
  have lt: "i_len (vw t) n = L" using gt(2) t2(4) by simp
  have "file_bytes (vw t) n = overlay (file_bytes (vw s) n @ replicate (nat (off + sze) - length (file_bytes (vw s) n)) 0) (nat off) (nat off + nat sze) buf"
  proof -
    have "nat L - nat ?len = nat (off + sze) - nat ?len" by (simp add: L_def max_def)
    then show ?thesis using P(1) lf file_bytes_raw [of "vw t" n] lt by simp
  qed
  moreover have "file_ok t n" using gt(1) P(2) lt t(4,5,7) e1 by (simp add: file_ok_def zero_tail_def)
  moreover have "vw t y = vw s y" if "y \<notin> fp (vw s) n \<union> Free s \<union> D0 s" for y
  proof -
    have "y \<notin> data w n (blocks L)" using that x(2,4) by (auto simp: fp_def)
    moreover have "y \<notin> meta (vw s) n ?m" using that by (simp add: fp_def)
    ultimately show ?thesis using that t(8) t2(6) x(6) e1(4) by simp
  qed
  moreover have "fp (vw t) n \<subseteq> fp (vw s) n \<union> Free s" using gt(3) t2(7) x(4) by simp
  ultimately show ?thesis using res t(2,4-7) x(3) by auto
qed

end
