(* ===== verification/File_Store.thy ===== *)
theory File_Store
  imports Inode_Append
begin

text \<open>
  The contract of a store of files, and that \<open>inode_read_at\<close> and \<open>inode_write_at\<close> on open inodes
  fulfil it: a set of files that own their sectors behaves as a set of independent byte sequences.
\<close>

section \<open>The contract\<close>

text \<open>A write at \<open>off\<close> pads the file with zeros up to its end and then replaces the bytes.\<close>

definition written :: "bytes \<Rightarrow> int \<Rightarrow> int \<Rightarrow> bytes \<Rightarrow> bytes" where
  "written old off n buf = overlay (old @ replicate (nat (off + n) - length old) 0) (nat off) (nat off + nat n) buf"

lemma written_slice:
  assumes "0 \<le> off" "0 \<le> n" "nat n \<le> length buf"
  shows "take (nat n) (drop (nat off) (written old off n buf)) = take (nat n) buf"
  using assms by (simp add: written_def overlay_def nat_add_distrib)

lemma length_written:
  assumes "0 \<le> off" "0 \<le> n" "nat n \<le> length buf"
  shows "length (written old off n buf) = max (length old) (nat (off + n))"
  using assms by (auto simp: written_def overlay_def nat_add_distrib max_def)

locale file_store =
  fixes inv :: "'s \<Rightarrow> bool" and content :: "'s \<Rightarrow> 'f \<Rightarrow> bytes" and names :: "'f set" and limit :: int
    and room :: "'s \<Rightarrow> 'f \<Rightarrow> int \<Rightarrow> bool"
    and rd :: "'f \<Rightarrow> int \<Rightarrow> int \<Rightarrow> 's \<Rightarrow> (bytes \<times> 's) option"
    and wr :: "'f \<Rightarrow> bytes \<Rightarrow> int \<Rightarrow> int \<Rightarrow> 's \<Rightarrow> (int \<times> 's) option"
  assumes rd_law: "inv s \<Longrightarrow> f \<in> names \<Longrightarrow> 0 \<le> off \<Longrightarrow> off < limit \<Longrightarrow>
      \<exists>t. rd f n off s = Some (take (nat n) (drop (nat off) (content s f)), t) \<and> inv t \<and> (\<forall>g \<in> names. content t g = content s g)"
    and wr_law: "inv s \<Longrightarrow> f \<in> names \<Longrightarrow> 0 \<le> off \<Longrightarrow> 0 < n \<Longrightarrow> off + n < limit \<Longrightarrow> nat n \<le> length buf \<Longrightarrow> room s f (off + n) \<Longrightarrow>
      \<exists>t. wr f buf n off s = Some (n, t) \<and> inv t \<and> content t f = written (content s f) off n buf
        \<and> (\<forall>g \<in> names. g \<noteq> f \<longrightarrow> content t g = content s g)"
begin

lemma rd_after_wr:
  assumes "inv s" "f \<in> names" "0 \<le> off" "0 < n" "off + n < limit" "nat n \<le> length buf" "room s f (off + n)"
  shows "\<exists>t u. wr f buf n off s = Some (n, t) \<and> rd f n off t = Some (take (nat n) buf, u) \<and> inv u"
proof -
  obtain t where t: "wr f buf n off s = Some (n, t)" "inv t" "content t f = written (content s f) off n buf"
    using wr_law [OF assms] by blast
  have "off < limit" using assms(4,5) by simp
  then obtain u where "rd f n off t = Some (take (nat n) (drop (nat off) (content t f)), u)" "inv u"
    using rd_law [OF t(2) assms(2,3)] by blast
  then show ?thesis using t(1,3) written_slice [OF assms(3) _ assms(6), of "content s f"] assms(4) by auto
qed

text \<open>What is read from a file does not depend on writes to other files.\<close>

lemma rd_other:
  assumes "inv s" "f \<in> names" "0 \<le> off" "0 < n" "off + n < limit" "nat n \<le> length buf" "room s f (off + n)"
    and "g \<in> names" "g \<noteq> f" "0 \<le> pos" "pos < limit"
  shows "\<exists>t b u u'. wr f buf n off s = Some (n, t) \<and> rd g k pos s = Some (b, u) \<and> rd g k pos t = Some (b, u')"
proof -
  obtain t where t: "wr f buf n off s = Some (n, t)" "inv t" "\<forall>g \<in> names. g \<noteq> f \<longrightarrow> content t g = content s g"
    using wr_law [OF assms(1-7)] by blast
  then have c: "content t g = content s g" using assms(8,9) by blast
  show ?thesis using t(1) rd_law [OF assms(1,8,10,11), of k] rd_law [OF t(2) assms(8,10,11), of k] c by auto
qed

end

section \<open>Open inodes are such a store\<close>

text \<open>The inodes of the sectors \<open>N\<close>: \<open>h n\<close> is the address of the open inode of sector \<open>n\<close>, \<open>nd n\<close> its
  contents. No sector belongs to two of them.\<close>

definition files_ok :: "nat set \<Rightarrow> (nat \<Rightarrow> nat) \<Rightarrow> (nat \<Rightarrow> inode) \<Rightarrow> fs \<Rightarrow> bool" where
  "files_ok N h nd s \<longleftrightarrow> fm_inv s \<and> (\<forall>n \<in> N. file_ok s n \<and> open_ok s (h n) (nd n) \<and> isector (nd n) = n \<and> deny_write_cnt (nd n) = 0)
     \<and> (\<forall>a \<in> N. \<forall>b \<in> N. a \<noteq> b \<longrightarrow> fp (vw s) a \<inter> fp (vw s) b = {})"

text \<open>Enough free sectors: three for each new block (data, indirect and doubly indirect block), and the one
  that \<open>can_allocate\<close> does not give back.\<close>

definition room_for :: "fs \<Rightarrow> nat \<Rightarrow> int \<Rightarrow> bool" where
  "room_for s n len \<longleftrightarrow> 3 * (blocks len - blocks (i_len (vw s) n)) + 1 \<le> card (Free s)"

lemma good_mono: "good w c n F Z \<Longrightarrow> F' \<subseteq> F \<Longrightarrow> good w c n F' Z"
  by (auto simp: good_def tree_def)

lemma file_ok_frame:
  assumes "file_ok s m" "\<forall>y \<in> fp (vw s) m. vw t y = vw s y" "Free t \<subseteq> Free s" "cap t = cap s" "fp (vw t) 0 = fp (vw s) 0"
  shows "file_ok t m" "fp (vw t) m = fp (vw s) m" "file_bytes (vw t) m = file_bytes (vw s) m"
proof -
  let ?k = "blocks (i_len (vw s) m)"
  have G: "good (vw s) (cap s) m (Free s) (fp (vw s) 0)" "zero_tail (vw s) m" using assms(1) by (simp_all add: file_ok_def)
  have M: "\<forall>y \<in> meta (vw s) m ?k. vw t y = vw s y" and D: "\<forall>y \<in> data (vw s) m ?k. vw t y = vw s y" using assms(2) by (auto simp: fp_def)
  note g = good_frame [OF G(1) M]
  have "good (vw t) (cap t) m (Free t) (fp (vw t) 0)"
    using good_mono [OF g(1) assms(3)] assms(4,5) by simp
  then show "file_ok t m" using G(2) g(2) g(4) [OF D] by (simp add: file_ok_def zero_tail_def)
  show "fp (vw t) m = fp (vw s) m" by (rule g(3))
  show "file_bytes (vw t) m = file_bytes (vw s) m" using g(2) g(4) [OF D] by (simp add: file_bytes_raw)
qed

lemma open_ok_inodes: "inodes t = inodes s \<Longrightarrow> open_ok t p nd = open_ok s p nd"
  by (simp add: open_ok_def)

lemma read_law:
  assumes "files_ok N h nd s" "n \<in> N" "0 \<le> off" "off < 512 * int MAX_BLOCKS"
  shows "\<exists>t. inode_read_at (h n) k off s = Some (take (nat k) (drop (nat off) (file_bytes (vw s) n)), t) \<and> files_ok N h nd t
    \<and> (\<forall>g \<in> N. file_bytes (vw t) g = file_bytes (vw s) g)"
proof -
  have I: "fm_inv s" "open_ok s (h n) (nd n)" "isector (nd n) = n" "file_ok s n" using assms(1,2) by (simp_all add: files_ok_def)
  have "fs_ok s" "wf_inode (vw s) (cap s) (isector (nd n))"
    using I good_sep [of "vw s" "cap s" n "Free s" "fp (vw s) 0"] by (simp_all add: fm_inv_def fm_file_def file_ok_def sep_inode_def)
  then have "returns s (inode_read_at (h n) k off s) (take (nat k) (drop (nat off) (file_bytes (vw s) n)))"
    using inode_read_at_spec [OF _ I(2) _ assms(3,4), of k] I(3) by simp
  then obtain t where t: "inode_read_at (h n) k off s = Some (take (nat k) (drop (nat off) (file_bytes (vw s) n)), t)" "stored s (vw s) t"
    by (auto simp: returns_def)
  note f = stored_fields [OF t(2)]
  have a: "at s (vw s) (Free s) t" by (rule at_read [OF at_refl [OF I(1)] t(2)])
  have "fm_inv t" "Free t = Free s" using a by (simp_all add: at_def)
  then have "files_ok N h nd t" using assms(1) f open_ok_inodes [of t s] by (simp add: files_ok_def file_ok_def)
  then show ?thesis using t(1) f by auto
qed

lemma write_law:
  assumes "files_ok N h nd s" "n \<in> N" "0 \<le> off" "0 < k" "off + k < 512 * int MAX_BLOCKS" "nat k \<le> length buf" "room_for s n (off + k)"
  shows "\<exists>t. inode_write_at FM (h n) buf k off s = Some (k, t) \<and> files_ok N h nd t
    \<and> file_bytes (vw t) n = written (file_bytes (vw s) n) off k buf
    \<and> (\<forall>g \<in> N. g \<noteq> n \<longrightarrow> file_bytes (vw t) g = file_bytes (vw s) g)"
proof -
  have I: "fm_inv s" "open_ok s (h n) (nd n)" "isector (nd n) = n" "deny_write_cnt (nd n) = 0" "file_ok s n"
    using assms(1,2) by (simp_all add: files_ok_def)
  obtain t where t: "inode_write_at FM (h n) buf k off s = Some (k, t)" "fm_inv t" "file_ok t n" "inodes t = inodes s"
    "file_bytes (vw t) n = written (file_bytes (vw s) n) off k buf"
    "\<forall>y. y \<notin> fp (vw s) n \<union> Free s \<union> D0 s \<longrightarrow> vw t y = vw s y" "Free t \<subseteq> Free s"
    "fp (vw t) n \<subseteq> fp (vw s) n \<union> Free s" "fp (vw t) 0 = fp (vw s) 0" "cap t = cap s"
    using inode_write_grow [OF I assms(3-6) assms(7) [unfolded room_for_def]] unfolding written_def by blast
  have D: "D0 s \<subseteq> fp (vw s) 0" by (auto simp: D0_def fp_def)
  have o: "file_ok t m \<and> fp (vw t) m = fp (vw s) m \<and> file_bytes (vw t) m = file_bytes (vw s) m \<and> fp (vw s) m \<inter> Free s = {}"
    if "m \<in> N" "m \<noteq> n" for m
  proof -
    have m: "file_ok s m" "fp (vw s) m \<inter> fp (vw s) n = {}" using assms(1,2) that by (auto simp: files_ok_def)
    have z: "fp (vw s) m \<inter> (Free s \<union> fp (vw s) 0) = {}" using m(1) by (intro good_fp [where c = "cap s"]) (simp add: file_ok_def)
    then have "\<forall>y \<in> fp (vw s) m. vw t y = vw s y" using m(2) D t(6) by blast
    then show ?thesis using file_ok_frame [OF m(1) _ t(7,10,9)] z by blast
  qed
  have "files_ok N h nd t" unfolding files_ok_def
  proof (intro conjI ballI impI)
    fix a b assume ab: "a \<in> N" "b \<in> N" "a \<noteq> b"
    have s: "fp (vw s) a \<inter> fp (vw s) b = {}" using assms(1) ab by (simp add: files_ok_def)
    show "fp (vw t) a \<inter> fp (vw t) b = {}"
      by (cases "a = n"; cases "b = n") (use s ab o t(8) in blast)+
  next
    fix m assume "m \<in> N"
    then show "file_ok t m" using o t(3) by (cases "m = n") auto
  qed (use assms(1) t(2) open_ok_inodes [OF t(4)] in \<open>simp_all add: files_ok_def\<close>)
  then show ?thesis using t(1,5) o by blast
qed

interpretation inode_store: file_store "files_ok N h nd" "\<lambda>s. file_bytes (vw s)" N "512 * int MAX_BLOCKS" room_for
    "\<lambda>n. inode_read_at (h n)" "\<lambda>n. inode_write_at FM (h n)" for N h nd
  by unfold_locales (rule read_law write_law, assumption+)+

end
