(* ===== verification/Filesys_Props.thy ===== *)
theory Filesys_Props
  imports File_Store
begin

text \<open>The properties of the file system, with a small device that shows that their hypotheses can hold.\<close>

section \<open>An example\<close>

text \<open>A device of 16 sectors: the inode of the free map in sector 0, the free map in sector 2, an empty
  file with its inode in sector 1 and one with its inode in sector 3.\<close>

definition ex_sectors :: "nat \<Rightarrow> bytes" where
  "ex_sectors x = (if x = 0 then le32 4 @ le32 0 @ le32 2 @ replicate 500 0
     else if x = 2 then le32 15 @ replicate 508 0 else zero_block)"

definition ex_part :: block where
  "ex_part = \<lparr>bname = ''hda2'', btype = BLOCK_FILESYS, bsize = 16, contents = ex_sectors, read_cnt = 0, write_cnt = 0\<rparr>"

definition ex_inode :: "nat \<Rightarrow> inode" where
  "ex_inode x = \<lparr>isector = x, open_cnt = 1, removed = False, deny_write_cnt = 0, imagic = INODE_MAGIC, inode_lock = None, inode_dir_lock = None\<rparr>"

definition ex_fs :: fs where
  "ex_fs = \<lparr>disk = init_buffer_cache (ex_io\<lparr>devs := \<lambda>_. ex_part\<rparr>), block_by_role = \<lambda>_. None, fs_device = 0,
     inodes = [1 \<mapsto> ex_inode 0, 2 \<mapsto> ex_inode 1, 3 \<mapsto> ex_inode 3],
     files = [1 \<mapsto> \<lparr>f_inode = 1, f_pos = 0, f_deny_write = False\<rparr>], dirs = Map.empty, next_addr = 4, open_inodes = [3, 2, 1],
     open_lock = None, free_map = \<lparr>bit_cnt = 16, bits = [15]\<rparr>, free_map_file = 1, da_lock = None, alloc_sectors = 0, cwd = 0, uninit = [],
     g_inodes_created = 0, g_inodes_freed = 0, g_file_calloc = 0, g_file_freed = 0, g_dir_calloc = 0, g_dir_freed = 0, g_filesys_malloc = 0\<rparr>"

lemma ex_length: "length (ex_sectors x) = 512"
  by (simp add: ex_sectors_def zero_block_def le32_def)

lemma ex_dev: "fs_ok ex_fs" "vw ex_fs = ex_sectors" "cap ex_fs = 16" "me ex_fs = 1"
  using init_cache_ok [of "ex_io\<lparr>devs := \<lambda>_. ex_part\<rparr>" 0] ex_length
  by (simp_all add: ex_fs_def fs_ok_def vw_def cap_def me_def ex_part_def ex_io_def init_buffer_cache_def)

lemma ex_words: "word_at (ex_sectors 0) 0 = 4" "word_at (ex_sectors 0) 2 = 2" "word_at (ex_sectors 1) 0 = 0" "word_at (ex_sectors 3) 0 = 0"
  "i_single ex_sectors 1 = 0" "i_double ex_sectors 1 = 0" "i_single ex_sectors 3 = 0" "i_double ex_sectors 3 = 0"
  by (simp_all add: word_at_def ex_sectors_def i_single_def i_double_def un_le32_def le32_def zero_block_def)

lemma ex_lens: "i_len ex_sectors 0 = 4" "i_len ex_sectors 1 = 0" "i_len ex_sectors 3 = 0" "imap ex_sectors 0 0 = 2"
  using ex_words by (simp_all add: i_len_def wrap32_def imap_def)

lemma blocks_4: "blocks 4 = 1"
  by (simp add: blocks_def)

lemma ex_fps: "fp ex_sectors 0 = {0, 2}" "fp ex_sectors 1 = {1}" "fp ex_sectors 3 = {3}"
  using ex_lens blocks_4 by (auto simp: fp_def meta_def data_def)

lemma ex_used: "x < 16 \<Longrightarrow> used ex_fs x \<longleftrightarrow> x < 4"
proof -
  assume x: "x < 16"
  have "bit (15 :: u32) x \<longleftrightarrow> x < 4"
  proof -
    have e: "(15 :: u32) = mask 4" by (simp add: mask_eq_exp_minus_1)
    show ?thesis unfolding e bit_mask_iff using x by (auto simp: possible_bit_word)
  qed
  then show ?thesis using x by (simp add: used_def getb_def ex_fs_def)
qed

lemma ex_free: "Free ex_fs = {4..<16}"
  using ex_used by (auto simp: Free_def ex_dev not_less)

lemma ex_fm_inv: "fm_inv ex_fs"
proof -
  have f: "files ex_fs (free_map_file ex_fs) = Some \<lparr>f_inode = 1, f_pos = 0, f_deny_write = False\<rparr>" "open_ok ex_fs 1 (ex_inode 0)"
    "free_map_file ex_fs = 1" "da_lock ex_fs = None" "free_map ex_fs = \<lparr>bit_cnt = 16, bits = [15]\<rparr>"
    by (simp_all add: ex_fs_def open_ok_def ex_inode_def)
  have bc: "byte_cnt 16 = 4" by (simp add: byte_cnt_def elem_cnt_def sz_def ELEM_BITS_def)
  have S: "sep_inode ex_sectors 16 0"
    using ex_lens blocks_4 by (simp add: sep_inode_def wf_inode_def separate_def blk_ok_def meta_def data_def MAX_BLOCKS_def lessThan_Suc)
  have "file_bytes ex_sectors 0 = bitmap_bytes \<lparr>bit_cnt = 16, bits = [15]\<rparr>"
    using ex_lens blocks_4 by (simp add: file_bytes_def bitmap_bytes_def) (simp add: ex_sectors_def le32_def)
  moreover have "\<forall>x \<in> fp ex_sectors 0. used ex_fs x" using ex_used by (simp add: ex_fps)
  moreover have "\<exists>f nd. files ex_fs 1 = Some f \<and> open_ok ex_fs (f_inode f) nd \<and> isector nd = 0 \<and> deny_write_cnt nd = 0"
    using f(1,2) unfolding f(3) by (intro exI [of _ "\<lparr>f_inode = 1, f_pos = 0, f_deny_write = False\<rparr>"] exI [of _ "ex_inode 0"])
      (simp add: ex_inode_def)
  ultimately show ?thesis unfolding fm_inv_def fm_file_def ex_dev f(3-5)
    using S bc ex_lens(1) ex_dev(1) by (simp add: bitmap_wf_def)
qed

lemma ex_tree:
  assumes "n = 1 \<or> n = 3"
  shows "file_ok ex_fs n"
proof -
  have "tree ex_sectors 16 n 0 {4..<16} {0, 2}"
    using assms ex_words by (auto simp: tree_def ptrs_ok_def separate_def clean_def meta_distinct_def meta_def data_def)
  then show ?thesis using assms ex_lens
    by (auto simp: file_ok_def good_def ex_dev ex_free ex_fps zero_tail_def raw_def MAX_BLOCKS_def)
qed

definition ex_handle :: "nat \<Rightarrow> nat" where "ex_handle n = (if n = 1 then 2 else 3)"

lemma ex_files_ok: "files_ok {1, 3} ex_handle ex_inode ex_fs"
proof -
  have "open_ok ex_fs (ex_handle n) (ex_inode n) \<and> isector (ex_inode n) = n \<and> deny_write_cnt (ex_inode n) = 0" if "n \<in> {1, 3}" for n
    using that by (auto simp: open_ok_def ex_fs_def ex_inode_def ex_handle_def)
  then show ?thesis unfolding files_ok_def using ex_fm_inv ex_tree by (simp add: ex_dev ex_fps [unfolded One_nat_def])
qed

lemma ex_room: "room_for ex_fs 1 5" "room_for ex_fs 1 3"
  using ex_lens by (simp_all add: room_for_def ex_dev ex_free blocks_def)

section \<open>Files\<close>

text \<open>C2. Open files that own their sectors behave as independent byte sequences. A write of \<open>k > 0\<close>
  bytes at \<open>off\<close> (within the largest file size, with enough free sectors) stores all of them, also when
  the file has to be extended by direct, indirect or doubly indirect blocks: the new contents are the old
  ones, padded with zeros up to the end of the write, with the bytes replaced. No other file changes, the
  block maps stay well-formed and disjoint, and the free map on disk stays equal to the one in memory.\<close>

theorem inode_write_at_files:
  assumes "files_ok N h nd s" "n \<in> N" "0 \<le> off" "0 < k" "off + k < 512 * int MAX_BLOCKS" "nat k \<le> length buf"
    "room_for s n (off + k)"
  shows "\<exists>t. inode_write_at FM (h n) buf k off s = Some (k, t) \<and> files_ok N h nd t
    \<and> file_bytes (vw t) n = written (file_bytes (vw s) n) off k buf
    \<and> (\<forall>g \<in> N. g \<noteq> n \<longrightarrow> file_bytes (vw t) g = file_bytes (vw s) g)"
  by (rule inode_store.wr_law [OF assms])

lemma ex_empty: "file_bytes ex_sectors 1 = []" "file_bytes ex_sectors 3 = []"
  using ex_lens by (simp_all add: file_bytes_def)

theorem inode_write_at_files_witness:
  "\<exists>t. inode_write_at FM 2 [7, 8, 9] 3 2 ex_fs = Some (3, t) \<and> file_bytes (vw t) 1 = [0, 0, 7, 8, 9] \<and> file_bytes (vw t) 3 = []"
proof -
  obtain t where t: "inode_write_at FM (ex_handle 1) [7, 8, 9] 3 2 ex_fs = Some (3, t)"
    "file_bytes (vw t) 1 = written (file_bytes (vw ex_fs) 1) 2 3 [7, 8, 9]" "file_bytes (vw t) 3 = file_bytes (vw ex_fs) 3"
    using inode_write_at_files [OF ex_files_ok, of 1 2 3 "[7, 8, 9]"] ex_room by (auto simp: MAX_BLOCKS_def)
  have "written [] 2 3 [7, 8, 9] = [0, 0, 7, 8, 9]" "ex_handle 1 = 2"
    by (simp_all add: written_def overlay_def numeral_eq_Suc ex_handle_def)
  then show ?thesis using t unfolding ex_dev ex_empty by auto
qed

text \<open>C3. What is written to a file is read back from it.\<close>

theorem inode_write_read:
  assumes "files_ok N h nd s" "n \<in> N" "0 \<le> off" "0 < k" "off + k < 512 * int MAX_BLOCKS" "nat k \<le> length buf"
    "room_for s n (off + k)"
  shows "\<exists>t u. inode_write_at FM (h n) buf k off s = Some (k, t) \<and> inode_read_at (h n) k off t = Some (take (nat k) buf, u)
    \<and> files_ok N h nd u"
  by (rule inode_store.rd_after_wr [OF assms])

theorem inode_write_read_witness:
  "\<exists>t u. inode_write_at FM 2 [7, 8, 9] 3 2 ex_fs = Some (3, t) \<and> inode_read_at 2 3 2 t = Some ([7, 8, 9], u)"
proof -
  obtain t u where "inode_write_at FM (ex_handle 1) [7, 8, 9] 3 2 ex_fs = Some (3, t)"
    "inode_read_at (ex_handle 1) 3 2 t = Some (take (nat 3) [7, 8, 9], u)"
    using inode_write_read [OF ex_files_ok, of 1 2 3 "[7, 8, 9]"] ex_room by (auto simp: MAX_BLOCKS_def)
  then show ?thesis by (auto simp: ex_handle_def numeral_eq_Suc)
qed

text \<open>C11. Reading a well-formed inode returns the bytes of the file from \<open>off\<close> on, at most \<open>sze\<close> of them
  and none behind the end of the file, for every size and every offset below the largest file size, and
  changes nothing but the cache.\<close>

theorem inode_read_at_correct:
  assumes "fs_ok s" "open_ok s p nd" "wf_inode (vw s) (cap s) (isector nd)" "0 \<le> off" "off < 512 * int MAX_BLOCKS"
  shows "\<exists>t. inode_read_at p sze off s = Some (take (nat sze) (drop (nat off) (file_bytes (vw s) (isector nd))), t)
    \<and> stored s (vw s) t"
  using inode_read_at_spec [OF assms] by (simp add: returns_def)

theorem inode_read_at_correct_witness:
  "\<exists>t. inode_read_at 1 10 0 ex_fs = Some ([15, 0, 0, 0], t)"
proof -
  have "open_ok ex_fs 1 (ex_inode 0)" "isector (ex_inode 0) = 0" "wf_inode ex_sectors 16 0"
    using ex_fm_inv by (simp_all add: open_ok_def ex_fs_def ex_inode_def, simp add: fm_inv_def fm_file_def sep_inode_def ex_dev)
  moreover have "file_bytes ex_sectors 0 = [15, 0, 0, 0]"
    using ex_lens blocks_4 by (simp add: file_bytes_def) (simp add: ex_sectors_def le32_def)
  ultimately show ?thesis using inode_read_at_correct [OF ex_dev(1), of 1 "ex_inode 0" 0 10]
    by (auto simp: ex_dev MAX_BLOCKS_def)
qed

text \<open>C17. Error path: the range of the block index is asserted before the length of the file is compared.
  A read of a positive number of bytes at an offset of 8460288 or more, which a program reaches by seeking,
  stops the kernel instead of returning no bytes.\<close>

theorem inode_read_at_far_panics:
  assumes "0 < sze" "8460288 \<le> off" "off < 2 ^ 31"
  shows "inode_read_at p sze off s = None"
  using assms by (intro inode_read_at_far) (simp_all add: MAX_BLOCKS_def)

theorem inode_read_at_far_panics_witness: "inode_read_at 2 1 8460288 ex_fs = None"
  using inode_read_at_far_panics [of 1 8460288] by simp

section \<open>The free map\<close>

text \<open>C12. \<open>free_map_allocate\<close> returns the first group of free sectors of the requested size, marks exactly
  these as used and writes the free map to its file; if there is no such group it reports failure and
  changes no bit. In both cases only the data sectors of the free map file change on the device, and the
  map in the file remains equal to the map in memory (a part of \<open>fm_inv\<close>).\<close>

theorem free_map_allocate_correct:
  assumes "fm_inv s"
  shows "\<exists>r t. free_map_allocate cnt s = Some (r, t) \<and> fm_inv t \<and> (\<forall>y. y \<notin> D0 s \<longrightarrow> vw t y = vw s y)
    \<and> (case r of
         Some x \<Rightarrow> first_group (free_map s) cnt False 0 x \<and> (\<forall>y < cap s. used t y \<longleftrightarrow> used s y \<or> x \<le> y \<and> y < x + cnt)
       | None \<Rightarrow> (\<forall>k. \<not> bit_group (free_map s) cnt False k) \<and> (\<forall>y < cap s. used t y \<longleftrightarrow> used s y))"
  using free_map_allocate_spec [OF assms, of cnt]
proof (elim disjE exE conjE)
  fix x t assume "free_map_allocate cnt s = Some (Some x, t)" "first_group (free_map s) cnt False 0 x"
    "fm_step s (\<lambda>y. used s y \<or> x \<le> y \<and> y < x + cnt) t"
  then show ?thesis by (intro exI [of _ "Some x"] exI [of _ t]) (simp add: fm_step_def D0_def)
next
  fix t assume "free_map_allocate cnt s = Some (None, t)" "\<forall>k. \<not> bit_group (free_map s) cnt False k" "fm_step s (used s) t"
  then show ?thesis by (intro exI [of _ None] exI [of _ t]) (simp add: fm_step_def D0_def)
qed

theorem free_map_allocate_correct_witness:
  "\<exists>t. free_map_allocate 2 ex_fs = Some (Some 4, t) \<and> fm_inv t \<and> used t 4 \<and> used t 5 \<and> \<not> used t 6"
proof -
  have fm: "free_map ex_fs = \<lparr>bit_cnt = 16, bits = [15]\<rparr>" by (simp add: ex_fs_def)
  have g: "getb (free_map ex_fs) y = (y < 4)" if "y < 16" for y using ex_used [OF that] by (simp add: used_def)
  have b: "bit_group (free_map ex_fs) 2 False 4" unfolding bit_group_def using g by (auto simp: fm)
  have x: "x = 4" if "first_group (free_map ex_fs) 2 False 0 x" for x
  proof (rule linorder_cases [of x 4])
    assume "x < 4"
    then show ?thesis using that g [of x] by (auto simp: first_group_def bit_group_def)
  next
    assume "4 < x"
    then show ?thesis using that b by (auto simp: first_group_def)
  qed
  obtain r t where t: "free_map_allocate 2 ex_fs = Some (r, t)" "fm_inv t"
    "case r of Some x \<Rightarrow> first_group (free_map ex_fs) 2 False 0 x \<and> (\<forall>y < 16. used t y \<longleftrightarrow> used ex_fs y \<or> x \<le> y \<and> y < x + 2)
       | None \<Rightarrow> (\<forall>k. \<not> bit_group (free_map ex_fs) 2 False k) \<and> (\<forall>y < 16. used t y \<longleftrightarrow> used ex_fs y)"
    using free_map_allocate_correct [OF ex_fm_inv, of 2] unfolding ex_dev by blast
  show ?thesis
  proof (cases r)
    case None then show ?thesis using t(3) b by auto
  next
    case (Some z) then show ?thesis using t x [of z] ex_used by simp
  qed
qed

text \<open>C13. Releasing what was allocated gives back the free map before, in memory and on the device.\<close>

theorem free_map_release_undoes_allocate:
  assumes "fm_inv s" "free_map_allocate cnt s = Some (Some x, t)"
  shows "\<exists>u. free_map_release x cnt t = Some u \<and> fm_inv u \<and> (\<forall>y < cap s. used u y \<longleftrightarrow> used s y)
    \<and> (\<forall>y. y \<notin> D0 s \<longrightarrow> vw u y = vw s y)"
proof -
  have a: "first_group (free_map s) cnt False 0 x" "fm_step s (\<lambda>y. used s y \<or> x \<le> y \<and> y < x + cnt) t"
    using free_map_allocate_spec [OF assms(1), of cnt] assms(2) by auto
  have s: "bit_cnt (free_map s) = cap s" "\<forall>y \<in> fp (vw s) 0. used s y" using assms(1) by (simp_all add: fm_inv_def)
  have g: "x + cnt \<le> cap s" "\<forall>y. x \<le> y \<and> y < x + cnt \<longrightarrow> \<not> used s y"
    using a(1) s(1) by (simp_all add: first_group_def bit_group_def used_def)
  have t: "fm_inv t" "cap t = cap s" "\<forall>y < cap s. used t y \<longleftrightarrow> used s y \<or> x \<le> y \<and> y < x + cnt" "fp (vw t) 0 = fp (vw s) 0"
    "\<forall>y. y \<notin> D0 s \<longrightarrow> vw t y = vw s y"
    using a(2) same_rest_fields [of s t] by (simp_all add: fm_step_def D0_def)
  have p: "\<forall>y. x \<le> y \<and> y < x + cnt \<longrightarrow> used t y \<and> y \<notin> fp (vw t) 0" using g t(3,4) s(2) by auto
  obtain u where u: "free_map_release x cnt t = Some u" "fm_step t (\<lambda>y. used t y \<and> \<not> (x \<le> y \<and> y < x + cnt)) u"
    using free_map_release_spec [OF t(1) _ p] g(1) t(2) by auto
  have D: "D0 t = D0 s"
  proof -
    have "sep_inode (vw s) (cap s) 0" using assms(1) by (simp add: fm_inv_def fm_file_def)
    from fp_frame(2,3) [OF this, of "vw t"] t(5) show ?thesis by (simp add: D0_def)
  qed
  have f: "fm_inv u" "\<forall>y < cap s. used u y \<longleftrightarrow> used t y \<and> \<not> (x \<le> y \<and> y < x + cnt)" "\<forall>y. y \<notin> D0 s \<longrightarrow> vw u y = vw t y"
    using u(2) t(2) D by (simp_all add: fm_step_def D0_def)
  have "used u y \<longleftrightarrow> used s y" if "y < cap s" for y using f(2) t(3) g(2) that by auto
  then show ?thesis using u(1) f(1,3) t(5) by auto
qed

theorem free_map_release_undoes_allocate_witness:
  "\<exists>x t u. free_map_allocate 3 ex_fs = Some (Some x, t) \<and> free_map_release x 3 t = Some u \<and> \<not> used u 4"
proof -
  have "bit_group (free_map ex_fs) 3 False 4"
    using ex_used by (auto simp: bit_group_def used_def) (simp add: ex_fs_def)
  then obtain x t where x: "free_map_allocate 3 ex_fs = Some (Some x, t)"
    using free_map_allocate_spec [OF ex_fm_inv, of 3] by blast
  then show ?thesis using free_map_release_undoes_allocate [OF ex_fm_inv x] ex_used by (auto simp: ex_dev)
qed

text \<open>C16. \<open>can_allocate\<close> answers correctly whether \<open>num\<close> more sectors are free, but its loops stop before
  the first sector it allocated: whenever it has got a sector, one free sector is lost.\<close>

theorem can_allocate_loses_a_sector:
  assumes "fm_inv s" "0 < num" "Free s \<noteq> {}"
  shows "\<exists>t x. can_allocate FM num s = Some (num \<le> card (Free s), t) \<and> fm_inv t \<and> x \<in> Free s \<and> Free t = Free s - {x}"
proof -
  obtain w F t where t: "can_allocate FM num s = Some (num \<le> card (Free s), t)" "at s w F t"
    "if num = 0 \<or> Free s = {} then F = Free s else (\<exists>x \<in> Free s. F = Free s - {x})"
    using at_can_allocate [OF at_refl [OF assms(1)], of num] by blast
  then have "Free t = F" "fm_inv t" by (simp_all add: at_def)
  then show ?thesis using t(1,3) assms(2,3) by auto
qed

theorem can_allocate_loses_a_sector_witness:
  "\<exists>t. can_allocate FM 2 ex_fs = Some (True, t) \<and> card (Free t) = 11"
proof -
  obtain t x where "can_allocate FM 2 ex_fs = Some (2 \<le> card (Free ex_fs), t)" "x \<in> Free ex_fs" "Free t = Free ex_fs - {x}"
    using can_allocate_loses_a_sector [OF ex_fm_inv, of 2] by (auto simp: ex_free)
  then show ?thesis by (auto simp: ex_free card_Diff_singleton)
qed

section \<open>Formatting\<close>

text \<open>Before the free map file is open, \<open>free_map_release\<close> writes to the null file.\<close>

definition unopened :: "fs \<Rightarrow> bool" where
  "unopened s \<longleftrightarrow> free_map_file s = 0 \<and> files s 0 = None"

lemma release_unopened: "unopened s \<Longrightarrow> fm_release FM x cnt s = None"
  by (auto simp: unopened_def FM_def free_map_release_def fm_lock_def bitmap_write_def file_write_at_def bind_eq_None_conv Let_def
      split: option.splits)

lemma fs_write_unopened: "fs_write x b i j s = Some t \<Longrightarrow> unopened s \<Longrightarrow> unopened t"
  by (auto simp: fs_write_def unopened_def split: Option.bind_splits if_splits)

lemma allocate_unopened: "free_map_allocate cnt s = Some (r, t) \<Longrightarrow> unopened s \<Longrightarrow> unopened t"
  by (auto simp: free_map_allocate_def unopened_def fm_lock_def fm_rel_def Let_def split: Option.bind_splits if_splits)

lemma get_sector_unopened: "get_sector FM s = Some (r, t) \<Longrightarrow> unopened s \<Longrightarrow> unopened t"
  using allocate_unopened [of "Suc 0" s] fs_write_unopened
  by (fastforce simp: get_sector_def FM_def split: Option.bind_splits option.splits)

lemma can_allocate_unopened:
  assumes "unopened s" "2 \<le> num"
  shows "can_allocate_loop FM num secs s \<noteq> Some (True, t)"
  using assms
proof (induction FM num secs s arbitrary: t rule: can_allocate_loop.induct)
  case (1 num secs s)
  show ?case
  proof (cases "length secs < num")
    case True
    show ?thesis
    proof
      assume a: "can_allocate_loop FM num secs s = Some (True, t)"
      then obtain x u where u: "get_sector FM s = Some (Some x, u)" "can_allocate_loop FM num (secs @ [x]) u = Some (True, t)"
        using True by (subst (asm) can_allocate_loop.simps) (auto split: Option.bind_splits option.splits)
      then show False using 1(1) [OF True u(1)] 1(2,3) get_sector_unopened [OF u(1)] by auto
    qed
  next
    case False
    then have "rev (tl secs) \<noteq> []" using 1(3) by (cases secs) auto
    then obtain y ys where "rev (tl secs) = y # ys" by (cases "rev (tl secs)") auto
    then have "release_loop FM (rev (tl secs)) s = None" using release_unopened [OF 1(2)] by simp
    then show ?thesis using False by (subst can_allocate_loop.simps) simp
  qed
qed

text \<open>C15. Error path: formatting stops the kernel on every device of more than 4096 sectors. The free map
  file then has more than one block, and \<open>can_allocate\<close> releases sectors while the free map file is not
  open yet.\<close>

theorem filesys_init_format_large_panics:
  assumes "block_by_role s BLOCK_FILESYS = Some dev" "4096 < bsize (devs (disk s) dev)" "bsize (devs (disk s) dev) < 2 ^ 31"
    "free_map_file s = 0" "files s 0 = None" "length mem = elem_cnt (bsize (devs (disk s) dev))"
  shows "filesys_init mem True s = None"
proof -
  let ?n = "bsize (devs (disk s) dev)"
  have "free_map_create t = None" if "unopened t" "bit_cnt (free_map t) = ?n" for t
  proof -
    define len where "len = wrap32 (int (byte_cnt ?n))"
    have "byte_cnt ?n = 4 * ((?n + 31) div 32)" using assms(3) by (simp add: byte_cnt_def elem_cnt_def sz_def ELEM_BITS_def)
    then have len: "len = int (4 * ((?n + 31) div 32))" "512 < len" "len < 2 ^ 30"
      using assms(2,3) by (auto simp: len_def wrap32_id in_int32_def)
    then have "2 \<le> bytes_to_sectors len"
    proof -
      have "len + 512 - 1 = len + 511" "wrap32 (len + 511) = len + 511" using len(2,3) by (simp_all add: wrap32_id in_int32_def)
      moreover have "(len + 511) sdiv 512 = (len + 511) div 512" using len(2) by (simp add: signed_divide_int_def sgn_if)
      moreover have "2 \<le> (len + 511) div 512" "(len + 511) div 512 < 2 ^ 32" using len(2,3) by simp_all
      ultimately show ?thesis unfolding bytes_to_sectors_def by (simp only:) simp
    qed
    then have "\<not> (\<exists>u. can_allocate FM (bytes_to_sectors len) t = Some (True, u))"
      using can_allocate_unopened [OF that(1)] by (simp add: can_allocate_def)
    then have "\<not> (\<exists>u. inode_create FM FREE_MAP_SECTOR len t = Some (True, u))"
      by (cases "can_allocate FM (bytes_to_sectors len) t")
        (auto simp: inode_create_def inode_create_wild_def Let_def split: if_splits)
    then show ?thesis using that(2)
      by (cases "inode_create FM FREE_MAP_SECTOR len t") (auto simp: free_map_create_def bitmap_file_size_def len_def [symmetric])
  qed
  then have F: "do_format t = None" if "unopened t" "bit_cnt (free_map t) = ?n" for t using that by (simp add: do_format_def)
  obtain b where b: "bitmap_create True (Some mem) ?n = Some (Some b)" "bit_cnt b = ?n"
    using bitmap_create_spec [OF _ assms(6)] assms(3) by auto
  have "bit_cnt c' = bit_cnt c" if "bitmap_mark c i = Some c'" for c c' i
    using that by (auto simp: bitmap_mark_def split: Option.bind_splits)
  then show ?thesis using assms(1,4,5) b F
    by (auto simp: filesys_init_def inode_init_def free_map_init_def block_size_def unopened_def bind_eq_None_conv Let_def
        split: Option.bind_splits)
qed

definition ex_boot :: fs where
  "ex_boot = ex_fs\<lparr>disk := ex_io\<lparr>devs := \<lambda>_. ex_part\<lparr>bsize := 8192\<rparr>\<rparr>, block_by_role := \<lambda>_. Some 0, free_map_file := 0, files := Map.empty\<rparr>"

theorem filesys_init_format_large_panics_witness: "filesys_init (replicate 256 0) True ex_boot = None"
  by (rule filesys_init_format_large_panics [of _ 0])
    (simp_all add: ex_boot_def ex_fs_def ex_io_def ex_part_def elem_cnt_def ELEM_BITS_def sz_def)

section \<open>Paths\<close>

text \<open>The components of a path: the non-empty pieces between slashes.\<close>

fun pieces :: "bytes \<Rightarrow> bytes list" where
  "pieces [] = [[]]"
| "pieces (c # cs) = (if c = 47 then [] # pieces cs else (c # hd (pieces cs)) # tl (pieces cs))"

definition components :: "bytes \<Rightarrow> bytes list" where
  "components path = filter ((\<noteq>) []) (pieces path)"

lemma pieces_nonempty [simp]: "pieces cs \<noteq> []"
  by (cases cs) auto

lemma pieces_name: "47 \<notin> set name \<Longrightarrow> pieces (name @ cs) = (name @ hd (pieces cs)) # tl (pieces cs)"
  by (induction name) auto

lemma components_skip: "components (dropWhile ((=) 47) path) = components path"
  by (induction path) (auto simp: components_def)

lemma components_cons:
  assumes "src \<noteq> []" "hd src \<noteq> 47"
  shows "components src = takeWhile ((\<noteq>) 47) src # components (drop (length (takeWhile ((\<noteq>) 47) src)) src)"
proof -
  let ?n = "takeWhile ((\<noteq>) 47) src" and ?r = "dropWhile ((\<noteq>) 47) src"
  have r: "?r = [] \<or> (\<exists>r'. ?r = 47 # r')" by (cases ?r) (auto simp: dropWhile_eq_Cons_conv)
  have n: "47 \<notin> set ?n" "?n \<noteq> []" using assms by (auto dest: set_takeWhileD, cases src, auto)
  have "pieces src = (?n @ hd (pieces ?r)) # tl (pieces ?r)"
    using pieces_name [OF n(1), of ?r] by simp
  moreover have "hd (pieces r) = [] \<and> filter ((\<noteq>) []) (tl (pieces r)) = filter ((\<noteq>) []) (pieces r)"
    if "r = [] \<or> (\<exists>r'. r = 47 # r')" for r using that by auto
  note this [OF r]
  ultimately have "components src = ?n # components ?r" using n(2) by (simp add: components_def)
  then show ?thesis by (simp add: dropWhile_eq_drop)
qed

lemma next_part_cases:
  assumes "get_next_part part srcp = (status, part', srcp')"
  shows "(components srcp = [] \<and> status = 0 \<and> part' = part) \<or>
    (\<exists>c cs. components srcp = c # cs \<and> (if length c \<le> NAME_MAX then status = 1 \<and> part' = c @ [0] @ drop (length c + 1) part
       \<and> components srcp' = cs \<and> set c \<union> set srcp' \<subseteq> set srcp else status = -1))"
proof -
  define src where "src = dropWhile ((=) 47) srcp"
  have c: "components srcp = components src" by (simp add: src_def components_skip)
  show ?thesis
  proof (cases "src = []")
    case True
    then have "components srcp = []" using c by (simp add: components_def)
    then show ?thesis using assms True by (simp add: get_next_part_def Let_def src_def [symmetric])
  next
    case False
    then have h: "hd src \<noteq> 47" using hd_dropWhile [of "(=) 47" srcp] by (auto simp: src_def)
    have "set (takeWhile ((\<noteq>) 47) src) \<union> set (drop (length (takeWhile ((\<noteq>) 47) src)) src) \<subseteq> set srcp"
      using set_dropWhileD [of _ "(=) 47" srcp] by (auto simp: src_def dest!: set_takeWhileD in_set_dropD)
    then show ?thesis using assms c components_cons [OF False h] False
      by (auto simp: get_next_part_def Let_def src_def [symmetric] split: if_splits)
  qed
qed

text \<open>C14. \<open>get_last_part\<close> succeeds exactly if no component of the path is longer than \<open>NAME_MAX\<close>, and then
  the array holds the last component as a string. On a path without components (such as \<open>/\<close>) it also
  succeeds, but the array keeps what it held before the call.\<close>

theorem get_last_part_correct:
  assumes "0 \<notin> set path"
  shows "case get_last_part part path of (ok, part', rest) \<Rightarrow>
    ok = (\<forall>c \<in> set (components path). length c \<le> NAME_MAX)
    \<and> (ok \<longrightarrow> (if components path = [] then part' = part else cstring part' = Some (last (components path))))"
  using assms
proof (induction part path rule: get_last_part.induct)
  case (1 part srcp)
  obtain st p' s' where e: "get_next_part part srcp = (st, p', s')" by (cases "get_next_part part srcp")
  note u = get_last_part.simps [of part srcp, unfolded e]
  consider "components srcp = []" "st = 0" "p' = part" | c cs where "components srcp = c # cs" "NAME_MAX < length c" "st = -1"
    | c cs where "components srcp = c # cs" "length c \<le> NAME_MAX" "st = 1" "p' = c @ [0] @ drop (length c + 1) part"
        "components s' = cs" "set c \<union> set s' \<subseteq> set srcp"
    using next_part_cases [OF e] by (auto split: if_splits)
  then show ?case
  proof cases
    case 3
    have "0 \<notin> set s'" "0 \<notin> set c" using 3(6) 1(2) by auto
    then have "cstring p' = Some c" using 3(4) by (simp add: cstring_def takeWhile_append)
    moreover note 1(1) [OF e [symmetric] refl]
    ultimately show ?thesis using 3 u 1(2) \<open>0 \<notin> set s'\<close> by (auto split: prod.splits if_splits)
  qed (use u in auto)
qed

theorem get_last_part_correct_witness:
  "case get_last_part (replicate 15 7) [47, 97, 47, 98, 99, 47] of (ok, part', rest) \<Rightarrow> ok \<and> cstring part' = Some [98, 99]"
proof -
  have "components [47, 97, 47, 98, 99, 47] = [[97], [98, 99]]" by (simp add: components_def)
  then show ?thesis using get_last_part_correct [of "[47, 97, 47, 98, 99, 47]" "replicate 15 7"]
    by (auto simp: NAME_MAX_def)
qed

end
