(* ===== verification/Threads.thy ===== *)
theory Threads
  imports Pintos_Prelude
begin

text \<open>
  Kernel threads, the scheduler and the synchronization primitives: \<open>threads/thread.c\<close>,
  \<open>threads/synch.c\<close> and the interrupt level of \<open>threads/interrupt.c\<close>.

  The record \<open>kern\<close> holds the variables of the two files, the processor's interrupt flag, and the
  objects of the types \<open>struct thread\<close>, \<open>struct semaphore\<close>, \<open>struct lock\<close>, \<open>struct condition\<close> and
  \<open>struct wait_status\<close> by address. Address 0 is the null pointer; kernel lists are lists of addresses
  (see \<open>Kernel_List\<close>).

  Threads are interleaved. The code of a function is cut into actions of type \<open>act\<close> at the points
  where another thread can run: where the function calls \<open>schedule\<close>, and where interrupts may be on.
  The field \<open>todo\<close> of a thread is what it still has to do in the functions it is in, and stands for
  its kernel stack; \<open>run_act\<close> executes one action of the running thread. A result \<open>None\<close> is an
  assertion that fails or an access through a bad pointer: the kernel stops.
\<close>

section \<open>The state\<close>

datatype thread_status = THREAD_RUNNING | THREAD_READY | THREAD_BLOCKED | THREAD_DYING

definition THREAD_MAGIC :: nat where "THREAD_MAGIC = 0xcd6abf4b"
definition TIME_SLICE :: nat where "TIME_SLICE = 4"
definition PRI_MIN :: int where "PRI_MIN = 0"
definition PRI_DEFAULT :: int where "PRI_DEFAULT = 31"
definition PRI_MAX :: int where "PRI_MAX = 63"
definition TID_ERROR :: int where "TID_ERROR = -1"

text \<open>A semaphore of its own, or the one in a lock.\<close>

datatype sref = Sem nat | Lock_sem nat

datatype act =
    Assert_not_held nat
  | Assert_unheld nat
  | Sema_down sref
  | Down_loop sref bool
  | Set_holder nat
  | Assert_held nat
  | Assert_waits nat
  | Clear_holder nat
  | Sema_up sref
  | Try_acquire nat
  | Set_level bool
  | Sema_init nat nat
  | Cond_push nat nat
  | Cond_signal nat nat
  | Cond_broadcast nat nat
  | Yield
  | Idle_start nat
  | Idle_loop
  | Init_thread nat bytes int "act list"
  | Take_tid nat "act list"
  | New_wait_status nat
  | Add_ref nat int
  | Free_wait_status nat
  | Add_child nat nat
  | Unblock nat
  | Process_exit
  | Exit_begin
  | Exit_children
  | Exit_end
  | Timer_sleep int
  | Sleep_loop int int
  | Process_wait int
  | Reap nat

record semaphore =
  sema_value :: nat
  waiters :: "nat list"

record lock =
  holder :: nat
  lsema :: semaphore

record wait_status =
  o_tid :: int
  o_sem_exited :: nat
  o_exit_code :: nat
  o_reference_count :: nat
  o_reference_count_lock :: nat
  o_kernel_killed :: bool

record thread =
  tid :: int
  status :: thread_status
  tname :: bytes
  priority :: int
  o_wait_status :: nat
  o_children_wait_status_list :: "nat list"
  has_pagedir :: bool
  magic :: nat
  todo :: "act list"
  ret :: int

record kern =
  threads :: "nat \<Rightarrow> thread option"
  running :: nat
  ready_list :: "nat list"
  all_list :: "nat list"
  idle_thread :: nat
  initial_thread :: nat
  semas :: "nat \<Rightarrow> semaphore"
  locks :: "nat \<Rightarrow> lock"
  conds :: "nat \<Rightarrow> nat list"
  wait_statuses :: "nat \<Rightarrow> wait_status option"
  tid_lock :: nat
  next_tid :: int
  next_obj :: nat
  intr_on :: bool
  in_external_intr :: bool
  yield_on_return :: bool
  ticks :: int
  thread_ticks :: nat
  idle_ticks :: int
  kernel_ticks :: int
  user_ticks :: int

definition upd_thread :: "nat \<Rightarrow> (thread \<Rightarrow> thread) \<Rightarrow> kern \<Rightarrow> kern" where
  "upd_thread t f k = k\<lparr>threads := (threads k)(t := map_option f (threads k t))\<rparr>"

definition set_status :: "nat \<Rightarrow> thread_status \<Rightarrow> kern \<Rightarrow> kern" where
  "set_status t st k = upd_thread t (\<lambda>th. th\<lparr>status := st\<rparr>) k"

definition set_todo :: "nat \<Rightarrow> act list \<Rightarrow> kern \<Rightarrow> kern" where
  "set_todo t as k = upd_thread t (\<lambda>th. th\<lparr>todo := as\<rparr>) k"

text \<open>The running thread calls functions whose code is \<open>as\<close> before it continues.\<close>

definition call :: "act list \<Rightarrow> kern \<Rightarrow> kern" where
  "call as k = upd_thread (running k) (\<lambda>th. th\<lparr>todo := as @ todo th\<rparr>) k"

definition sem :: "kern \<Rightarrow> sref \<Rightarrow> semaphore" where
  "sem k s = (case s of Sem a \<Rightarrow> semas k a | Lock_sem l \<Rightarrow> lsema (locks k l))"

definition set_sem :: "sref \<Rightarrow> semaphore \<Rightarrow> kern \<Rightarrow> kern" where
  "set_sem s v k = (case s of
       Sem a \<Rightarrow> k\<lparr>semas := (semas k)(a := v)\<rparr>
     | Lock_sem l \<Rightarrow> k\<lparr>locks := (locks k)(l := (locks k l)\<lparr>lsema := v\<rparr>)\<rparr>)"

definition set_lock_holder :: "nat \<Rightarrow> nat \<Rightarrow> kern \<Rightarrow> kern" where
  "set_lock_holder l t k = k\<lparr>locks := (locks k)(l := (locks k l)\<lparr>holder := t\<rparr>)\<rparr>"

section \<open>Scheduling\<close>

definition is_thread :: "nat \<Rightarrow> kern \<Rightarrow> bool" where
  "is_thread t k = (t \<noteq> 0 \<and> (case threads k t of Some th \<Rightarrow> magic th = THREAD_MAGIC | None \<Rightarrow> False))"

definition running_thread :: "kern \<Rightarrow> nat" where
  "running_thread k = running k"

definition thread_current :: "kern \<Rightarrow> nat option" where
  "thread_current k = do {
     let t = running_thread k;
     ASSERT (is_thread t k);
     th \<leftarrow> threads k t;
     ASSERT (status th = THREAD_RUNNING);
     Some t }"

definition next_thread_to_run :: "kern \<Rightarrow> nat \<times> kern" where
  "next_thread_to_run k = (case ready_list k of
       [] \<Rightarrow> (idle_thread k, k)
     | t # ts \<Rightarrow> (t, k\<lparr>ready_list := ts\<rparr>))"

text \<open>\<open>process_activate\<close> loads the page directory and the task state segment and only checks that there
  is a current thread. The page of a dying thread is given back to the page allocator.\<close>

definition thread_schedule_tail :: "nat \<Rightarrow> kern \<Rightarrow> kern option" where
  "thread_schedule_tail prev k = do {
     let cur = running_thread k;
     ASSERT (\<not> intr_on k);
     let k = (set_status cur THREAD_RUNNING k)\<lparr>thread_ticks := 0\<rparr>;
     _ \<leftarrow> thread_current k;
     if prev \<noteq> 0 then do {
       p \<leftarrow> threads k prev;
       if status p = THREAD_DYING \<and> prev \<noteq> initial_thread k then do {
         ASSERT (prev \<noteq> cur);
         Some (k\<lparr>threads := (threads k)(prev := None)\<rparr>) }
       else Some k }
     else Some k }"

text \<open>\<open>switch_threads\<close> continues in the next thread, which then calls \<open>thread_schedule_tail\<close>.\<close>

definition schedule :: "kern \<Rightarrow> kern option" where
  "schedule k = do {
     let cur = running_thread k;
     let (next, k) = next_thread_to_run k;
     ASSERT (\<not> intr_on k);
     c \<leftarrow> threads k cur;
     ASSERT (status c \<noteq> THREAD_RUNNING);
     ASSERT (is_thread next k);
     if cur \<noteq> next then thread_schedule_tail cur (k\<lparr>running := next\<rparr>)
     else thread_schedule_tail 0 k }"

definition thread_block :: "kern \<Rightarrow> kern option" where
  "thread_block k = do {
     ASSERT (\<not> in_external_intr k);
     ASSERT (\<not> intr_on k);
     t \<leftarrow> thread_current k;
     schedule (set_status t THREAD_BLOCKED k) }"

text \<open>Interrupts are off while \<open>thread_unblock\<close> and \<open>sema_up\<close> run, and get their old level back.\<close>

definition thread_unblock :: "nat \<Rightarrow> kern \<Rightarrow> kern option" where
  "thread_unblock t k = do {
     ASSERT (is_thread t k);
     th \<leftarrow> threads k t;
     ASSERT (status th = THREAD_BLOCKED);
     Some (set_status t THREAD_READY (k\<lparr>ready_list := ready_list k @ [t]\<rparr>)) }"

definition thread_yield :: "kern \<Rightarrow> kern option" where
  "thread_yield k = do {
     cur \<leftarrow> thread_current k;
     ASSERT (\<not> in_external_intr k);
     let k = call [Set_level (intr_on k)] k;
     let k = k\<lparr>intr_on := False\<rparr>;
     let k = (if cur \<noteq> idle_thread k then k\<lparr>ready_list := ready_list k @ [cur]\<rparr> else k);
     schedule (set_status cur THREAD_READY k) }"

definition thread_tick :: "kern \<Rightarrow> kern option" where
  "thread_tick k = do {
     t \<leftarrow> thread_current k;
     th \<leftarrow> threads k t;
     let k = (if t = idle_thread k then k\<lparr>idle_ticks := idle_ticks k + 1\<rparr>
              else if has_pagedir th then k\<lparr>user_ticks := user_ticks k + 1\<rparr>
              else k\<lparr>kernel_ticks := kernel_ticks k + 1\<rparr>);
     let k = k\<lparr>thread_ticks := thread_ticks k + 1\<rparr>;
     Some (if thread_ticks k \<ge> TIME_SLICE then k\<lparr>yield_on_return := True\<rparr> else k) }"

section \<open>Semaphores\<close>

definition sema_init :: "nat \<Rightarrow> nat \<Rightarrow> kern \<Rightarrow> kern" where
  [simp]: "sema_init w v k = k\<lparr>semas := (semas k)(w := \<lparr>sema_value = v, waiters = []\<rparr>)\<rparr>"

definition sema_up :: "sref \<Rightarrow> kern \<Rightarrow> kern option" where
  "sema_up s k = do {
     k \<leftarrow> (case waiters (sem k s) of
         [] \<Rightarrow> Some k
       | t # ts \<Rightarrow> thread_unblock t (set_sem s ((sem k s)\<lparr>waiters := ts\<rparr>) k));
     Some (set_sem s ((sem k s)\<lparr>sema_value := sz (sema_value (sem k s) + 1)\<rparr>) k) }"

text \<open>The loop of \<open>sema_down\<close>: the running thread either takes the semaphore or sleeps, to test the value
  again when it runs next.\<close>

definition down_loop :: "sref \<Rightarrow> bool \<Rightarrow> kern \<Rightarrow> kern option" where
  "down_loop s old_level k =
     (if sema_value (sem k s) = 0 then do {
        t \<leftarrow> thread_current k;
        thread_block (call [Down_loop s old_level] (set_sem s ((sem k s)\<lparr>waiters := waiters (sem k s) @ [t]\<rparr>) k)) }
      else Some ((set_sem s ((sem k s)\<lparr>sema_value := sema_value (sem k s) - 1\<rparr>) k)\<lparr>intr_on := old_level\<rparr>))"

definition sema_down :: "sref \<Rightarrow> kern \<Rightarrow> kern option" where
  "sema_down s k = do {
     ASSERT (\<not> in_external_intr k);
     down_loop s (intr_on k) (k\<lparr>intr_on := False\<rparr>) }"

definition sema_try_down :: "sref \<Rightarrow> kern \<Rightarrow> bool \<times> kern" where
  "sema_try_down s k =
     (if sema_value (sem k s) > 0 then (True, set_sem s ((sem k s)\<lparr>sema_value := sema_value (sem k s) - 1\<rparr>) k)
      else (False, k))"

section \<open>Locks and condition variables\<close>

definition lock_held_by_current_thread :: "nat \<Rightarrow> kern \<Rightarrow> bool option" where
  "lock_held_by_current_thread l k = do { t \<leftarrow> thread_current k; Some (holder (locks k l) = t) }"

definition lock_acquire :: "nat \<Rightarrow> act list" where
  "lock_acquire l = [Assert_not_held l, Sema_down (Lock_sem l), Set_holder l]"

definition lock_release :: "nat \<Rightarrow> act list" where
  "lock_release l = [Assert_held l, Clear_holder l, Sema_up (Lock_sem l)]"

definition lock_try_acquire :: "nat \<Rightarrow> act list" where
  "lock_try_acquire l = [Assert_unheld l, Try_acquire l]"

text \<open>\<open>w\<close> is the address of the local variable \<open>waiter\<close>.\<close>

definition cond_wait :: "nat \<Rightarrow> nat \<Rightarrow> nat \<Rightarrow> act list" where
  "cond_wait c l w = [Assert_waits l, Sema_init w 0, Cond_push c w] @ lock_release l @ [Sema_down (Sem w)] @ lock_acquire l"

definition signal :: "nat \<Rightarrow> nat \<Rightarrow> kern \<Rightarrow> kern option" where
  [simp]: "signal c l k = do {
     ASSERT (\<not> in_external_intr k);
     h \<leftarrow> lock_held_by_current_thread l k;
     ASSERT h;
     case conds k c of
       [] \<Rightarrow> Some k
     | w # ws \<Rightarrow> Some (call [Sema_up (Sem w)] (k\<lparr>conds := (conds k)(c := ws)\<rparr>)) }"

definition cond_signal :: "nat \<Rightarrow> nat \<Rightarrow> act list" where
  "cond_signal c l = [Cond_signal c l]"

definition broadcast :: "nat \<Rightarrow> nat \<Rightarrow> kern \<Rightarrow> kern" where
  [simp]: "broadcast c l k = (if conds k c \<noteq> [] then call [Cond_signal c l, Cond_broadcast c l] k else k)"

definition cond_broadcast :: "nat \<Rightarrow> nat \<Rightarrow> act list" where
  "cond_broadcast c l = [Cond_broadcast c l]"

section \<open>Creation and termination\<close>

definition wait_status_mod_ref :: "nat \<Rightarrow> int \<Rightarrow> kern \<Rightarrow> act list option" where
  "wait_status_mod_ref ws delta k = do {
     w \<leftarrow> wait_statuses k ws;
     Some (lock_acquire (o_reference_count_lock w) @ [Add_ref ws delta]) }"

text \<open>\<open>pg\<close> is the page that \<open>palloc_get_page\<close> returned, 0 if it failed: then \<open>thread_create\<close> returns
  \<open>TID_ERROR\<close>, otherwise the \<open>tid\<close> of the thread \<open>pg\<close> when its actions are done. \<open>code\<close> is what the thread
  function does first; \<open>kernel_thread\<close> turns interrupts on before. The frames on the stack of the new
  thread are its \<open>todo\<close>.\<close>

definition kernel_thread :: "act list \<Rightarrow> act list" where
  "kernel_thread code = Set_level True # code"

definition thread_create :: "nat \<Rightarrow> bytes \<Rightarrow> int \<Rightarrow> act list \<Rightarrow> act list" where
  "thread_create pg name pri code = (if pg = 0 then [] else [Init_thread pg name pri (kernel_thread code)])"

text \<open>\<open>allocate_tid\<close> for the thread \<open>t\<close>; the caller continues with \<open>rest\<close>.\<close>

definition allocate_tid :: "nat \<Rightarrow> act list \<Rightarrow> kern \<Rightarrow> act list" where
  "allocate_tid t rest k = lock_acquire (tid_lock k) @ [Take_tid t rest]"

definition take_tid :: "nat \<Rightarrow> act list \<Rightarrow> kern \<Rightarrow> kern" where
  "take_tid t rest k = call (lock_release (tid_lock k) @ rest)
     (upd_thread t (\<lambda>th. th\<lparr>tid := next_tid k\<rparr>) (k\<lparr>next_tid := wrap32 (next_tid k + 1)\<rparr>))"

definition first_word :: "bytes \<Rightarrow> bytes" where
  "first_word name = takeWhile (\<lambda>c. c \<noteq> 32) name"

text \<open>The name is copied up to the first space; the array has 16 characters.\<close>

definition init_thread :: "nat \<Rightarrow> bytes \<Rightarrow> int \<Rightarrow> act list \<Rightarrow> kern \<Rightarrow> kern option" where
  "init_thread t name pri code k = do {
     ASSERT (t \<noteq> 0);
     ASSERT (PRI_MIN \<le> pri \<and> pri \<le> PRI_MAX);
     ASSERT (length (first_word name) < 16);
     Some (k\<lparr>threads := (threads k)(t \<mapsto> \<lparr>tid = 0, status = THREAD_BLOCKED, tname = first_word name, priority = pri, o_wait_status = 0,
         o_children_wait_status_list = [], has_pagedir = False, magic = THREAD_MAGIC, todo = code, ret = 0\<rparr>),
       all_list := all_list k @ [t]\<rparr>) }"

definition thread_exit :: "act list" where
  "thread_exit = [Process_exit, Exit_begin, Exit_children]"

text \<open>The thread function \<open>idle\<close>; \<open>sti; hlt\<close> turns interrupts on and waits for one.\<close>

definition idle :: "nat \<Rightarrow> act list" where
  "idle idle_started = [Idle_start idle_started, Sema_up (Sem idle_started), Idle_loop]"

definition add_ref :: "nat \<Rightarrow> int \<Rightarrow> kern \<Rightarrow> kern option" where
  "add_ref ws delta k = do {
     w \<leftarrow> wait_statuses k ws;
     let n = nat ((int (o_reference_count w) + delta) mod 2 ^ 32);
     let k = k\<lparr>wait_statuses := (wait_statuses k)(ws \<mapsto> w\<lparr>o_reference_count := n\<rparr>)\<rparr>;
     Some (call (lock_release (o_reference_count_lock w) @ (if n = 0 then [Free_wait_status ws] else [])) k) }"

text \<open>\<open>malloc\<close> returns objects that were never used before. The new semaphore and the new lock of the wait
  status have the addresses of the object itself.\<close>

definition new_wait_status :: "nat \<Rightarrow> kern \<Rightarrow> kern option" where
  "new_wait_status t k = do {
     th \<leftarrow> threads k t;
     let ws = next_obj k;
     let k = k\<lparr>next_obj := ws + 1, semas := (semas k)(ws := \<lparr>sema_value = 0, waiters = []\<rparr>),
       locks := (locks k)(ws := \<lparr>holder = 0, lsema = \<lparr>sema_value = 1, waiters = []\<rparr>\<rparr>),
       wait_statuses := (wait_statuses k)(ws \<mapsto> \<lparr>o_tid = tid th, o_sem_exited = ws, o_exit_code = 0, o_reference_count = 0,
         o_reference_count_lock = ws, o_kernel_killed = False\<rparr>)\<rparr>;
     let k = upd_thread t (\<lambda>th. th\<lparr>o_wait_status := ws\<rparr>) k;
     inc \<leftarrow> wait_status_mod_ref ws 1 k;
     Some (call (inc @ [Add_child t ws]) k) }"

definition add_child :: "nat \<Rightarrow> nat \<Rightarrow> kern \<Rightarrow> kern option" where
  "add_child t ws k = do {
     p \<leftarrow> thread_current k;
     let k = upd_thread p (\<lambda>th. th\<lparr>o_children_wait_status_list := ws # o_children_wait_status_list th\<rparr>) k;
     inc \<leftarrow> wait_status_mod_ref ws 1 k;
     Some (call (inc @ [Unblock t]) k) }"

fun thread_get_wait_status_in :: "(nat \<Rightarrow> wait_status option) \<Rightarrow> nat list \<Rightarrow> int \<Rightarrow> nat option" where
  "thread_get_wait_status_in h [] child = Some 0"
| "thread_get_wait_status_in h (ws # wss) child = do {
     w \<leftarrow> h ws;
     if o_tid w = child then Some ws else thread_get_wait_status_in h wss child }"

definition thread_get_wait_status :: "nat \<Rightarrow> int \<Rightarrow> kern \<Rightarrow> nat option" where
  "thread_get_wait_status t child k = do {
     th \<leftarrow> threads k t;
     thread_get_wait_status_in (wait_statuses k) (o_children_wait_status_list th) child }"

definition exit_children :: "kern \<Rightarrow> kern option" where
  "exit_children k = do {
     t \<leftarrow> thread_current k;
     th \<leftarrow> threads k t;
     case o_children_wait_status_list th of
       ws # wss \<Rightarrow> do {
         let k = upd_thread t (\<lambda>th. th\<lparr>o_children_wait_status_list := wss\<rparr>) k;
         dec \<leftarrow> wait_status_mod_ref ws (-1) k;
         Some (call (dec @ [Exit_children]) k) }
     | [] \<Rightarrow> do {
         dec \<leftarrow> wait_status_mod_ref (o_wait_status th) (-1) k;
         Some (call (dec @ [Exit_end]) k) } }"

text \<open>The removal from the list of all threads, with interrupts off from here on, and the last lines of \<open>thread_exit\<close>.\<close>

definition exit_begin :: "kern \<Rightarrow> kern option" where
  [simp]: "exit_begin k = do {
     t \<leftarrow> thread_current k;
     ASSERT (t \<in> set (all_list k));
     Some (k\<lparr>intr_on := False, all_list := remove1 t (all_list k)\<rparr>) }"

definition exit_end :: "kern \<Rightarrow> kern option" where
  [simp]: "exit_end k = do { t \<leftarrow> thread_current k; schedule (set_status t THREAD_DYING k) }"

section \<open>Waiting for a child\<close>

text \<open>\<open>process_wait\<close> up to the semaphore, and after it. The result is stored in \<open>ret\<close>.\<close>

definition process_wait :: "int \<Rightarrow> kern \<Rightarrow> kern option" where
  "process_wait child k = do {
     t \<leftarrow> thread_current k;
     ws \<leftarrow> thread_get_wait_status t child k;
     if ws = 0 then Some (upd_thread t (\<lambda>th. th\<lparr>ret := -1\<rparr>) k)
     else do {
       w \<leftarrow> wait_statuses k ws;
       Some (call [Sema_down (Sem (o_sem_exited w)), Reap ws] k) } }"

definition reap :: "nat \<Rightarrow> kern \<Rightarrow> kern option" where
  "reap ws k = do {
     let t = running_thread k;
     w \<leftarrow> wait_statuses k ws;
     let exit_code = (if o_kernel_killed w then -1 else wrap32 (int (o_exit_code w)));
     let k = upd_thread t (\<lambda>th. th\<lparr>o_children_wait_status_list := remove1 ws (o_children_wait_status_list th), ret := exit_code\<rparr>) k;
     dec \<leftarrow> wait_status_mod_ref ws (-1) k;
     Some (call dec k) }"

text \<open>The files and the working directory that \<open>process_exit\<close> closes are not part of this state.\<close>

definition process_exit :: "kern \<Rightarrow> kern option" where
  [simp]: "process_exit k = do {
     t \<leftarrow> thread_current k;
     let k = upd_thread t (\<lambda>th. th\<lparr>has_pagedir := False\<rparr>) k;
     th \<leftarrow> threads k t;
     w \<leftarrow> wait_statuses k (o_wait_status th);
     Some (call [Sema_up (Sem (o_sem_exited w))] k) }"

section \<open>Sleeping\<close>

definition timer_sleep :: "int \<Rightarrow> kern \<Rightarrow> kern option" where
  [simp]: "timer_sleep n k = do { ASSERT (intr_on k); Some (call [Sleep_loop (ticks k) n] k) }"

definition sleep_loop :: "int \<Rightarrow> int \<Rightarrow> kern \<Rightarrow> kern" where
  [simp]: "sleep_loop start n k = (if ticks k - start < n then call [Yield, Sleep_loop start n] k else k)"

section \<open>Executing an action\<close>

fun run_act :: "act \<Rightarrow> kern \<Rightarrow> kern option" where
  "run_act (Assert_not_held l) k = do {
     ASSERT (\<not> in_external_intr k);
     h \<leftarrow> lock_held_by_current_thread l k;
     ASSERT (\<not> h);
     Some k }"
| "run_act (Assert_unheld l) k = do { h \<leftarrow> lock_held_by_current_thread l k; ASSERT (\<not> h); Some k }"
| "run_act (Sema_down s) k = sema_down s k"
| "run_act (Down_loop s old_level) k = down_loop s old_level k"
| "run_act (Set_holder l) k = do { t \<leftarrow> thread_current k; Some (set_lock_holder l t k) }"
| "run_act (Assert_held l) k = do { h \<leftarrow> lock_held_by_current_thread l k; ASSERT h; Some k }"
| "run_act (Assert_waits l) k = do {
     ASSERT (\<not> in_external_intr k);
     h \<leftarrow> lock_held_by_current_thread l k;
     ASSERT h;
     Some k }"
| "run_act (Clear_holder l) k = Some (set_lock_holder l 0 k)"
| "run_act (Sema_up s) k = sema_up s k"
| "run_act (Try_acquire l) k = (case sema_try_down (Lock_sem l) k of
     (success, k) \<Rightarrow> Some (upd_thread (running k) (\<lambda>th. th\<lparr>ret := (if success then 1 else 0)\<rparr>) (if success then call [Set_holder l] k else k)))"
| "run_act (Set_level b) k = Some (k\<lparr>intr_on := b\<rparr>)"
| "run_act (Sema_init w v) k = Some (sema_init w v k)"
| "run_act (Cond_push c w) k = Some (k\<lparr>conds := (conds k)(c := conds k c @ [w])\<rparr>)"
| "run_act (Cond_signal c l) k = signal c l k"
| "run_act (Cond_broadcast c l) k = Some (broadcast c l k)"
| "run_act Yield k = thread_yield k"
| "run_act (Idle_start idle_started) k = do { t \<leftarrow> thread_current k; Some (k\<lparr>idle_thread := t\<rparr>) }"
| "run_act Idle_loop k = thread_block (call [Set_level True, Idle_loop] (k\<lparr>intr_on := False\<rparr>))"
| "run_act (Init_thread pg name pri code) k = do { k \<leftarrow> init_thread pg name pri code k; Some (call (allocate_tid pg [New_wait_status pg] k) k) }"
| "run_act (Take_tid pg rest) k = Some (take_tid pg rest k)"
| "run_act (New_wait_status pg) k = new_wait_status pg k"
| "run_act (Add_ref ws delta) k = add_ref ws delta k"
| "run_act (Free_wait_status ws) k = do { _ \<leftarrow> wait_statuses k ws; Some (k\<lparr>wait_statuses := (wait_statuses k)(ws := None)\<rparr>) }"
| "run_act (Add_child pg ws) k = add_child pg ws k"
| "run_act (Unblock pg) k = thread_unblock pg k"
| "run_act Process_exit k = do { ASSERT (\<not> in_external_intr k); process_exit k }"
| "run_act Exit_begin k = exit_begin k"
| "run_act Exit_children k = exit_children k"
| "run_act Exit_end k = exit_end k"
| "run_act (Timer_sleep n) k = timer_sleep n k"
| "run_act (Sleep_loop start n) k = Some (sleep_loop start n k)"
| "run_act (Process_wait child) k = process_wait child k"
| "run_act (Reap ws) k = reap ws k"

text \<open>The running thread executes its next action.\<close>

definition step_thread :: "kern \<Rightarrow> kern option" where
  "step_thread k = do {
     th \<leftarrow> threads k (running k);
     case todo th of
       [] \<Rightarrow> None
     | a # as \<Rightarrow> run_act a (set_todo (running k) as k) }"

text \<open>An external interrupt: the processor turns interrupts off, \<open>intr_handler\<close> calls the handler, and the
  return from the interrupt turns them on again.\<close>

definition intr_handler :: "(kern \<Rightarrow> kern option) \<Rightarrow> kern \<Rightarrow> kern option" where
  "intr_handler handler k = do {
     ASSERT (intr_on k);
     let k = k\<lparr>intr_on := False\<rparr>;
     ASSERT (\<not> in_external_intr k);
     k \<leftarrow> handler (k\<lparr>in_external_intr := True, yield_on_return := False\<rparr>);
     ASSERT (\<not> intr_on k);
     ASSERT (in_external_intr k);
     let k = call [Set_level True] (k\<lparr>in_external_intr := False\<rparr>);
     if yield_on_return k then thread_yield k else Some k }"

definition timer_interrupt :: "kern \<Rightarrow> kern option" where
  "timer_interrupt k = thread_tick (k\<lparr>ticks := ticks k + 1\<rparr>)"

section \<open>Start\<close>

text \<open>\<open>p\<close> is the page of the stack the loader set up, \<open>idle_started\<close> the address of the local variable.\<close>

definition thread_init :: "nat \<Rightarrow> kern \<Rightarrow> kern option" where
  "thread_init p k = do {
     ASSERT (\<not> intr_on k);
     let k = k\<lparr>locks := (locks k)(tid_lock k := \<lparr>holder = 0, lsema = \<lparr>sema_value = 1, waiters = []\<rparr>\<rparr>), ready_list := [], all_list := [],
       running := p, initial_thread := p\<rparr>;
     k \<leftarrow> init_thread p [109, 97, 105, 110] PRI_DEFAULT [] k;
     let k = set_status p THREAD_RUNNING k;
     Some (call (allocate_tid p [] k) k) }"

definition thread_start :: "nat \<Rightarrow> nat \<Rightarrow> act list" where
  "thread_start pg idle_started = [Sema_init idle_started 0] @ thread_create pg [105, 100, 108, 101] PRI_MIN (idle idle_started)
     @ [Set_level True, Sema_down (Sem idle_started)]"

end
