(* ===== verification/Threads_Proofs.thy ===== *)
theory Threads_Proofs
  imports Threads
begin

text \<open>Invariants of the threads: scheduling, wait lists, creation.\<close>

section \<open>Views of the threads\<close>

definition st :: "kern \<Rightarrow> nat \<Rightarrow> thread_status option" where
  "st k t = map_option status (threads k t)"

definition td :: "kern \<Rightarrow> nat \<Rightarrow> act list" where
  "td k t = (case threads k t of Some th \<Rightarrow> todo th | None \<Rightarrow> [])"

definition mg :: "kern \<Rightarrow> nat \<Rightarrow> bool" where
  "mg k t \<longleftrightarrow> (\<forall>th. threads k t = Some th \<longrightarrow> magic th = THREAD_MAGIC)"

lemma st_upd [simp]:
  "(\<And>th. status (f th) = status th) \<Longrightarrow> st (upd_thread t f k) = st k"
  "(\<And>th. todo (f th) = todo th) \<Longrightarrow> td (upd_thread t f k) = td k"
  "(\<And>th. magic (f th) = magic th) \<Longrightarrow> mg (upd_thread t f k) = mg k"
  by (auto simp: st_def td_def mg_def upd_thread_def fun_eq_iff option.map_comp o_def split: option.splits)

lemma st_set_status [simp]:
  "st (set_status t x k) = (st k)(t := (if st k t = None then None else Some x))"
  "td (set_status t x k) = td k" "mg (set_status t x k) = mg k"
  by (auto simp: st_def td_def mg_def set_status_def upd_thread_def fun_eq_iff split: option.splits)

lemma st_call [simp]:
  "st (call as k) = st k" "mg (call as k) = mg k"
  "td (call as k) = (td k)(running k := (if st k (running k) = None then [] else as @ td k (running k)))"
  by (auto simp: st_def td_def mg_def call_def upd_thread_def fun_eq_iff option.map_comp o_def split: option.splits)

lemma st_set_todo [simp]:
  "st (set_todo t as k) = st k" "mg (set_todo t as k) = mg k"
  "td (set_todo t as k) = (td k)(t := (if st k t = None then [] else as))"
  by (auto simp: st_def td_def mg_def set_todo_def upd_thread_def fun_eq_iff option.map_comp o_def split: option.splits)

lemma st_fields [simp]:
  "st (running_update f1 k) = st k" "td (running_update f1 k) = td k" "mg (running_update f1 k) = mg k"
  "st (ready_list_update f2 k) = st k" "td (ready_list_update f2 k) = td k" "mg (ready_list_update f2 k) = mg k"
  "st (all_list_update f3 k) = st k" "td (all_list_update f3 k) = td k" "mg (all_list_update f3 k) = mg k"
  "st (idle_thread_update f4 k) = st k" "td (idle_thread_update f4 k) = td k" "mg (idle_thread_update f4 k) = mg k"
  "st (initial_thread_update f5 k) = st k" "td (initial_thread_update f5 k) = td k" "mg (initial_thread_update f5 k) = mg k"
  "st (semas_update f6 k) = st k" "td (semas_update f6 k) = td k" "mg (semas_update f6 k) = mg k"
  "st (locks_update f7 k) = st k" "td (locks_update f7 k) = td k" "mg (locks_update f7 k) = mg k"
  "st (conds_update f8 k) = st k" "td (conds_update f8 k) = td k" "mg (conds_update f8 k) = mg k"
  "st (wait_statuses_update f9 k) = st k" "td (wait_statuses_update f9 k) = td k" "mg (wait_statuses_update f9 k) = mg k"
  "st (next_tid_update f10 k) = st k" "td (next_tid_update f10 k) = td k" "mg (next_tid_update f10 k) = mg k"
  "st (next_obj_update f11 k) = st k" "td (next_obj_update f11 k) = td k" "mg (next_obj_update f11 k) = mg k"
  "st (intr_on_update f12 k) = st k" "td (intr_on_update f12 k) = td k" "mg (intr_on_update f12 k) = mg k"
  "st (in_external_intr_update f13 k) = st k" "td (in_external_intr_update f13 k) = td k" "mg (in_external_intr_update f13 k) = mg k"
  "st (yield_on_return_update f14 k) = st k" "td (yield_on_return_update f14 k) = td k" "mg (yield_on_return_update f14 k) = mg k"
  "st (ticks_update f15 k) = st k" "td (ticks_update f15 k) = td k" "mg (ticks_update f15 k) = mg k"
  "st (thread_ticks_update f16 k) = st k" "td (thread_ticks_update f16 k) = td k" "mg (thread_ticks_update f16 k) = mg k"
  "st (idle_ticks_update f17 k) = st k" "td (idle_ticks_update f17 k) = td k" "mg (idle_ticks_update f17 k) = mg k"
  "st (kernel_ticks_update f18 k) = st k" "td (kernel_ticks_update f18 k) = td k" "mg (kernel_ticks_update f18 k) = mg k"
  "st (user_ticks_update f19 k) = st k" "td (user_ticks_update f19 k) = td k" "mg (user_ticks_update f19 k) = mg k"
  by (simp_all add: st_def td_def mg_def fun_eq_iff)

lemma sem_fields [simp]:
  "sem (running_update f1 k) = sem k"
  "sem (ready_list_update f2 k) = sem k"
  "sem (all_list_update f3 k) = sem k"
  "sem (idle_thread_update f4 k) = sem k"
  "sem (initial_thread_update f5 k) = sem k"
  "sem (conds_update f8 k) = sem k"
  "sem (wait_statuses_update f9 k) = sem k"
  "sem (next_tid_update f10 k) = sem k"
  "sem (next_obj_update f11 k) = sem k"
  "sem (intr_on_update f12 k) = sem k"
  "sem (in_external_intr_update f13 k) = sem k"
  "sem (yield_on_return_update f14 k) = sem k"
  "sem (ticks_update f15 k) = sem k"
  "sem (thread_ticks_update f16 k) = sem k"
  "sem (idle_ticks_update f17 k) = sem k"
  "sem (kernel_ticks_update f18 k) = sem k"
  "sem (user_ticks_update f19 k) = sem k"
  "sem (threads_update f20 k) = sem k"
  by (simp_all add: sem_def fun_eq_iff split: sref.splits)

lemma td_dead: "st k t = None \<Longrightarrow> td k t = []"
  by (auto simp: st_def td_def split: option.splits)

text \<open>The other fields.\<close>

lemma upd_thread_fields [simp]:
  "running (upd_thread t f k) = running k" "ready_list (upd_thread t f k) = ready_list k" "idle_thread (upd_thread t f k) = idle_thread k"
  "initial_thread (upd_thread t f k) = initial_thread k" "semas (upd_thread t f k) = semas k" "locks (upd_thread t f k) = locks k"
  "conds (upd_thread t f k) = conds k" "wait_statuses (upd_thread t f k) = wait_statuses k" "intr_on (upd_thread t f k) = intr_on k"
  "in_external_intr (upd_thread t f k) = in_external_intr k" "next_obj (upd_thread t f k) = next_obj k" "tid_lock (upd_thread t f k) = tid_lock k"
  "yield_on_return (upd_thread t f k) = yield_on_return k" "ticks (upd_thread t f k) = ticks k"
  by (simp_all add: upd_thread_def)

lemma op_fields [simp]:
  "running (set_status t x k) = running k" "ready_list (set_status t x k) = ready_list k" "idle_thread (set_status t x k) = idle_thread k"
  "initial_thread (set_status t x k) = initial_thread k" "locks (set_status t x k) = locks k" "semas (set_status t x k) = semas k"
  "intr_on (set_status t x k) = intr_on k" "in_external_intr (set_status t x k) = in_external_intr k" "next_obj (set_status t x k) = next_obj k"
  "wait_statuses (set_status t x k) = wait_statuses k" "tid_lock (set_status t x k) = tid_lock k" "ticks (set_status t x k) = ticks k"
  "running (call as k) = running k" "ready_list (call as k) = ready_list k" "idle_thread (call as k) = idle_thread k"
  "initial_thread (call as k) = initial_thread k" "locks (call as k) = locks k" "semas (call as k) = semas k" "conds (call as k) = conds k"
  "intr_on (call as k) = intr_on k" "in_external_intr (call as k) = in_external_intr k" "next_obj (call as k) = next_obj k"
  "wait_statuses (call as k) = wait_statuses k" "tid_lock (call as k) = tid_lock k" "yield_on_return (call as k) = yield_on_return k"
  "ticks (call as k) = ticks k"
  "running (set_todo t as k) = running k" "ready_list (set_todo t as k) = ready_list k" "idle_thread (set_todo t as k) = idle_thread k"
  "initial_thread (set_todo t as k) = initial_thread k" "locks (set_todo t as k) = locks k" "semas (set_todo t as k) = semas k"
  "conds (set_todo t as k) = conds k" "intr_on (set_todo t as k) = intr_on k" "in_external_intr (set_todo t as k) = in_external_intr k"
  "next_obj (set_todo t as k) = next_obj k" "wait_statuses (set_todo t as k) = wait_statuses k" "tid_lock (set_todo t as k) = tid_lock k"
  "ticks (set_todo t as k) = ticks k"
  by (simp_all add: set_status_def call_def set_todo_def)

lemma set_sem_fields [simp]:
  "threads (set_sem s v k) = threads k" "running (set_sem s v k) = running k" "ready_list (set_sem s v k) = ready_list k"
  "idle_thread (set_sem s v k) = idle_thread k" "initial_thread (set_sem s v k) = initial_thread k" "intr_on (set_sem s v k) = intr_on k"
  "in_external_intr (set_sem s v k) = in_external_intr k" "next_obj (set_sem s v k) = next_obj k"
  "wait_statuses (set_sem s v k) = wait_statuses k" "tid_lock (set_sem s v k) = tid_lock k" "yield_on_return (set_sem s v k) = yield_on_return k"
  "ticks (set_sem s v k) = ticks k"
  by (simp_all add: set_sem_def split: sref.splits)

lemma sem_cong: "semas k' = semas k \<Longrightarrow> locks k' = locks k \<Longrightarrow> sem k' = sem k"
  by (simp add: sem_def fun_eq_iff split: sref.splits)

lemma sem_ops [simp]:
  "sem (upd_thread t f k) = sem k" "sem (set_status t x k) = sem k" "sem (call as k) = sem k" "sem (set_todo t as k) = sem k"
  by (rule sem_cong; simp)+

lemma sem_set_sem [simp]: "sem (set_sem s v k) = (sem k)(s := v)"
  by (auto simp: sem_def set_sem_def fun_eq_iff split: sref.splits)

lemma holder_set_sem [simp]: "holder (locks (set_sem s v k) l) = holder (locks k l)"
  by (simp add: set_sem_def split: sref.splits)

lemma set_lock_holder_fields [simp]:
  "threads (set_lock_holder l t k) = threads k" "running (set_lock_holder l t k) = running k" "ready_list (set_lock_holder l t k) = ready_list k"
  "idle_thread (set_lock_holder l t k) = idle_thread k" "intr_on (set_lock_holder l t k) = intr_on k"
  "in_external_intr (set_lock_holder l t k) = in_external_intr k" "next_obj (set_lock_holder l t k) = next_obj k"
  "wait_statuses (set_lock_holder l t k) = wait_statuses k" "tid_lock (set_lock_holder l t k) = tid_lock k"
  "initial_thread (set_lock_holder l t k) = initial_thread k" "ticks (set_lock_holder l t k) = ticks k"
  "holder (locks (set_lock_holder l t k) m) = (if m = l then t else holder (locks k m))"
  by (simp_all add: set_lock_holder_def)

lemma sem_set_lock_holder [simp]: "sem (set_lock_holder l t k) = sem k"
  by (auto simp: sem_def set_lock_holder_def fun_eq_iff split: sref.splits)

section \<open>The invariant\<close>

text \<open>Every thread structure is intact, and the ready list holds exactly the ready threads; the idle thread
  is never on it.\<close>

definition ready_ok :: "kern \<Rightarrow> bool" where
  "ready_ok k \<longleftrightarrow> (\<forall>t. mg k t) \<and> st k 0 = None \<and> distinct (ready_list k) \<and> idle_thread k \<notin> set (ready_list k)
     \<and> (\<forall>t. t \<noteq> idle_thread k \<longrightarrow> (t \<in> set (ready_list k) \<longleftrightarrow> st k t = Some THREAD_READY))"

definition one_running :: "kern \<Rightarrow> bool" where
  "one_running k \<longleftrightarrow> (\<forall>t. st k t = Some THREAD_RUNNING \<longleftrightarrow> t = running k)"

text \<open>A thread on the wait list of a semaphore is blocked in \<open>sema_down\<close> of that semaphore.\<close>

definition waiters_ok :: "kern \<Rightarrow> bool" where
  "waiters_ok k \<longleftrightarrow> (\<forall>s. distinct (waiters (sem k s)) \<and> (\<forall>t \<in> set (waiters (sem k s)).
     st k t = Some THREAD_BLOCKED \<and> (\<exists>old as. td k t = Down_loop s old # as)))"

text \<open>The idle thread only blocks and changes the interrupt level; no other thread runs its code.\<close>

definition idle_act :: "act \<Rightarrow> bool" where
  "idle_act a \<longleftrightarrow> a = Idle_loop \<or> a = Set_level True \<or> a = Set_level False"

definition idle_ok :: "kern \<Rightarrow> bool" where
  "idle_ok k \<longleftrightarrow> st k (idle_thread k) \<noteq> None \<and> st k (idle_thread k) \<noteq> Some THREAD_DYING \<and> Idle_loop \<in> set (td k (idle_thread k)) \<and> (\<forall>a \<in> set (td k (idle_thread k)). idle_act a)
     \<and> (\<forall>t. t \<noteq> idle_thread k \<longrightarrow> Idle_loop \<notin> set (td k t)) \<and> (\<forall>t a. Idle_start a \<notin> set (td k t))"

text \<open>A thread that is being created: its page is not a thread yet, or it is blocked and has not run.\<close>

fun stage :: "nat \<Rightarrow> act \<Rightarrow> bool" where
  "stage pg (Init_thread p name pri code) = (pg = p)"
| "stage pg (Take_tid p rest) = (pg = p)"
| "stage pg (New_wait_status p) = (pg = p)"
| "stage pg (Add_child p ws) = (pg = p)"
| "stage pg (Unblock p) = (pg = p)"
| "stage pg _ = False"

fun good_act :: "act \<Rightarrow> bool" where
  "good_act (Init_thread p name pri code) = (p \<noteq> 0 \<and> code = [Set_level True])"
| "good_act (Take_tid p rest) = (rest = [New_wait_status p])"
| "good_act _ = True"

definition is_init :: "act \<Rightarrow> bool" where
  "is_init a \<longleftrightarrow> (\<exists>p name pri code. a = Init_thread p name pri code)"

definition births_ok :: "kern \<Rightarrow> bool" where
  "births_ok k \<longleftrightarrow> (\<forall>t. \<forall>a \<in> set (td k t). good_act a)
     \<and> (\<forall>t pg. length (filter (stage pg) (td k t)) \<le> 1)
     \<and> (\<forall>t u pg a b. a \<in> set (td k t) \<and> b \<in> set (td k u) \<and> stage pg a \<and> stage pg b \<longrightarrow> t = u)
     \<and> (\<forall>t pg a. a \<in> set (td k t) \<and> stage pg a \<longrightarrow> (if is_init a then st k pg = None
          else st k pg = Some THREAD_BLOCKED \<and> td k pg = [Set_level True] \<and> pg \<noteq> idle_thread k))"

text \<open>A sleeping thread tests the semaphore as the first thing when it runs again, with interrupts off.\<close>

definition loops_ok :: "kern \<Rightarrow> bool" where
  "loops_ok k \<longleftrightarrow> (\<forall>t s old. Down_loop s old \<notin> set (tl (td k t)))
     \<and> (\<forall>s old as. td k (running k) = Down_loop s old # as \<longrightarrow> \<not> intr_on k)"

definition threads_ok :: "kern \<Rightarrow> bool" where
  "threads_ok k \<longleftrightarrow> ready_ok k \<and> one_running k \<and> waiters_ok k \<and> idle_ok k \<and> births_ok k \<and> loops_ok k \<and> \<not> in_external_intr k"

text \<open>The invariant while the running thread has left the running state.\<close>

definition between :: "kern \<Rightarrow> bool" where
  "between k \<longleftrightarrow> ready_ok k \<and> (\<forall>t. st k t \<noteq> Some THREAD_RUNNING) \<and> waiters_ok k \<and> idle_ok k \<and> births_ok k
     \<and> (\<forall>t s old. Down_loop s old \<notin> set (tl (td k t))) \<and> \<not> in_external_intr k"

section \<open>Scheduling\<close>

lemma current_eq: "ready_ok k \<Longrightarrow> st k (running k) = Some THREAD_RUNNING \<Longrightarrow> thread_current k = Some (running k)"
  by (cases "running k = 0")
    (auto simp: thread_current_def running_thread_def is_thread_def st_def ready_ok_def mg_def Let_def split: option.splits)

text \<open>The thread that runs next.\<close>

definition next_of :: "kern \<Rightarrow> nat" where
  "next_of k = (if ready_list k = [] then idle_thread k else hd (ready_list k))"

lemma next_alive:
  assumes "ready_ok k" "idle_ok k"
  shows "st k (next_of k) \<noteq> None" "next_of k \<noteq> 0" "mg k (next_of k)"
proof -
  have "st k (hd (ready_list k)) = Some THREAD_READY" if "ready_list k \<noteq> []"
    using assms(1) that hd_in_set [OF that] unfolding ready_ok_def by metis
  then show s: "st k (next_of k) \<noteq> None" using assms(2) by (auto simp: next_of_def idle_ok_def)
  then show "next_of k \<noteq> 0" using assms(1) by (auto simp: ready_ok_def intro: ccontr)
  show "mg k (next_of k)" using assms(1) by (simp add: ready_ok_def)
qed

definition switched :: "kern \<Rightarrow> kern" where
  "switched k = (let n = next_of k; k' = (set_status n THREAD_RUNNING (k\<lparr>ready_list := tl (ready_list k), running := n\<rparr>))\<lparr>thread_ticks := 0\<rparr>
     in if running k \<noteq> n \<and> st k (running k) = Some THREAD_DYING \<and> running k \<noteq> initial_thread k
        then k'\<lparr>threads := (threads k')(running k := None)\<rparr> else k')"

lemma schedule_eq:
  assumes "between k" "st k (running k) \<noteq> None" "\<not> intr_on k"
  shows "schedule k = Some (switched k)"
proof -
  have I: "ready_ok k" "idle_ok k" "\<forall>t. st k t \<noteq> Some THREAD_RUNNING" using assms(1) by (simp_all add: between_def)
  note n = next_alive [OF I(1,2)]
  have nt: "next_thread_to_run k = (next_of k, k\<lparr>ready_list := tl (ready_list k)\<rparr>)"
    by (simp add: next_thread_to_run_def next_of_def split: list.splits)
  obtain c where c: "threads k (running k) = Some c" "status c \<noteq> THREAD_RUNNING" using assms(2) I(3) by (auto simp: st_def)
  obtain d where d: "threads k (next_of k) = Some d" "magic d = THREAD_MAGIC" using n(1,3) by (auto simp: st_def mg_def)
  have r0: "running k \<noteq> 0" using assms(2) I(1) by (auto simp: ready_ok_def intro: ccontr)
  show ?thesis
  proof (cases "running k = next_of k")
    case True
    then show ?thesis using nt c d n(2) assms(3)
      by (simp add: schedule_def running_thread_def thread_schedule_tail_def thread_current_def is_thread_def switched_def Let_def
          set_status_def upd_thread_def)
  next
    case False
    then show ?thesis using nt c d n(2) assms(3) r0
      by (simp add: schedule_def running_thread_def thread_schedule_tail_def thread_current_def is_thread_def switched_def Let_def
          set_status_def upd_thread_def st_def)
  qed
qed

lemma switched_fields [simp]:
  "running (switched k) = next_of k" "ready_list (switched k) = tl (ready_list k)" "idle_thread (switched k) = idle_thread k"
  "intr_on (switched k) = intr_on k" "in_external_intr (switched k) = in_external_intr k" "sem (switched k) = sem k" "locks (switched k) = locks k"
  "next_obj (switched k) = next_obj k" "wait_statuses (switched k) = wait_statuses k" "tid_lock (switched k) = tid_lock k" "ticks (switched k) = ticks k"
  by (simp_all add: switched_def Let_def)

definition freed :: "kern \<Rightarrow> nat \<Rightarrow> bool" where
  "freed k t \<longleftrightarrow> t = running k \<and> running k \<noteq> next_of k \<and> st k t = Some THREAD_DYING \<and> t \<noteq> initial_thread k"

lemma switched_views:
  assumes "st k (next_of k) \<noteq> None"
  shows "st (switched k) t = (if freed k t then None else if t = next_of k then Some THREAD_RUNNING else st k t)"
    "td (switched k) t = (if freed k t then [] else td k t)" "mg k t \<Longrightarrow> mg (switched k) t"
proof -
  define k' where "k' = (set_status (next_of k) THREAD_RUNNING (k\<lparr>ready_list := tl (ready_list k), running := next_of k\<rparr>))\<lparr>thread_ticks := 0\<rparr>"
  have s: "switched k = (if running k \<noteq> next_of k \<and> st k (running k) = Some THREAD_DYING \<and> running k \<noteq> initial_thread k
      then k'\<lparr>threads := (threads k')(running k := None)\<rparr> else k')"
    unfolding switched_def k'_def Let_def by (rule refl)
  have k': "st k' = (st k)(next_of k := Some THREAD_RUNNING)" "td k' = td k" "mg k' = mg k" using assms by (auto simp: k'_def)
  have r: "st (k'\<lparr>threads := (threads k')(running k := None)\<rparr>) = (st k')(running k := None)"
    "td (k'\<lparr>threads := (threads k')(running k := None)\<rparr>) = (td k')(running k := [])"
    "mg k' t \<Longrightarrow> mg (k'\<lparr>threads := (threads k')(running k := None)\<rparr>) t"
    by (simp_all add: st_def td_def mg_def fun_eq_iff)
  show "st (switched k) t = (if freed k t then None else if t = next_of k then Some THREAD_RUNNING else st k t)"
    "td (switched k) t = (if freed k t then [] else td k t)" unfolding s using r k' by (auto simp: freed_def)
  show "mg k t \<Longrightarrow> mg (switched k) t" unfolding s using r(3) k'(3) by auto
qed

lemma switched_ok:
  assumes "between k" "st k (running k) \<noteq> None" "\<not> intr_on k"
  shows "threads_ok (switched k)"
proof -
  have I: "ready_ok k" "\<forall>t. st k t \<noteq> Some THREAD_RUNNING" "waiters_ok k" "idle_ok k" "births_ok k"
    "\<forall>t s old. Down_loop s old \<notin> set (tl (td k t))" "\<not> in_external_intr k" using assms(1) by (simp_all add: between_def)
  note n = next_alive [OF I(1,4)]
  note v = switched_views [OF n(1)]
  have fd: "st k t = Some THREAD_DYING" if "freed k t" for t using that by (auto simp: freed_def)
  have nf: "\<not> freed k (next_of k)" by (simp add: freed_def)
  have nr: "next_of k = idle_thread k \<or> st k (next_of k) = Some THREAD_READY"
    using I(1) hd_in_set [of "ready_list k"] unfolding next_of_def ready_ok_def by metis
  have "ready_ok (switched k)"
  proof -
    have r: "distinct (tl (ready_list k))" "set (tl (ready_list k)) = set (ready_list k) - {next_of k}"
      using I(1) by (cases "ready_list k"; auto simp: ready_ok_def next_of_def)+
    have "st (switched k) 0 = None" using I(1) n(2) v(1) by (simp add: ready_ok_def)
    moreover have "t \<in> set (tl (ready_list k)) \<longleftrightarrow> st (switched k) t = Some THREAD_READY" if "t \<noteq> idle_thread k" for t
      using that I(1) r(2) v(1) [of t] fd [of t] unfolding ready_ok_def by auto
    ultimately show ?thesis using I(1) r v(3) by (auto simp: ready_ok_def)
  qed
  moreover have "one_running (switched k)" using I(2) v(1) nf by (auto simp: one_running_def)
  moreover have "waiters_ok (switched k)"
  proof -
    have "next_of k \<notin> set (waiters (sem k s))" for s
    proof
      assume a: "next_of k \<in> set (waiters (sem k s))"
      then have "st k (next_of k) = Some THREAD_BLOCKED" "\<exists>old as. td k (next_of k) = Down_loop s old # as"
        using I(3) by (auto simp: waiters_ok_def)
      then show False using nr I(4) by (auto simp: idle_ok_def idle_act_def)
    qed
    moreover have "\<not> freed k t" if "t \<in> set (waiters (sem k s))" for s t using that I(3) fd [of t] by (auto simp: waiters_ok_def)
    ultimately show ?thesis using I(3) v unfolding waiters_ok_def by (metis switched_fields(6))
  qed
  moreover have "idle_ok (switched k)"
  proof -
    have "\<not> freed k (idle_thread k)" using I(4) by (auto simp: freed_def idle_ok_def)
    then show ?thesis using I(4) v by (auto simp: idle_ok_def)
  qed
  moreover have "births_ok (switched k)"
  proof -
    have sub: "set (td (switched k) t) \<subseteq> set (td k t)" "length (filter P (td (switched k) t)) \<le> length (filter P (td k t))" for t P
      using v(2) by auto
    have p: "st (switched k) pg = st k pg \<and> td (switched k) pg = td k pg" if "a \<in> set (td k t)" "stage pg a" for t pg a
    proof -
      have "if is_init a then st k pg = None else st k pg = Some THREAD_BLOCKED \<and> td k pg = [Set_level True] \<and> pg \<noteq> idle_thread k"
        using I(5) that unfolding births_ok_def by blast
      then have "pg \<noteq> next_of k" "\<not> freed k pg" using n(1) nr fd [of pg] by (auto split: if_splits)
      then show ?thesis using v by simp
    qed
    show ?thesis unfolding births_ok_def
    proof (intro conjI allI impI ballI)
      fix t pg show "length (filter (stage pg) (td (switched k) t)) \<le> 1"
        using I(5) sub(2) [of "stage pg" t] order_trans unfolding births_ok_def by blast
    next
      fix t a assume "a \<in> set (td (switched k) t)" then show "good_act a" using I(5) sub(1) unfolding births_ok_def by blast
    next
      fix t u pg a b assume "a \<in> set (td (switched k) t) \<and> b \<in> set (td (switched k) u) \<and> stage pg a \<and> stage pg b"
      then show "t = u" using I(5) sub(1) unfolding births_ok_def by blast
    next
      fix t pg a assume a: "a \<in> set (td (switched k) t) \<and> stage pg a"
      then have b: "a \<in> set (td k t)" "stage pg a" using sub(1) by auto
      then show "if is_init a then st (switched k) pg = None
          else st (switched k) pg = Some THREAD_BLOCKED \<and> td (switched k) pg = [Set_level True] \<and> pg \<noteq> idle_thread (switched k)"
        using I(5) p [OF b] unfolding births_ok_def by simp
    qed
  qed
  moreover have "loops_ok (switched k)" using I(6) v(2) assms(3) by (auto simp: loops_ok_def)
  ultimately show ?thesis using I(7) by (simp add: threads_ok_def)
qed

section \<open>Steps that keep the invariant\<close>

lemma threads_okD:
  assumes "threads_ok k"
  shows "ready_ok k" "one_running k" "waiters_ok k" "idle_ok k" "births_ok k" "loops_ok k" "\<not> in_external_intr k"
    "st k (running k) = Some THREAD_RUNNING" "thread_current k = Some (running k)"
proof -
  show *: "ready_ok k" "one_running k" "waiters_ok k" "idle_ok k" "births_ok k" "loops_ok k" "\<not> in_external_intr k"
    using assms by (simp_all add: threads_ok_def)
  then show r: "st k (running k) = Some THREAD_RUNNING" by (simp add: one_running_def)
  show "thread_current k = Some (running k)" by (rule current_eq [OF *(1) r])
qed

lemma running_not_waiting: "threads_ok k \<Longrightarrow> running k \<notin> set (waiters (sem k s))"
  using threads_okD(3,8) [of k] by (auto simp: waiters_ok_def)

text \<open>Changing the code of the running thread.\<close>

definition same_but_todo :: "kern \<Rightarrow> kern \<Rightarrow> bool" where
  "same_but_todo k k' \<longleftrightarrow> st k' = st k \<and> mg k' = mg k \<and> ready_list k' = ready_list k \<and> idle_thread k' = idle_thread k
     \<and> running k' = running k \<and> in_external_intr k' = in_external_intr k \<and> (\<forall>t. t \<noteq> running k \<longrightarrow> td k' t = td k t)
     \<and> (\<forall>s. \<exists>n. waiters (sem k' s) = drop n (waiters (sem k s)))"

definition born :: "kern \<Rightarrow> nat \<Rightarrow> bool" where
  "born k pg \<longleftrightarrow> st k pg = Some THREAD_BLOCKED \<and> td k pg = [Set_level True] \<and> pg \<noteq> idle_thread k"

definition no_stage :: "kern \<Rightarrow> nat \<Rightarrow> bool" where
  "no_stage k pg \<longleftrightarrow> (\<forall>t. \<forall>a \<in> set (td k t). \<not> stage pg a)"

lemma todo_step:
  assumes I: "threads_ok k" and S: "same_but_todo k k'"
    and D: "\<forall>s old. Down_loop s old \<notin> set (td k' (running k))"
    and L: "running k = idle_thread k \<Longrightarrow> Idle_loop \<in> set (td k' (running k)) \<and> (\<forall>a \<in> set (td k' (running k)). idle_act a)"
    and L': "running k \<noteq> idle_thread k \<Longrightarrow> Idle_loop \<notin> set (td k' (running k))" "\<forall>a. Idle_start a \<notin> set (td k' (running k))"
    and B: "\<forall>a \<in> set (td k' (running k)). good_act a" "\<forall>pg. length (filter (stage pg) (td k' (running k))) \<le> 1"
      "\<And>pg a. a \<in> set (td k' (running k)) \<Longrightarrow> stage pg a \<Longrightarrow>
         (\<forall>t b. t \<noteq> running k \<longrightarrow> b \<in> set (td k t) \<longrightarrow> \<not> stage pg b) \<and> (if is_init a then st k pg = None else born k pg)"
  shows "threads_ok k'"
proof -
  note i = threads_okD [OF I]
  have e: "st k' = st k" "mg k' = mg k" "ready_list k' = ready_list k" "idle_thread k' = idle_thread k" "running k' = running k"
    "in_external_intr k' = in_external_intr k" "\<And>t. t \<noteq> running k \<Longrightarrow> td k' t = td k t"
    "\<And>s. \<exists>n. waiters (sem k' s) = drop n (waiters (sem k s))" using S by (auto simp: same_but_todo_def)
  have "ready_ok k'" using i(1) e by (simp add: ready_ok_def)
  moreover have "one_running k'" using i(2) e by (simp add: one_running_def)
  moreover have "waiters_ok k'" unfolding waiters_ok_def
  proof (intro allI conjI ballI)
    fix s show "distinct (waiters (sem k' s))" using e(8) [of s] i(3) by (auto simp: waiters_ok_def)
    fix t assume "t \<in> set (waiters (sem k' s))"
    then have t: "t \<in> set (waiters (sem k s))" using e(8) [of s] by (auto dest: in_set_dropD)
    then have "t \<noteq> running k" using running_not_waiting [OF I] by auto
    then show "st k' t = Some THREAD_BLOCKED" "\<exists>old as. td k' t = Down_loop s old # as"
      using t i(3) e(1,7) by (auto simp: waiters_ok_def)
  qed
  moreover have "idle_ok k'" using i(4) e L L' unfolding idle_ok_def by metis
  moreover have "loops_ok k'" using i(6) e D unfolding loops_ok_def by (metis list.set_intros(1) list.set_sel(2) tl_Nil)
  moreover have "births_ok k'"
  proof -
    have born: "born k' pg" if "born k pg" for pg
    proof -
      have "pg \<noteq> running k" using that i(8) by (auto simp: born_def)
      then show ?thesis using that e by (simp add: born_def)
    qed
    have old: "if is_init a then st k pg = None else born k pg" if "a \<in> set (td k t)" "stage pg a" for t pg a
      using i(5) that unfolding births_ok_def born_def by blast
    show ?thesis unfolding births_ok_def
    proof (intro conjI allI impI ballI)
      fix t a assume "a \<in> set (td k' t)"
      then show "good_act a" using i(5) e(7) [of t] B(1) unfolding births_ok_def by (cases "t = running k") auto
    next
      fix t pg show "length (filter (stage pg) (td k' t)) \<le> 1"
        using i(5) e(7) [of t] B(2) unfolding births_ok_def by (cases "t = running k") auto
    next
      fix t u pg a b assume a: "a \<in> set (td k' t) \<and> b \<in> set (td k' u) \<and> stage pg a \<and> stage pg b"
      show "t = u"
      proof (cases "t = running k \<or> u = running k")
        case True
        then show ?thesis using a B(3) e(7) by metis
      next
        case False
        then show ?thesis using a i(5) e(7) unfolding births_ok_def by metis
      qed
    next
      fix t pg a assume a: "a \<in> set (td k' t) \<and> stage pg a"
      have "if is_init a then st k pg = None else born k pg"
        using a B(3) old e(7) by (cases "t = running k") auto
      then show "if is_init a then st k' pg = None else st k' pg = Some THREAD_BLOCKED \<and> td k' pg = [Set_level True] \<and> pg \<noteq> idle_thread k'"
        using born [of pg] e(1) by (simp add: born_def split: if_splits)
    qed
  qed
  ultimately show ?thesis using i(7) e(6) by (simp add: threads_ok_def)
qed

definition plain :: "act \<Rightarrow> bool" where
  "plain a \<longleftrightarrow> (\<forall>pg. \<not> stage pg a) \<and> (\<forall>s old. a \<noteq> Down_loop s old) \<and> a \<noteq> Idle_loop \<and> (\<forall>x. a \<noteq> Idle_start x) \<and> good_act a"

text \<open>The state in which the running thread executes an action.\<close>

definition stepping :: "kern \<Rightarrow> bool" where
  "stepping k \<longleftrightarrow> threads_ok k \<and> (\<forall>s old. Down_loop s old \<notin> set (td k (running k))) \<and> running k \<noteq> idle_thread k"

lemma filter_plain: "list_all plain xs \<Longrightarrow> filter (stage pg) xs = []"
  by (auto simp: filter_empty_conv list_all_iff plain_def)

lemma pop_ok:
  assumes "threads_ok k" "td k (running k) = a # as" "a \<noteq> Idle_loop"
  shows "threads_ok (set_todo (running k) as k)" "\<forall>s old. Down_loop s old \<notin> set (td (set_todo (running k) as k) (running k))"
proof -
  note i = threads_okD [OF assms(1)]
  let ?k = "set_todo (running k) as k"
  have t: "td ?k (running k) = as" using i(8) by simp
  show D: "\<forall>s old. Down_loop s old \<notin> set (td ?k (running k))" using i(6) assms(2) t unfolding loops_ok_def by (metis list.sel(3))
  have B: "\<forall>a \<in> set (a # as). good_act a" "length (filter (stage pg) (a # as)) \<le> 1"
    "b \<in> set (a # as) \<Longrightarrow> stage pg b \<Longrightarrow> (\<forall>t c. t \<noteq> running k \<longrightarrow> c \<in> set (td k t) \<longrightarrow> \<not> stage pg c) \<and> (if is_init b then st k pg = None else born k pg)"
    for pg b using i(5) assms(2) unfolding births_ok_def born_def by metis+
  show "threads_ok ?k"
  proof (rule todo_step [OF assms(1)])
    show "same_but_todo k ?k" by (auto simp: same_but_todo_def intro: exI [of _ 0])
    show "\<forall>pg. length (filter (stage pg) (td ?k (running k))) \<le> 1"
    proof
      fix pg show "length (filter (stage pg) (td ?k (running k))) \<le> 1" unfolding t using B(2) [of pg] by (cases "stage pg a") auto
    qed
    show "\<forall>s old. Down_loop s old \<notin> set (td ?k (running k))" by (rule D)
    show "running k = idle_thread k \<Longrightarrow> Idle_loop \<in> set (td ?k (running k)) \<and> (\<forall>a \<in> set (td ?k (running k)). idle_act a)"
      using i(4) assms(2,3) t unfolding idle_ok_def by auto
    show "running k \<noteq> idle_thread k \<Longrightarrow> Idle_loop \<notin> set (td ?k (running k))" "\<forall>a. Idle_start a \<notin> set (td ?k (running k))"
      using i(4) assms(2) t unfolding idle_ok_def by (metis list.set_intros(2))+
    show "\<forall>a \<in> set (td ?k (running k)). good_act a" using B(1) t by simp
    fix pg b assume b: "b \<in> set (td ?k (running k))" "stage pg b"
    then have "b \<in> set (a # as)" using t by simp
    then show "(\<forall>t c. t \<noteq> running k \<longrightarrow> c \<in> set (td k t) \<longrightarrow> \<not> stage pg c) \<and> (if is_init b then st k pg = None else born k pg)"
      using b(2) by (rule B(3))
  qed
qed

text \<open>More code for the running thread, of which at most the last action creates a thread.\<close>

lemma stepping_todo:
  assumes "stepping k" "same_but_todo k k'" "td k' (running k) = xs @ ys @ td k (running k)" "list_all plain xs"
    and "ys = [] \<or> (\<exists>b pg. ys = [b] \<and> stage pg b \<and> \<not> is_init b \<and> good_act b \<and> no_stage k pg \<and> born k pg)"
  shows "stepping k'"
proof -
  have I: "threads_ok k" "\<forall>s old. Down_loop s old \<notin> set (td k (running k))" "running k \<noteq> idle_thread k"
    using assms(1) by (simp_all add: stepping_def)
  note i = threads_okD [OF I(1)]
  have y: "b \<in> set ys \<Longrightarrow> (\<exists>pg. stage pg b) \<and> \<not> is_init b \<and> good_act b \<and> (\<forall>pg. stage pg b \<longrightarrow> no_stage k pg \<and> born k pg)" for b
  proof -
    assume "b \<in> set ys"
    then obtain pg where b: "stage pg b" "\<not> is_init b" "good_act b" "no_stage k pg" "born k pg" using assms(5) by auto
    moreover have "pg' = pg" if "stage pg' b" for pg' using that b(1) by (cases b) auto
    ultimately show ?thesis by blast
  qed
  then have y': "b \<in> set ys \<Longrightarrow> (\<forall>s old. b \<noteq> Down_loop s old) \<and> b \<noteq> Idle_loop \<and> (\<forall>x. b \<noteq> Idle_start x)" for b
    by fastforce
  have x: "b \<in> set xs \<Longrightarrow> plain b" for b using assms(4) by (simp add: list_all_iff)
  have N: "Down_loop s old \<notin> set xs \<union> set ys" "Idle_loop \<notin> set xs \<union> set ys" "Idle_start z \<notin> set xs \<union> set ys" for s old z
    using x [of "Down_loop s old"] x [of Idle_loop] x [of "Idle_start z"] y' [of "Down_loop s old"] y' [of Idle_loop] y' [of "Idle_start z"]
    by (auto simp: plain_def)
  have D: "\<forall>s old. Down_loop s old \<notin> set (td k' (running k))"
    unfolding assms(3) using I(2) N(1) by auto
  have "threads_ok k'"
  proof (rule todo_step [OF I(1) assms(2) D])
    show "running k = idle_thread k \<Longrightarrow> Idle_loop \<in> set (td k' (running k)) \<and> (\<forall>a \<in> set (td k' (running k)). idle_act a)" using I(3) by simp
    show "running k \<noteq> idle_thread k \<Longrightarrow> Idle_loop \<notin> set (td k' (running k))" "\<forall>a. Idle_start a \<notin> set (td k' (running k))"
      unfolding assms(3) using i(4) N(2,3) by (auto simp: idle_ok_def)
    show "\<forall>a \<in> set (td k' (running k)). good_act a" unfolding assms(3) using i(5) x y by (auto simp: plain_def births_ok_def)
    show "\<forall>pg. length (filter (stage pg) (td k' (running k))) \<le> 1"
    proof
      fix pg
      have o: "length (filter (stage pg) (td k (running k))) \<le> 1" using i(5) by (simp add: births_ok_def)
      show "length (filter (stage pg) (td k' (running k))) \<le> 1"
      proof (cases "\<exists>b. ys = [b] \<and> stage pg b")
        case True
        then have "no_stage k pg" using y by auto
        then have "filter (stage pg) (td k (running k)) = []" by (auto simp: filter_empty_conv no_stage_def)
        then show ?thesis unfolding assms(3) using True filter_plain [OF assms(4)] by auto
      next
        case False
        then have "filter (stage pg) ys = []" using assms(5) by (auto simp: filter_empty_conv)
        then show ?thesis unfolding assms(3) using o filter_plain [OF assms(4)] by simp
      qed
    qed
    fix pg a assume a: "a \<in> set (td k' (running k))" "stage pg a"
    then consider "a \<in> set ys" | "a \<in> set (td k (running k))" unfolding assms(3) using x by (auto simp: plain_def)
    then show "(\<forall>t b. t \<noteq> running k \<longrightarrow> b \<in> set (td k t) \<longrightarrow> \<not> stage pg b) \<and> (if is_init a then st k pg = None else born k pg)"
    proof cases
      case 1 then show ?thesis using y a(2) by (auto simp: no_stage_def)
    next
      case 2 then show ?thesis using i(5) a(2) unfolding births_ok_def born_def by metis
    qed
  qed
  then show ?thesis using D assms(2) I(3) by (simp add: stepping_def same_but_todo_def)
qed

lemma stepping_call: "stepping k \<Longrightarrow> list_all plain xs \<Longrightarrow> stepping (call xs k)"
  using threads_okD(8) [of k] by (intro stepping_todo [of k "call xs k" xs "[]"]) (auto simp: stepping_def same_but_todo_def intro: exI [of _ 0])

lemma stepping_stage:
  assumes "stepping k" "list_all plain xs" "stage pg b" "\<not> is_init b" "good_act b" "no_stage k pg" "born k pg"
  shows "stepping (call (xs @ [b]) k)"
  using assms threads_okD(8) [of k]
  by (intro stepping_todo [of k "call (xs @ [b]) k" xs "[b]"]) (auto simp: stepping_def same_but_todo_def intro: exI [of _ 0])

lemma stepping_same: "stepping k \<Longrightarrow> same_but_todo k k' \<Longrightarrow> td k' = td k \<Longrightarrow> stepping k'"
  by (rule stepping_todo [of k k' "[]" "[]"]) auto

section \<open>Leaving the processor\<close>

lemma leave_running:
  assumes I: "threads_ok k" and x: "x \<noteq> THREAD_RUNNING" "x = THREAD_DYING \<Longrightarrow> running k \<noteq> idle_thread k"
    and s: "st k' = (st k)(running k := Some x)" "mg k' = mg k" "idle_thread k' = idle_thread k" "in_external_intr k' = in_external_intr k"
    and r: "ready_list k' = (if x = THREAD_READY \<and> running k \<noteq> idle_thread k then ready_list k @ [running k] else ready_list k)"
    and t: "\<And>t. t \<noteq> running k \<Longrightarrow> td k' t = td k t"
    and w: "\<And>s. waiters (sem k' s) = waiters (sem k s) \<or>
      waiters (sem k' s) = waiters (sem k s) @ [running k] \<and> x = THREAD_BLOCKED \<and> (\<exists>old as. td k' (running k) = Down_loop s old # as)"
    and d: "\<forall>s old. Down_loop s old \<notin> set (tl (td k' (running k)))"
    and l: "running k = idle_thread k \<Longrightarrow> Idle_loop \<in> set (td k' (running k)) \<and> (\<forall>a \<in> set (td k' (running k)). idle_act a)"
      "running k \<noteq> idle_thread k \<Longrightarrow> Idle_loop \<notin> set (td k' (running k))" "\<forall>a. Idle_start a \<notin> set (td k' (running k))"
    and b: "\<forall>a \<in> set (td k' (running k)). good_act a" "\<forall>pg. filter (stage pg) (td k' (running k)) = filter (stage pg) (td k (running k))"
  shows "between k'"
proof -
  note i = threads_okD [OF I]
  have "ready_ok k'"
  proof -
    have "running k \<notin> set (ready_list k)" using i(1,8) unfolding ready_ok_def by (cases "running k = idle_thread k") auto
    moreover have "0 < running k" using i(1,8) unfolding ready_ok_def by (cases "running k = 0") auto
    ultimately show ?thesis using i(1,8) s r x(1) unfolding ready_ok_def by (auto split: if_splits)
  qed
  moreover have "\<forall>t. st k' t \<noteq> Some THREAD_RUNNING" using i(2) s(1) x(1) by (auto simp: one_running_def)
  moreover have "waiters_ok k'" unfolding waiters_ok_def
  proof (intro allI conjI ballI)
    fix s show "distinct (waiters (sem k' s))"
      using w [of s] i(3) running_not_waiting [OF I, of s] by (auto simp: waiters_ok_def)
    fix u assume u: "u \<in> set (waiters (sem k' s))"
    show "st k' u = Some THREAD_BLOCKED" "\<exists>old as. td k' u = Down_loop s old # as"
    proof (atomize(full), cases "u \<in> set (waiters (sem k s))")
      case True
      then have "u \<noteq> running k" using running_not_waiting [OF I, of s] by auto
      then show "st k' u = Some THREAD_BLOCKED \<and> (\<exists>old as. td k' u = Down_loop s old # as)"
        using True i(3) s(1) t [of u] by (auto simp: waiters_ok_def)
    next
      case False
      then show "st k' u = Some THREAD_BLOCKED \<and> (\<exists>old as. td k' u = Down_loop s old # as)"
        using u w [of s] s(1) by auto
    qed
  qed
  moreover have "idle_ok k'"
  proof -
    have "st k' (idle_thread k) \<noteq> None" "st k' (idle_thread k) \<noteq> Some THREAD_DYING"
      using i(4) s(1) x by (auto simp: idle_ok_def)
    moreover have "Idle_loop \<in> set (td k' (idle_thread k)) \<and> (\<forall>a \<in> set (td k' (idle_thread k)). idle_act a)"
      using i(4) l(1) t by (cases "running k = idle_thread k") (auto simp: idle_ok_def)
    moreover have "Idle_loop \<notin> set (td k' u)" if "u \<noteq> idle_thread k" for u
      using i(4) l(2) t that by (cases "u = running k") (auto simp: idle_ok_def)
    moreover have "Idle_start a \<notin> set (td k' u)" for u a
      using i(4) l(3) t by (cases "u = running k") (auto simp: idle_ok_def)
    ultimately show ?thesis using s(3) by (simp add: idle_ok_def)
  qed
  moreover have "births_ok k'"
  proof -
    have f: "filter (stage pg) (td k' u) = filter (stage pg) (td k u)" for pg u using b(2) t by (cases "u = running k") auto
    have m: "a \<in> set (td k' u) \<and> stage pg a \<longleftrightarrow> a \<in> set (td k u) \<and> stage pg a" for a u pg
      using arg_cong [OF f [of pg u], of set] by auto
    have p: "st k' pg = st k pg \<and> td k' pg = td k pg" if "a \<in> set (td k u)" "stage pg a" for a u pg
    proof -
      have "if is_init a then st k pg = None else st k pg = Some THREAD_BLOCKED" using i(5) that unfolding births_ok_def by metis
      then have "pg \<noteq> running k" using i(8) by (auto split: if_splits)
      then show ?thesis using s(1) t by simp
    qed
    have g: "\<forall>a \<in> set (td k' u). good_act a" for u using b(1) t i(5) unfolding births_ok_def by (cases "u = running k") auto
    show ?thesis unfolding births_ok_def
    proof (intro conjI allI impI ballI)
      fix u a assume "a \<in> set (td k' u)" then show "good_act a" using g by blast
    next
      fix u pg show "length (filter (stage pg) (td k' u)) \<le> 1" using i(5) unfolding f births_ok_def by blast
    next
      fix u v pg a c assume "a \<in> set (td k' u) \<and> c \<in> set (td k' v) \<and> stage pg a \<and> stage pg c"
      then have "a \<in> set (td k u)" "c \<in> set (td k v)" "stage pg a" "stage pg c" using m by blast+
      then show "u = v" using i(5) unfolding births_ok_def by blast
    next
      fix u pg a assume "a \<in> set (td k' u) \<and> stage pg a"
      then have a: "a \<in> set (td k u)" "stage pg a" using m by blast+
      then show "if is_init a then st k' pg = None else st k' pg = Some THREAD_BLOCKED \<and> td k' pg = [Set_level True] \<and> pg \<noteq> idle_thread k'"
        using i(5) p [OF a] s(3) unfolding births_ok_def by simp
    qed
  qed
  moreover have "\<forall>t s old. Down_loop s old \<notin> set (tl (td k' t))" using i(6) d t unfolding loops_ok_def by metis
  ultimately show ?thesis using i(7) s(4) by (simp add: between_def)
qed

definition blocked :: "sref \<Rightarrow> bool \<Rightarrow> kern \<Rightarrow> kern" where
  "blocked s old k = set_status (running k) THREAD_BLOCKED
     (call [Down_loop s old] (set_sem s ((sem k s)\<lparr>waiters := waiters (sem k s) @ [running k]\<rparr>) k))"

lemma blocked_views:
  assumes "threads_ok k"
  shows "st (blocked s old k) = (st k)(running k := Some THREAD_BLOCKED)"
    "td (blocked s old k) = (td k)(running k := Down_loop s old # td k (running k))" "mg (blocked s old k) = mg k"
  using threads_okD(8) [OF assms]
  by (auto simp: blocked_def st_def td_def mg_def set_status_def call_def upd_thread_def fun_eq_iff split: option.splits)

lemma sleep_in_sema_down:
  assumes "stepping k" "\<not> intr_on k" "sema_value (sem k s) = 0"
  shows "down_loop s old k = Some (switched (blocked s old k))" "threads_ok (switched (blocked s old k))"
proof -
  have I: "threads_ok k" "\<forall>s old. Down_loop s old \<notin> set (td k (running k))" "running k \<noteq> idle_thread k"
    using assms(1) by (simp_all add: stepping_def)
  note i = threads_okD [OF I(1)]
  note v = blocked_views [OF I(1), of s old]
  let ?k = "call [Down_loop s old] (set_sem s ((sem k s)\<lparr>waiters := waiters (sem k s) @ [running k]\<rparr>) k)"
  have e: "sem (blocked s old k) = (sem k)(s := (sem k s)\<lparr>waiters := waiters (sem k s) @ [running k]\<rparr>)"
    "idle_thread (blocked s old k) = idle_thread k" "in_external_intr (blocked s old k) = in_external_intr k"
    "ready_list (blocked s old k) = ready_list k" "running (blocked s old k) = running k" "intr_on (blocked s old k) = intr_on k"
    by (simp_all add: blocked_def)
  have B: "between (blocked s old k)"
  proof (rule leave_running [OF I(1), of THREAD_BLOCKED])
    show "\<forall>a\<in>set (td (blocked s old k) (running k)). good_act a" using v i(5) unfolding births_ok_def by auto
    show "\<forall>a. Idle_start a \<notin> set (td (blocked s old k) (running k))" "Idle_loop \<notin> set (td (blocked s old k) (running k))"
      using v i(4) I(3) unfolding idle_ok_def by auto
  qed (use v I e in auto)
  then show "threads_ok (switched (blocked s old k))" using v(1) assms(2) e by (simp add: switched_ok)
  have "thread_current ?k = Some (running k)"
    by (subst current_eq) (use i(1,8) in \<open>auto simp: ready_ok_def st_def mg_def call_def upd_thread_def split: option.splits\<close>)
  then have "thread_block ?k = schedule (blocked s old k)" using i(7) assms(2) by (simp add: thread_block_def blocked_def)
  moreover have "schedule (blocked s old k) = Some (switched (blocked s old k))" by (rule schedule_eq [OF B]) (use v(1) assms(2) e in simp_all)
  ultimately show "down_loop s old k = Some (switched (blocked s old k))"
    using assms(3) i(9) by (simp add: down_loop_def)
qed

definition yielded :: "kern \<Rightarrow> kern" where
  "yielded k = (let k' = (call [Set_level (intr_on k)] k)\<lparr>intr_on := False\<rparr> in
     set_status (running k) THREAD_READY (if running k \<noteq> idle_thread k then k'\<lparr>ready_list := ready_list k @ [running k]\<rparr> else k'))"

lemma yielded_views:
  assumes "threads_ok k"
  shows "st (yielded k) = (st k)(running k := Some THREAD_READY)"
    "td (yielded k) = (td k)(running k := Set_level (intr_on k) # td k (running k))" "mg (yielded k) = mg k"
  using threads_okD(8) [OF assms] by (auto simp: yielded_def Let_def st_def td_def mg_def set_status_def call_def upd_thread_def fun_eq_iff split: option.splits)

lemma yield_ok:
  assumes "threads_ok k" "\<forall>s old. Down_loop s old \<notin> set (td k (running k))"
  shows "thread_yield k = Some (switched (yielded k))" "threads_ok (switched (yielded k))"
proof -
  note i = threads_okD [OF assms(1)]
  note v = yielded_views [OF assms(1)]
  have e: "sem (yielded k) = sem k" "idle_thread (yielded k) = idle_thread k" "in_external_intr (yielded k) = in_external_intr k"
    "ready_list (yielded k) = (if running k = idle_thread k then ready_list k else ready_list k @ [running k])"
    "running (yielded k) = running k" "\<not> intr_on (yielded k)"
    by (simp_all add: yielded_def Let_def)
  have B: "between (yielded k)"
  proof (rule leave_running [OF assms(1), of THREAD_READY])
    show "\<forall>a\<in>set (td (yielded k) (running k)). good_act a" using v i(5) unfolding births_ok_def by auto
    show "\<forall>a. Idle_start a \<notin> set (td (yielded k) (running k))"
      "running k = idle_thread k \<Longrightarrow> Idle_loop \<in> set (td (yielded k) (running k)) \<and> (\<forall>a \<in> set (td (yielded k) (running k)). idle_act a)"
      "running k \<noteq> idle_thread k \<Longrightarrow> Idle_loop \<notin> set (td (yielded k) (running k))"
      using v i(4) unfolding idle_ok_def by (auto simp: idle_act_def)
  qed (use v e assms(2) in auto)
  then show "threads_ok (switched (yielded k))" using v(1) e by (simp add: switched_ok)
  have "schedule (yielded k) = Some (switched (yielded k))" by (rule schedule_eq [OF B]) (use v(1) e in simp_all)
  moreover have "thread_yield k = schedule (yielded k)" using i(7,9) by (simp add: thread_yield_def yielded_def Let_def)
  ultimately show "thread_yield k = Some (switched (yielded k))" by simp
qed

definition idled :: "kern \<Rightarrow> kern" where
  "idled k = set_status (running k) THREAD_BLOCKED (call [Set_level True, Idle_loop] (k\<lparr>intr_on := False\<rparr>))"

lemma idle_block_ok:
  assumes "threads_ok k" "td k (running k) = Idle_loop # as"
  shows "run_act Idle_loop (set_todo (running k) as k) = Some (switched (idled (set_todo (running k) as k)))"
    "threads_ok (switched (idled (set_todo (running k) as k)))"
proof -
  note i = threads_okD [OF assms(1)]
  let ?k = "idled (set_todo (running k) as k)"
  let ?c = "call [Set_level True, Idle_loop] ((set_todo (running k) as k)\<lparr>intr_on := False\<rparr>)"
  have r: "running k = idle_thread k" using i(4) assms(2) unfolding idle_ok_def by (metis list.set_intros(1))
  have v: "st ?k = (st k)(running k := Some THREAD_BLOCKED)" "td ?k = (td k)(running k := Set_level True # Idle_loop # as)" "mg ?k = mg k"
    using i(8) by (auto simp: idled_def st_def td_def mg_def set_status_def set_todo_def call_def upd_thread_def fun_eq_iff split: option.splits)
  have e: "sem ?k = sem k" "idle_thread ?k = idle_thread k" "in_external_intr ?k = in_external_intr k"
    "ready_list ?k = ready_list k" "running ?k = running k" "\<not> intr_on ?k" by (simp_all add: idled_def)
  have a: "\<forall>a \<in> set as. idle_act a" using i(4) r assms(2) unfolding idle_ok_def by (metis list.set_intros(2))
  have a': "x \<in> set as \<Longrightarrow> good_act x" "Down_loop s old \<notin> set as" "Idle_start x' \<notin> set as" for x s old x'
    using bspec [OF a, of x] bspec [OF a, of "Down_loop s old"] bspec [OF a, of "Idle_start x'"] by (auto simp: idle_act_def)
  have B: "between ?k"
  proof (rule leave_running [OF assms(1), of THREAD_BLOCKED])
    show "\<forall>a\<in>set (td ?k (running k)). good_act a" using v a' by auto
    show "\<forall>s old. Down_loop s old \<notin> set (tl (td ?k (running k)))" "\<forall>a. Idle_start a \<notin> set (td ?k (running k))"
      "running k = idle_thread k \<Longrightarrow> Idle_loop \<in> set (td ?k (running k)) \<and> (\<forall>a \<in> set (td ?k (running k)). idle_act a)"
      using v a a' by (auto simp: idle_act_def)
  qed (use v e assms(2) r in auto)
  then show "threads_ok (switched ?k)" using v(1) e by (simp add: switched_ok)
  have "schedule ?k = Some (switched ?k)" by (rule schedule_eq [OF B]) (use v(1) e in simp_all)
  moreover have "thread_current ?c = Some (running k)"
    by (subst current_eq) (use i(1,8) in \<open>auto simp: ready_ok_def st_def mg_def set_todo_def call_def upd_thread_def split: option.splits\<close>)
  ultimately show "run_act Idle_loop (set_todo (running k) as k) = Some (switched ?k)"
    using i(7) by (simp add: thread_block_def idled_def)
qed

lemma exit_ok:
  assumes "stepping k" "\<not> intr_on k"
  shows "schedule (set_status (running k) THREAD_DYING k) = Some (switched (set_status (running k) THREAD_DYING k))"
    "threads_ok (switched (set_status (running k) THREAD_DYING k))"
proof -
  have I: "threads_ok k" "\<forall>s old. Down_loop s old \<notin> set (td k (running k))" "running k \<noteq> idle_thread k"
    using assms(1) by (simp_all add: stepping_def)
  note i = threads_okD [OF I(1)]
  have B: "between (set_status (running k) THREAD_DYING k)"
  proof (rule leave_running [OF I(1), of THREAD_DYING])
    show "\<forall>s old. Down_loop s old \<notin> set (tl (td (set_status (running k) THREAD_DYING k) (running k)))" using I(2) by (cases "td k (running k)") auto
  qed (use I i(4,5,8) in \<open>auto simp: idle_ok_def births_ok_def\<close>)
  then show "threads_ok (switched (set_status (running k) THREAD_DYING k))" using assms(2) i(8) by (simp add: switched_ok)
  show "schedule (set_status (running k) THREAD_DYING k) = Some (switched (set_status (running k) THREAD_DYING k))"
    by (rule schedule_eq [OF B]) (use assms(2) i(8) in simp_all)
qed

section \<open>Waking and creating threads\<close>

definition woken :: "nat \<Rightarrow> kern \<Rightarrow> kern" where
  "woken t k = set_status t THREAD_READY (k\<lparr>ready_list := ready_list k @ [t]\<rparr>)"

lemma unblock_ok:
  assumes I: "threads_ok k" and t: "st k t = Some THREAD_BLOCKED" "t \<noteq> idle_thread k" "\<And>s. t \<notin> set (waiters (sem k s))" "no_stage k t"
  shows "thread_unblock t k = Some (woken t k)" "threads_ok (woken t k)"
    "st (woken t k) = (st k)(t := Some THREAD_READY)" "td (woken t k) = td k" "running (woken t k) = running k"
    "idle_thread (woken t k) = idle_thread k" "sem (woken t k) = sem k"
proof -
  note i = threads_okD [OF I]
  have t0: "t \<noteq> 0" using t(1) i(1) by (auto simp: ready_ok_def intro: ccontr)
  show "thread_unblock t k = Some (woken t k)"
    using t(1) t0 i(1) by (auto simp: thread_unblock_def is_thread_def woken_def st_def ready_ok_def mg_def split: option.splits)
  show v: "st (woken t k) = (st k)(t := Some THREAD_READY)" "td (woken t k) = td k" "running (woken t k) = running k"
    "idle_thread (woken t k) = idle_thread k" "sem (woken t k) = sem k" using t(1) by (simp_all add: woken_def)
  have w: "ready_list (woken t k) = ready_list k @ [t]" "mg (woken t k) = mg k" "intr_on (woken t k) = intr_on k"
    "in_external_intr (woken t k) = in_external_intr k" by (simp_all add: woken_def)
  have "t \<notin> set (ready_list k)" using i(1) t(1,2) unfolding ready_ok_def by auto
  then have "ready_ok (woken t k)" using i(1) t(2) t0 v w unfolding ready_ok_def by auto
  moreover have "t \<noteq> running k" using i(8) t(1) by auto
  then have "one_running (woken t k)" using i(2) v unfolding one_running_def by simp
  moreover have "waiters_ok (woken t k)" using i(3) t(3) v unfolding waiters_ok_def by auto
  moreover have "idle_ok (woken t k)" using i(4) t(2) v unfolding idle_ok_def by auto
  moreover have "births_ok (woken t k)"
  proof -
    have "pg \<noteq> t" if "a \<in> set (td k u)" "stage pg a" for a u pg using that t(4) by (auto simp: no_stage_def)
    then show ?thesis using i(5) v unfolding births_ok_def by auto
  qed
  moreover have "loops_ok (woken t k)" using i(6) v w unfolding loops_ok_def by simp
  ultimately show "threads_ok (woken t k)" using i(7) w by (simp add: threads_ok_def)
qed

text \<open>\<open>sema_up\<close> makes the first waiter ready.\<close>

definition upped :: "sref \<Rightarrow> kern \<Rightarrow> kern" where
  "upped s k = (let k' = (case waiters (sem k s) of [] \<Rightarrow> k | t # ts \<Rightarrow> woken t (set_sem s ((sem k s)\<lparr>waiters := ts\<rparr>) k))
     in set_sem s ((sem k' s)\<lparr>sema_value := sz (sema_value (sem k s) + 1)\<rparr>) k')"

lemma waiter_not_born:
  assumes "threads_ok k" "t \<in> set (waiters (sem k s))"
  shows "no_stage k t" "t \<noteq> idle_thread k" "\<And>s'. t \<in> set (waiters (sem k s')) \<Longrightarrow> s' = s"
proof -
  note i = threads_okD [OF assms(1)]
  have w: "st k t = Some THREAD_BLOCKED" "\<exists>old as. td k t = Down_loop s old # as" using i(3) assms(2) by (auto simp: waiters_ok_def)
  show "no_stage k t" unfolding no_stage_def
  proof (intro allI ballI notI)
    fix u a assume a: "a \<in> set (td k u)" "stage t a"
    then have "if is_init a then st k t = None else td k t = [Set_level True]" using i(5) unfolding births_ok_def by metis
    then show False using w by (auto split: if_splits)
  qed
  show "t \<noteq> idle_thread k" using w(2) i(4) by (auto simp: idle_ok_def idle_act_def)
  show "s' = s" if "t \<in> set (waiters (sem k s'))" for s'
  proof -
    have "\<exists>old as. td k t = Down_loop s' old # as" using i(3) that by (auto simp: waiters_ok_def)
    then show ?thesis using w(2) by auto
  qed
qed

lemma fewer_waiters:
  assumes "threads_ok k" "same_but_todo k k'" "td k' = td k" "intr_on k' = intr_on k"
  shows "threads_ok k'"
proof -
  note i = threads_okD [OF assms(1)]
  have e: "st k' = st k" "mg k' = mg k" "ready_list k' = ready_list k" "idle_thread k' = idle_thread k" "running k' = running k"
    "in_external_intr k' = in_external_intr k" "\<And>s. \<exists>n. waiters (sem k' s) = drop n (waiters (sem k s))"
    using assms(2) by (auto simp: same_but_todo_def)
  have "waiters_ok k'" unfolding waiters_ok_def
  proof (intro allI conjI ballI)
    fix s show "distinct (waiters (sem k' s))" using e(7) [of s] i(3) by (auto simp: waiters_ok_def)
    fix t assume "t \<in> set (waiters (sem k' s))"
    then have "t \<in> set (waiters (sem k s))" using e(7) [of s] by (auto dest: in_set_dropD)
    then show "st k' t = Some THREAD_BLOCKED" "\<exists>old as. td k' t = Down_loop s old # as"
      using i(3) e(1) assms(3) by (auto simp: waiters_ok_def)
  qed
  moreover have "ready_ok k'" "one_running k'" using i(1,2) e by (simp_all add: ready_ok_def one_running_def)
  moreover have "idle_ok k'" using i(4) unfolding idle_ok_def e assms(3) .
  moreover have "births_ok k'" using i(5) unfolding births_ok_def e assms(3) .
  moreover have "loops_ok k'" using i(6) unfolding loops_ok_def e assms(3,4) .
  ultimately show ?thesis using i(7) e(6) by (simp add: threads_ok_def)
qed

lemma sema_up_ok:
  assumes "threads_ok k"
  shows "sema_up s k = Some (upped s k)" "threads_ok (upped s k)"
    "td (upped s k) = td k" "running (upped s k) = running k" "idle_thread (upped s k) = idle_thread k" "intr_on (upped s k) = intr_on k"
    "in_external_intr (upped s k) = in_external_intr k"
proof -
  note i = threads_okD [OF assms]
  let ?e = "sema_up s k = Some (upped s k) \<and> threads_ok (upped s k) \<and> td (upped s k) = td k \<and> running (upped s k) = running k
    \<and> idle_thread (upped s k) = idle_thread k \<and> intr_on (upped s k) = intr_on k \<and> in_external_intr (upped s k) = in_external_intr k"
  have f: "threads_ok (set_sem s ((sem k' s)\<lparr>sema_value := v\<rparr>) k')" if "threads_ok k'" for k' v
    by (rule fewer_waiters [OF that]) (auto simp: same_but_todo_def st_def td_def mg_def fun_eq_iff intro: exI [of _ 0])
  have ?e
  proof (cases "waiters (sem k s)")
    case Nil
    then show ?thesis using f [OF assms] by (auto simp: sema_up_def upped_def st_def td_def fun_eq_iff)
  next
    case (Cons t ts)
    let ?k = "set_sem s ((sem k s)\<lparr>waiters := ts\<rparr>) k"
    have d: "distinct (t # ts)" using i(3) Cons by (metis waiters_ok_def)
    have t: "t \<in> set (waiters (sem k s))" using Cons by simp
    note n = waiter_not_born [OF assms t]
    have v: "st ?k = st k" "td ?k = td k" by (simp_all add: st_def td_def fun_eq_iff)
    have "\<exists>n. waiters (sem ?k s') = drop n (waiters (sem k s'))" for s'
      using Cons by (cases "s' = s") (auto intro: exI [of _ 0] exI [of _ 1])
    then have k: "threads_ok ?k"
      by (intro fewer_waiters [OF assms]) (auto simp: same_but_todo_def st_def td_def mg_def fun_eq_iff)
    have "t \<notin> set (waiters (sem ?k s'))" for s' using d n(3) [of s'] by auto
    moreover have "st k t = Some THREAD_BLOCKED" using i(3) t by (auto simp: waiters_ok_def)
    moreover have "no_stage ?k t" using n(1) by (simp add: no_stage_def v)
    ultimately have u: "thread_unblock t ?k = Some (woken t ?k)" "threads_ok (woken t ?k)"
      "td (woken t ?k) = td k" "running (woken t ?k) = running k" "idle_thread (woken t ?k) = idle_thread k" "sem (woken t ?k) = sem ?k"
      using unblock_ok [OF k, of t] n(2) v by simp_all
    moreover have "intr_on (woken t ?k) = intr_on k" "in_external_intr (woken t ?k) = in_external_intr k" by (simp_all add: woken_def)
    moreover have "td (set_sem s x (woken t ?k)) = td k" for x using u(3) by (simp add: td_def fun_eq_iff)
    ultimately show ?thesis using f [OF u(2), of "sz (sema_value (sem k s) + 1)"] Cons by (simp add: sema_up_def upped_def)
  qed
  then show "sema_up s k = Some (upped s k)" "threads_ok (upped s k)"
    "td (upped s k) = td k" "running (upped s k) = running k" "idle_thread (upped s k) = idle_thread k" "intr_on (upped s k) = intr_on k"
    "in_external_intr (upped s k) = in_external_intr k" by auto
qed

lemma init_ok:
  assumes I: "threads_ok k" and D: "\<forall>s old. Down_loop s old \<notin> set (td k (running k))"
    and p: "st k pg = None" "no_stage k pg" "init_thread pg name pri [Set_level True] k = Some k'"
  shows "threads_ok k'" "td k' = (td k)(pg := [Set_level True])" "st k' = (st k)(pg := Some THREAD_BLOCKED)" "running k' = running k"
    "idle_thread k' = idle_thread k" "pg \<noteq> running k" "pg \<noteq> idle_thread k"
proof -
  note i = threads_okD [OF I]
  have pg: "pg \<noteq> 0" using p(3) by (simp add: init_thread_def split: if_splits)
  have e: "threads k' = (threads k)(pg \<mapsto> \<lparr>tid = 0, status = THREAD_BLOCKED, tname = first_word name, priority = pri, o_wait_status = 0,
         o_children_wait_status_list = [], has_pagedir = False, magic = THREAD_MAGIC, todo = [Set_level True], ret = 0\<rparr>)"
    "ready_list k' = ready_list k" "sem k' = sem k" "in_external_intr k' = in_external_intr k" "intr_on k' = intr_on k"
    using p(3) by (auto simp: init_thread_def split: if_splits)
  show r: "running k' = running k" "idle_thread k' = idle_thread k" using p(3) by (auto simp: init_thread_def split: if_splits)
  show v: "st k' = (st k)(pg := Some THREAD_BLOCKED)" "td k' = (td k)(pg := [Set_level True])"
    by (auto simp: st_def td_def e(1) fun_eq_iff)
  have m: "mg k' t" if "mg k t" for t using that by (simp add: mg_def e(1))
  show n: "pg \<noteq> running k" "pg \<noteq> idle_thread k" using p(1) i(4,8) by (auto simp: idle_ok_def)
  have "ready_ok k'" using i(1) n p(1) pg e v r m unfolding ready_ok_def by auto
  moreover have "one_running k'" using i(2) n v r unfolding one_running_def by auto
  moreover have "waiters_ok k'"
  proof -
    have "pg \<notin> set (waiters (sem k s))" for s using i(3) p(1) by (auto simp: waiters_ok_def)
    then show ?thesis using i(3) v e(3) unfolding waiters_ok_def by auto
  qed
  moreover have "idle_ok k'" using i(4) n v r unfolding idle_ok_def by auto
  moreover have "births_ok k'"
  proof -
    have old: "td k pg = []" using p(1) by (rule td_dead)
    have q: "pg' \<noteq> pg" if "a \<in> set (td k u)" "stage pg' a" for a u pg' using that p(2) by (auto simp: no_stage_def)
    have m: "a \<in> set (td k u)" if "a \<in> set (td k' u)" "stage pg' a" for a u pg' using that v(2) by (cases "u = pg") auto
    show ?thesis unfolding births_ok_def
    proof (intro conjI allI impI ballI)
      fix u a assume "a \<in> set (td k' u)" then show "good_act a" using i(5) v(2) unfolding births_ok_def by (cases "u = pg") auto
    next
      fix u pg' show "length (filter (stage pg') (td k' u)) \<le> 1" using i(5) v(2) unfolding births_ok_def by simp
    next
      fix u w pg' a c assume "a \<in> set (td k' u) \<and> c \<in> set (td k' w) \<and> stage pg' a \<and> stage pg' c"
      then have "a \<in> set (td k u)" "c \<in> set (td k w)" "stage pg' a" "stage pg' c" using m by blast+
      then show "u = w" using i(5) unfolding births_ok_def by blast
    next
      fix u pg' a assume "a \<in> set (td k' u) \<and> stage pg' a"
      then have a: "a \<in> set (td k u)" "stage pg' a" using m by blast+
      then show "if is_init a then st k' pg' = None else st k' pg' = Some THREAD_BLOCKED \<and> td k' pg' = [Set_level True] \<and> pg' \<noteq> idle_thread k'"
        using i(5) q [OF a] v r unfolding births_ok_def by simp
    qed
  qed
  moreover have "loops_ok k'" using i(6) n v r e unfolding loops_ok_def by auto
  ultimately show "threads_ok k'" using i(7) e(4) by (simp add: threads_ok_def)
qed

text \<open>What is left of the creation of a thread when its next action is taken.\<close>

lemma pop_stage:
  assumes "threads_ok k" "td k (running k) = a # as" "stage pg a"
  shows "no_stage (set_todo (running k) as k) pg" "good_act a"
    "if is_init a then st (set_todo (running k) as k) pg = None else born (set_todo (running k) as k) pg"
proof -
  note i = threads_okD [OF assms(1)]
  have b: "length (filter (stage pg) (a # as)) \<le> 1" "\<forall>a \<in> set (a # as). good_act a"
    "\<forall>u c. c \<in> set (td k u) \<and> stage pg c \<longrightarrow> u = running k"
    "if is_init a then st k pg = None else born k pg"
    using i(5) assms(2,3) unfolding births_ok_def born_def by (metis list.set_intros(1))+
  have "\<not> stage pg c" if "c \<in> set as" for c using b(1) assms(3) that by (auto simp: filter_empty_conv)
  then show "no_stage (set_todo (running k) as k) pg" unfolding no_stage_def using b(3) i(8) by auto
  show "good_act a" using b(2) by simp
  have "pg \<noteq> running k" if "born k pg" using that i(8) by (auto simp: born_def)
  then show "if is_init a then st (set_todo (running k) as k) pg = None else born (set_todo (running k) as k) pg"
    using b(4) by (cases "is_init a") (auto simp: born_def)
qed

end
