(* ===== verification/Thread_Steps.thy ===== *)
theory Thread_Steps
  imports Threads_Proofs
begin

text \<open>One action of the running thread: when it stops the kernel, and that it keeps the invariant otherwise.\<close>

section \<open>When the kernel stops\<close>

text \<open>The condition under which an action of the running thread stops the kernel.\<close>

definition ws_gone :: "kern \<Rightarrow> nat \<Rightarrow> bool" where
  "ws_gone k ws \<longleftrightarrow> wait_statuses k ws = None"

fun stops :: "act \<Rightarrow> kern \<Rightarrow> bool" where
  "stops (Assert_not_held l) k = (holder (locks k l) = running k)"
| "stops (Assert_unheld l) k = (holder (locks k l) = running k)"
| "stops (Assert_waits l) k = (holder (locks k l) \<noteq> running k)"
| "stops (Assert_held l) k = (holder (locks k l) \<noteq> running k)"
| "stops (Cond_signal c l) k = (holder (locks k l) \<noteq> running k)"
| "stops (Init_thread pg name pri code) k = (\<not> (PRI_MIN \<le> pri \<and> pri \<le> PRI_MAX) \<or> length (first_word name) \<ge> 16)"
| "stops (Add_ref ws d) k = ws_gone k ws"
| "stops (Free_wait_status ws) k = ws_gone k ws"
| "stops (Add_child pg ws) k = ws_gone k ws"
| "stops (Reap ws) k = ws_gone k ws"
| "stops Process_exit k = (\<forall>th. threads k (running k) = Some th \<longrightarrow> ws_gone k (o_wait_status th))"
| "stops Exit_begin k = (running k \<notin> set (all_list k))"
| "stops Exit_children k = (\<forall>th. threads k (running k) = Some th \<longrightarrow>
     ws_gone k (case o_children_wait_status_list th of ws # wss \<Rightarrow> ws | [] \<Rightarrow> o_wait_status th))"
| "stops Exit_end k = intr_on k"
| "stops (Timer_sleep n) k = (\<not> intr_on k)"
| "stops (Process_wait child) k = (case thread_get_wait_status (running k) child k of None \<Rightarrow> True | Some ws \<Rightarrow> ws \<noteq> 0 \<and> ws_gone k ws)"
| "stops _ k = False"

lemma plain_acts [simp]:
  "plain (Assert_not_held l)" "plain (Assert_unheld l)" "plain (Assert_waits l)" "plain (Sema_down s)" "plain (Set_holder l)" "plain (Assert_held l)" "plain (Clear_holder l)" "plain (Sema_up s)"
  "plain (Try_acquire l)" "plain (Set_level b)" "plain (Sema_init w v)" "plain (Cond_push c w)" "plain (Cond_signal c l)" "plain (Cond_broadcast c l)"
  "plain Yield" "plain (Add_ref ws d)" "plain (Free_wait_status ws)" "plain Process_exit" "plain Exit_begin" "plain Exit_children" "plain Exit_end"
  "plain (Timer_sleep n)" "plain (Sleep_loop n m)" "plain (Process_wait p)" "plain (Reap ws)"
  by (simp_all add: plain_def)

lemma plain_lock [simp]: "list_all plain (lock_acquire l)" "list_all plain (lock_release l)"
  by (simp_all add: lock_acquire_def lock_release_def)

section \<open>One action\<close>

lemma threads_upd: "threads (upd_thread t f k) = (threads k)(t := map_option f (threads k t))"
  by (simp add: upd_thread_def)

lemma steppingD:
  assumes "stepping k"
  shows "threads_ok k" "thread_current k = Some (running k)" "\<exists>th. threads k (running k) = Some th" "\<not> in_external_intr k"
    "\<forall>s old. Down_loop s old \<notin> set (td k (running k))" "running k \<noteq> idle_thread k"
  using assms threads_okD [of k] by (auto simp: stepping_def st_def)

lemma same_fields:
  "threads k' = threads k \<Longrightarrow> ready_list k' = ready_list k \<Longrightarrow> idle_thread k' = idle_thread k \<Longrightarrow> running k' = running k \<Longrightarrow>
   in_external_intr k' = in_external_intr k \<Longrightarrow> (\<And>s. waiters (sem k' s) = waiters (sem k s) \<or> waiters (sem k' s) = []) \<Longrightarrow> stepping k \<Longrightarrow> stepping k'"
proof (rule stepping_same [of k])
  assume a: "threads k' = threads k" "ready_list k' = ready_list k" "idle_thread k' = idle_thread k" "running k' = running k"
    "in_external_intr k' = in_external_intr k"
  show "td k' = td k" using a(1) by (simp add: td_def fun_eq_iff)
  assume w: "\<And>s. waiters (sem k' s) = waiters (sem k s) \<or> waiters (sem k' s) = []"
  have "\<exists>n. waiters (sem k' s) = drop n (waiters (sem k s))" for s
    using w [of s] by (auto intro: exI [of _ 0] exI [of _ "length (waiters (sem k s))"])
  then show "same_but_todo k k'" using a by (simp add: same_but_todo_def st_def td_def mg_def fun_eq_iff)
qed

lemma stepping_upd:
  assumes "stepping k" "\<And>th. status (f th) = status th" "\<And>th. todo (f th) = todo th" "\<And>th. magic (f th) = magic th"
  shows "stepping (upd_thread t f k)"
  by (rule stepping_same [OF assms(1)]) (use assms(2-4) in \<open>auto simp: same_but_todo_def intro: exI [of _ 0]\<close>)

lemma stepping_sem: "stepping k \<Longrightarrow> stepping (set_sem s ((sem k s)\<lparr>sema_value := v\<rparr>) k)"
  by (rule same_fields [of _ k]) auto

lemma stepping_up:
  assumes "stepping k"
  shows "sema_up s k = Some (upped s k)" "stepping (upped s k)"
  using sema_up_ok [of k s] assms by (auto simp: stepping_def)

lemma down_ok:
  assumes "stepping k" "\<not> intr_on k"
  shows "\<exists>k'. down_loop s old k = Some k' \<and> threads_ok k'"
proof (cases "sema_value (sem k s) = 0")
  case True
  then show ?thesis using sleep_in_sema_down [OF assms] by blast
next
  case False
  have "stepping ((set_sem s ((sem k s)\<lparr>sema_value := v\<rparr>) k)\<lparr>intr_on := old\<rparr>)" for v
    by (rule same_fields [of _ k]) (use assms(1) in auto)
  then show ?thesis using False steppingD(1) by (auto simp: down_loop_def)
qed

text \<open>The actions that neither switch threads nor create one.\<close>

definition quiet :: "act \<Rightarrow> bool" where
  "quiet a \<longleftrightarrow> plain a \<and> (\<forall>s. a \<noteq> Sema_down s) \<and> a \<noteq> Yield \<and> a \<noteq> Exit_end"

lemma quiet_ok:
  assumes "stepping k" "quiet a"
  shows "run_act a k = None \<longleftrightarrow> stops a k" "run_act a k = Some k' \<Longrightarrow> stepping k'"
proof -
  note d = steppingD [OF assms(1)]
  have "(run_act a k = None \<longleftrightarrow> stops a k) \<and> (run_act a k = Some k' \<longrightarrow> stepping k')"
  proof (cases a)
    case (Sema_up s)
    then show ?thesis using stepping_up [OF assms(1), of s] by auto
  next
    case (Try_acquire l)
    have "stepping (set_sem (Lock_sem l) ((sem k (Lock_sem l))\<lparr>sema_value := v\<rparr>) k)" for v by (rule stepping_sem [OF assms(1)])
    then show ?thesis using Try_acquire assms(1)
      by (auto simp: sema_try_down_def intro!: stepping_upd stepping_call)
  next
    case (Process_wait c)
    then show ?thesis using assms(1) d(2)
      by (auto simp: process_wait_def ws_gone_def bind_eq_None_conv bind_eq_Some_conv intro!: stepping_upd stepping_call split: option.splits if_splits)
  next
    case (Cond_signal c l)
    have "stepping (k\<lparr>conds := f\<rparr>)" for f by (rule same_fields [of _ k]) (use assms(1) in auto)
    then show ?thesis using Cond_signal assms(1) d(2,4)
      by (auto simp: lock_held_by_current_thread_def intro!: stepping_call split: list.splits)
  next
    case (Sema_init w v)
    have "stepping (k\<lparr>semas := (semas k)(w := \<lparr>sema_value = v, waiters = []\<rparr>)\<rparr>)"
      by (rule same_fields [of _ k]) (use assms(1) in \<open>auto simp: sem_def split: sref.splits\<close>)
    then show ?thesis using Sema_init by auto
  next
    case (Set_holder l)
    have "stepping (set_lock_holder l (running k) k)" by (rule same_fields [of _ k]) (use assms(1) in auto)
    then show ?thesis using Set_holder d(2) by auto
  next
    case (Clear_holder l)
    have "stepping (set_lock_holder l 0 k)" by (rule same_fields [of _ k]) (use assms(1) in auto)
    then show ?thesis using Clear_holder by auto
  next
    case (Set_level b)
    have "stepping (k\<lparr>intr_on := b\<rparr>)" by (rule same_fields [of _ k]) (use assms(1) in auto)
    then show ?thesis using Set_level by auto
  next
    case (Cond_push c w)
    have "stepping (k\<lparr>conds := f\<rparr>)" for f by (rule same_fields [of _ k]) (use assms(1) in auto)
    then show ?thesis using Cond_push by auto
  next
    case (Add_ref ws n)
    have "stepping (k\<lparr>wait_statuses := f\<rparr>)" for f by (rule same_fields [of _ k]) (use assms(1) in auto)
    then show ?thesis using Add_ref
      by (auto simp: add_ref_def ws_gone_def Let_def bind_eq_None_conv bind_eq_Some_conv intro!: stepping_call)
  next
    case (Free_wait_status ws)
    have "stepping (k\<lparr>wait_statuses := f\<rparr>)" for f by (rule same_fields [of _ k]) (use assms(1) in auto)
    then show ?thesis using Free_wait_status
      by (auto simp: ws_gone_def bind_eq_None_conv bind_eq_Some_conv)
  next
    case Exit_begin
    have "stepping (k\<lparr>intr_on := b, all_list := f\<rparr>)" for b f by (rule same_fields [of _ k]) (use assms(1) in auto)
    then show ?thesis using Exit_begin d(2) by auto
  next
    case Process_exit
    obtain th where th: "threads k (running k) = Some th" using d(3) by blast
    then show ?thesis using Process_exit d(2,4) assms(1)
      by (auto simp: ws_gone_def bind_eq_None_conv bind_eq_Some_conv threads_upd intro!: stepping_call stepping_upd)
  next
    case Exit_children
    obtain th where th: "threads k (running k) = Some th" using d(3) by blast
    then show ?thesis using Exit_children d(2) assms(1)
      by (auto simp: exit_children_def ws_gone_def wait_status_mod_ref_def Let_def bind_eq_None_conv bind_eq_Some_conv
          intro!: stepping_call stepping_upd split: list.splits)
  next
    case (Reap ws)
    then show ?thesis using assms(1)
      by (auto simp: reap_def ws_gone_def wait_status_mod_ref_def Let_def bind_eq_None_conv bind_eq_Some_conv
          intro!: stepping_call stepping_upd)
  qed (use assms d(2,4) in \<open>auto simp: quiet_def plain_def lock_held_by_current_thread_def intro!: stepping_call split: if_splits\<close>)
  then show "run_act a k = None \<longleftrightarrow> stops a k" "run_act a k = Some k' \<Longrightarrow> stepping k'" by auto
qed

lemma stepping_pop:
  assumes "threads_ok k" "td k (running k) = a # as" "a \<noteq> Idle_loop" "running k \<noteq> idle_thread k"
  shows "stepping (set_todo (running k) as k)"
  using pop_ok [OF assms(1-3)] assms(4) by (simp add: stepping_def)

lemma Init_ok:
  assumes "stepping k" "st k pg = None" "no_stage k pg" "pg \<noteq> 0" "code = [Set_level True]"
  shows "run_act (Init_thread pg name pri code) k = None \<longleftrightarrow> stops (Init_thread pg name pri code) k"
    "run_act (Init_thread pg name pri code) k = Some k' \<Longrightarrow> stepping k'"
proof -
  note d = steppingD [OF assms(1)]
  show "run_act (Init_thread pg name pri code) k = None \<longleftrightarrow> stops (Init_thread pg name pri code) k"
    using assms(4) by (auto simp: init_thread_def bind_eq_None_conv)
  assume "run_act (Init_thread pg name pri code) k = Some k'"
  then obtain j where j: "init_thread pg name pri [Set_level True] k = Some j" "k' = call (allocate_tid pg [New_wait_status pg] j) j"
    using assms(5) by (auto simp: bind_eq_Some_conv)
  note i = init_ok [OF d(1,5) assms(2,3) j(1)]
  have "stepping j" using i d(5,6) by (simp add: stepping_def)
  moreover have "born j pg" using i by (simp add: born_def)
  moreover have "no_stage j pg" using assms(3) i(2) by (auto simp: no_stage_def)
  ultimately show "stepping k'" unfolding j(2) allocate_tid_def by (intro stepping_stage [of _ _ pg]) (auto simp: is_init_def)
qed

lemma born_upd: "(\<And>th. status (f th) = status th) \<Longrightarrow> (\<And>th. todo (f th) = todo th) \<Longrightarrow> born (upd_thread t f k) pg = born k pg"
  "(\<And>th. todo (f th) = todo th) \<Longrightarrow> no_stage (upd_thread t f k) pg = no_stage k pg"
  by (simp_all add: born_def no_stage_def)

lemma born_fields: "threads k' = threads k \<Longrightarrow> idle_thread k' = idle_thread k \<Longrightarrow> born k' pg = born k pg"
  "threads k' = threads k \<Longrightarrow> no_stage k' pg = no_stage k pg"
  by (simp_all add: born_def no_stage_def st_def td_def)

lemma creation_ok:
  assumes "stepping k" "stage pg a" "\<not> is_init a" "no_stage k pg" "born k pg" "good_act a"
  shows "run_act a k = None \<longleftrightarrow> stops a k" "run_act a k = Some k' \<Longrightarrow> stepping k'"
proof -
  note d = steppingD [OF assms(1)]
  obtain th where th: "threads k pg = Some th" using assms(5) by (auto simp: born_def st_def)
  have "(run_act a k = None \<longleftrightarrow> stops a k) \<and> (run_act a k = Some k' \<longrightarrow> stepping k')"
  proof (cases a)
    case (Take_tid p rest)
    then have a: "p = pg" "rest = [New_wait_status pg]" using assms(2,6) by auto
    let ?k = "upd_thread pg (\<lambda>th. th\<lparr>tid := next_tid k\<rparr>) (k\<lparr>next_tid := wrap32 (next_tid k + 1)\<rparr>)"
    have "stepping (k\<lparr>next_tid := n\<rparr>)" for n by (rule same_fields [of _ k]) (use assms(1) in auto)
    then have "stepping ?k" by (auto intro: stepping_upd)
    moreover have "born ?k pg" "no_stage ?k pg" using assms(4,5) by (simp_all add: born_upd) (simp_all add: born_def no_stage_def)
    ultimately have "stepping (call (lock_release (tid_lock k) @ [New_wait_status pg]) ?k)"
      by (intro stepping_stage [of _ _ pg]) (auto simp: is_init_def)
    then show ?thesis using Take_tid a by (auto simp: take_tid_def)
  next
    case (New_wait_status p)
    then have a: "p = pg" using assms(2) by simp
    let ?j = "k\<lparr>next_obj := next_obj k + 1, semas := (semas k)(next_obj k := \<lparr>sema_value = 0, waiters = []\<rparr>),
       locks := (locks k)(next_obj k := \<lparr>holder = 0, lsema = \<lparr>sema_value = 1, waiters = []\<rparr>\<rparr>),
       wait_statuses := (wait_statuses k)(next_obj k \<mapsto> \<lparr>o_tid = tid th, o_sem_exited = next_obj k, o_exit_code = 0, o_reference_count = 0,
         o_reference_count_lock = next_obj k, o_kernel_killed = False\<rparr>)\<rparr>"
    let ?k = "upd_thread pg (\<lambda>th. th\<lparr>o_wait_status := next_obj k\<rparr>) ?j"
    have "stepping ?j" by (rule same_fields [of _ k]) (use assms(1) in \<open>auto simp: sem_def split: sref.splits\<close>)
    then have "stepping ?k" by (auto intro: stepping_upd)
    moreover have "born ?k pg" "no_stage ?k pg" using assms(4,5) by (simp_all add: born_upd) (simp_all add: born_def no_stage_def)
    ultimately have "stepping (call ((lock_acquire (next_obj k) @ [Add_ref (next_obj k) 1]) @ [Add_child pg (next_obj k)]) ?k)"
      by (intro stepping_stage [of _ _ pg]) (auto simp: is_init_def)
    then show ?thesis using New_wait_status a th by (auto simp: new_wait_status_def wait_status_mod_ref_def Let_def)
  next
    case (Add_child p ws)
    then have a: "p = pg" using assms(2) by simp
    let ?k = "upd_thread (running k) (\<lambda>th. th\<lparr>o_children_wait_status_list := ws # o_children_wait_status_list th\<rparr>) k"
    have "stepping ?k" using assms(1) by (auto intro: stepping_upd)
    moreover have "born ?k pg" "no_stage ?k pg" using assms(4,5) by (simp_all add: born_upd)
    ultimately have "stepping (call ((lock_acquire l @ [Add_ref ws 1]) @ [Unblock pg]) ?k)" for l
      by (intro stepping_stage [of _ _ pg]) (auto simp: is_init_def)
    then show ?thesis using Add_child a d(2)
      by (auto simp: add_child_def wait_status_mod_ref_def Let_def ws_gone_def bind_eq_None_conv bind_eq_Some_conv)
  next
    case (Unblock p)
    then have a: "p = pg" using assms(2) by simp
    have "pg \<notin> set (waiters (sem k s))" for s
      using threads_okD(3) [OF d(1)] assms(5) by (fastforce simp: waiters_ok_def born_def)
    then have "thread_unblock pg k = Some (woken pg k)" "stepping (woken pg k)"
      using unblock_ok [OF d(1), of pg] assms(4,5) d(5,6) by (auto simp: born_def stepping_def)
    then show ?thesis using Unblock a by auto
  qed (use assms(2,3) in \<open>auto simp: is_init_def\<close>)
  then show "run_act a k = None \<longleftrightarrow> stops a k" "run_act a k = Some k' \<Longrightarrow> stepping k'" by auto
qed

lemma level_ok:
  assumes "threads_ok k" "\<forall>s old. Down_loop s old \<notin> set (td k (running k))"
  shows "threads_ok (k\<lparr>intr_on := b\<rparr>)"
proof -
  note i = threads_okD [OF assms(1)]
  have "td k (running k) \<noteq> Down_loop s old # as" for s old as using assms(2) by (metis list.set_intros(1))
  then have "loops_ok (k\<lparr>intr_on := b\<rparr>)" using i(6) by (simp add: loops_ok_def)
  then show ?thesis using i by (simp add: threads_ok_def ready_ok_def one_running_def waiters_ok_def idle_ok_def births_ok_def)
qed

lemma stops_pop: "stops a (set_todo t as k) = stops a k"
proof -
  have f: "all_list (set_todo t as k) = all_list k" "wait_statuses (set_todo t as k) = wait_statuses k" by (simp_all add: set_todo_def upd_thread_def)
  have t: "threads (set_todo t as k) u = map_option (\<lambda>th. if u = t then th\<lparr>todo := as\<rparr> else th) (threads k u)" for u
    by (simp add: set_todo_def upd_thread_def option.map_ident)
  have w: "thread_get_wait_status u c (set_todo t as k) = thread_get_wait_status u c k" for u c
    unfolding thread_get_wait_status_def t f(2) by (cases "threads k u") auto
  have g: "ws_gone (set_todo t as k) = ws_gone k" by (simp add: ws_gone_def f fun_eq_iff)
  show ?thesis by (cases a; cases "threads k (running k)") (simp_all add: f t w g split: list.splits option.splits)
qed

theorem step_thread_ok:
  assumes "threads_ok k" "td k (running k) = a # as"
  shows "step_thread k = None \<longleftrightarrow> stops a k" "step_thread k = Some k' \<Longrightarrow> threads_ok k'"
proof -
  note i = threads_okD [OF assms(1)]
  let ?k = "set_todo (running k) as k"
  obtain th where th: "threads k (running k) = Some th" "todo th = a # as" using i(8) assms(2) by (auto simp: st_def td_def)
  then have e: "step_thread k = run_act a ?k" by (simp add: step_thread_def)
  have "(run_act a ?k = None \<longleftrightarrow> stops a ?k) \<and> (run_act a ?k = Some k' \<longrightarrow> threads_ok k')"
  proof (cases "running k = idle_thread k")
    case True
    then have "idle_act a" using i(4) assms(2) unfolding idle_ok_def by (metis list.set_intros(1))
    then consider "a = Idle_loop" | b where "a = Set_level b" by (auto simp: idle_act_def)
    then show ?thesis
    proof cases
      case 1
      then show ?thesis using idle_block_ok [OF assms(1), of as] assms(2) by (auto simp del: run_act.simps)
    next
      case 2
      then show ?thesis using pop_ok [OF assms] level_ok [of ?k b] by auto
    qed
  next
    case False
    then have a: "a \<noteq> Idle_loop" "\<And>x. a \<noteq> Idle_start x" using i(4) assms(2) unfolding idle_ok_def by (metis list.set_intros(1))+
    have S: "stepping ?k" by (rule stepping_pop [OF assms a(1) False])
    note d = steppingD [OF S]
    show ?thesis
    proof (cases "\<exists>pg. stage pg a")
      case True
      then obtain pg where pg: "stage pg a" by blast
      note p = pop_stage [OF assms pg]
      show ?thesis
      proof (cases "is_init a")
        case True
        then obtain name pri code where "a = Init_thread pg name pri code" using pg by (auto simp: is_init_def)
        then show ?thesis using Init_ok [OF S, of pg code name pri] p True steppingD(1) by (auto simp del: run_act.simps stops.simps)
      next
        case False
        then show ?thesis using creation_ok [OF S pg False p(1) _ p(2)] p(3) steppingD(1) by auto
      qed
    next
      case nostage: False
      consider s where "a = Sema_down s" | s old where "a = Down_loop s old" | "a = Yield" | "a = Exit_end" | "quiet a"
        using nostage a by (cases a) (auto simp: quiet_def)
      then show ?thesis
      proof cases
        case 1
        have "stepping (?k\<lparr>intr_on := False\<rparr>)" using level_ok [OF d(1,5), of False] d(5,6) by (simp add: stepping_def)
        then show ?thesis using 1 down_ok [of "?k\<lparr>intr_on := False\<rparr>" s "intr_on k"] d(4) by (auto simp: sema_down_def)
      next
        case 2
        then have "\<not> intr_on ?k" using i(6) assms(2) by (auto simp: loops_ok_def)
        then show ?thesis using 2 down_ok [OF S, of s old] by auto
      next
        case 3
        then show ?thesis using yield_ok [OF d(1,5)] by auto
      next
        case 4
        show ?thesis
        proof (cases "intr_on k")
          case True
          have "schedule (set_status (running k) THREAD_DYING ?k) = None"
            using True by (auto simp: schedule_def next_thread_to_run_def Let_def split: list.splits)
          then show ?thesis using 4 d(2) True by simp
        next
          case False
          then show ?thesis using 4 exit_ok [OF S] d(2) by auto
        qed
      next
        case 5
        then show ?thesis using quiet_ok [OF S 5] steppingD(1) by blast
      qed
    qed
  qed
  then show "step_thread k = None \<longleftrightarrow> stops a k" "step_thread k = Some k' \<Longrightarrow> threads_ok k'"
    unfolding e stops_pop by auto
qed

end
