(* ===== verification/Thread_Runs.thy ===== *)
theory Thread_Runs
  imports Thread_Steps
begin

text \<open>
  Executions of the kernel: a thread executes the next action of the functions it is in, a thread that is
  in its own code calls a function, or an interrupt arrives. Every execution keeps the invariant of the
  scheduler.
\<close>

section \<open>Calls and interrupts\<close>

text \<open>The functions of \<open>thread.h\<close>, \<open>synch.h\<close>, \<open>timer.h\<close> and \<open>process.h\<close> that a thread can call. The page of a new
  thread comes from \<open>palloc_get_page\<close>: it is not in use, or 0. \<open>thread_block\<close> and \<open>thread_unblock\<close> are called by the
  semaphores, the idle thread and \<open>thread_create\<close> only; their other caller, \<open>devices/intq.c\<close>, is not modelled.\<close>

inductive api :: "kern \<Rightarrow> act list \<Rightarrow> bool" for k where
  "l < next_obj k \<Longrightarrow> api k (lock_acquire l)"
| "l < next_obj k \<Longrightarrow> api k (lock_release l)"
| "l < next_obj k \<Longrightarrow> api k (lock_try_acquire l)"
| "api k [Sema_init w n]"
| "api k [Sema_down (Sem w)]"
| "api k [Sema_up (Sem w)]"
| "l < next_obj k \<Longrightarrow> api k (cond_wait c l w)"
| "api k (cond_signal c l)"
| "api k (cond_broadcast c l)"
| "api k [Yield]"
| "api k [Set_level b]"
| "st k pg = None \<Longrightarrow> no_stage k pg \<Longrightarrow> api k (thread_create pg name pri [])"
| "api k thread_exit"
| "api k [Timer_sleep n]"
| "api k [Process_wait child]"

text \<open>The events of an execution. A device interrupt is one whose handler ups a semaphore, like that of a disk.\<close>

datatype event = Act nat act | Call nat "act list" | Timer | Device nat

inductive kstep :: "kern \<Rightarrow> event \<Rightarrow> kern \<Rightarrow> bool" where
  kstep_act: "td k (running k) = a # as \<Longrightarrow> step_thread k = Some k' \<Longrightarrow> kstep k (Act (running k) a) k'"
| kstep_call: "td k (running k) = [] \<Longrightarrow> api k as \<Longrightarrow> kstep k (Call (running k) as) (call as k)"
| kstep_timer: "intr_handler timer_interrupt k = Some k' \<Longrightarrow> kstep k Timer k'"
| kstep_device: "intr_handler (sema_up (Sem s)) k = Some k' \<Longrightarrow> kstep k (Device s) k'"

inductive_cases kstepE: "kstep k e k'"

inductive runs :: "kern \<Rightarrow> event list \<Rightarrow> kern \<Rightarrow> bool" where
  runs_none: "runs k [] k"
| runs_step: "kstep k e k' \<Longrightarrow> runs k' es k'' \<Longrightarrow> runs k (e # es) k''"

inductive_simps runs_Nil [simp]: "runs k [] k'"
inductive_simps runs_Cons: "runs k (e # es) k'"

section \<open>Calls\<close>

lemma not_idle_if_done: "threads_ok k \<Longrightarrow> td k (running k) = [] \<Longrightarrow> stepping k"
  using threads_okD(4) [of k] by (auto simp: stepping_def idle_ok_def)

lemma create_call_ok:
  assumes "threads_ok k" "td k (running k) = []" "st k pg = None" "no_stage k pg" "pg \<noteq> 0"
  shows "threads_ok (call [Init_thread pg name pri [Set_level True]] k)"
proof (rule todo_step [OF assms(1)])
  note i = threads_okD [OF assms(1)]
  let ?k = "call [Init_thread pg name pri [Set_level True]] k"
  have t: "td ?k (running k) = [Init_thread pg name pri [Set_level True]]" using assms(2) i(8) by simp
  show "same_but_todo k ?k" by (auto simp: same_but_todo_def intro: exI [of _ 0])
  show "\<forall>s old. Down_loop s old \<notin> set (td ?k (running k))" "\<forall>a. Idle_start a \<notin> set (td ?k (running k))"
    "running k \<noteq> idle_thread k \<Longrightarrow> Idle_loop \<notin> set (td ?k (running k))" "\<forall>a\<in>set (td ?k (running k)). good_act a"
    "\<forall>pg. length (filter (stage pg) (td ?k (running k))) \<le> 1" unfolding t using assms(5) by auto
  show "running k = idle_thread k \<Longrightarrow> Idle_loop \<in> set (td ?k (running k)) \<and> (\<forall>a\<in>set (td ?k (running k)). idle_act a)"
    using assms(2) i(4) by (auto simp: idle_ok_def)
  show "(\<forall>t b. t \<noteq> running k \<longrightarrow> b \<in> set (td k t) \<longrightarrow> \<not> stage q b) \<and> (if is_init a then st k q = None else born k q)"
    if "a \<in> set (td ?k (running k))" "stage q a" for q a
    using that assms(3,4) unfolding t by (auto simp: is_init_def no_stage_def)
qed

lemma call_ok:
  assumes "threads_ok k" "td k (running k) = []" "api k as"
  shows "threads_ok (call as k)"
proof -
  have S: "stepping k" by (rule not_idle_if_done [OF assms(1,2)])
  have p: "threads_ok (call xs k)" if "list_all plain xs" for xs using stepping_call [OF S that] by (simp add: stepping_def)
  show ?thesis using assms(3)
  proof cases
    case (12 pg name pri)
    show ?thesis
    proof (cases "pg = 0")
      case True
      then show ?thesis using 12 p by (simp add: thread_create_def)
    next
      case False
      then show ?thesis using 12 create_call_ok [OF assms(1,2), of pg name pri] by (simp add: thread_create_def kernel_thread_def)
    qed
  qed (auto intro!: p simp: lock_try_acquire_def cond_wait_def cond_signal_def cond_broadcast_def thread_exit_def)
qed

section \<open>Interrupts\<close>

definition in_intr :: "kern \<Rightarrow> kern" where
  "in_intr k = k\<lparr>intr_on := False, in_external_intr := True, yield_on_return := False\<rparr>"

definition ticked :: "kern \<Rightarrow> kern" where
  "ticked k = (let k = k\<lparr>ticks := ticks k + 1\<rparr>;
     k = (if running k = idle_thread k then k\<lparr>idle_ticks := idle_ticks k + 1\<rparr>
          else if (case threads k (running k) of Some th \<Rightarrow> has_pagedir th | None \<Rightarrow> False) then k\<lparr>user_ticks := user_ticks k + 1\<rparr>
          else k\<lparr>kernel_ticks := kernel_ticks k + 1\<rparr>)
     in k\<lparr>thread_ticks := thread_ticks k + 1, yield_on_return := yield_on_return k \<or> thread_ticks k + 1 \<ge> TIME_SLICE\<rparr>)"

lemma timer_interrupt_eq:
  assumes "ready_ok k" "st k (running k) = Some THREAD_RUNNING"
  shows "timer_interrupt k = Some (ticked k)"
proof -
  let ?k = "k\<lparr>ticks := ticks k + 1\<rparr>"
  have "thread_current ?k = Some (running k)" using assms by (subst current_eq) (auto simp: ready_ok_def)
  moreover obtain th where "threads k (running k) = Some th" using assms(2) by (auto simp: st_def)
  ultimately show ?thesis by (auto simp: timer_interrupt_def thread_tick_def ticked_def Let_def)
qed

lemma fields_ok:
  assumes "threads_ok k" "\<forall>s old. Down_loop s old \<notin> set (td k (running k))"
    "threads k' = threads k" "running k' = running k" "ready_list k' = ready_list k" "idle_thread k' = idle_thread k"
    "sem k' = sem k" "in_external_intr k' = in_external_intr k"
  shows "threads_ok k'"
proof -
  note i = threads_okD [OF assms(1)]
  have v: "st k' = st k" "td k' = td k" "mg k' = mg k" using assms(3) by (simp_all add: st_def td_def mg_def fun_eq_iff)
  have "td k (running k) \<noteq> Down_loop s old # as" for s old as using assms(2) by (metis list.set_intros(1))
  then have "loops_ok k'" using i(6) assms(4) v by (simp add: loops_ok_def)
  moreover have "births_ok k'" using i(5) unfolding births_ok_def v assms(6) .
  moreover have "idle_ok k'" using i(4) unfolding idle_ok_def v assms(6) .
  ultimately show ?thesis using i assms v by (simp add: threads_ok_def ready_ok_def one_running_def waiters_ok_def)
qed

lemma push_level_ok:
  assumes "threads_ok k" "\<forall>s old. Down_loop s old \<notin> set (td k (running k))"
  shows "threads_ok (call [Set_level b] k)" "\<forall>s old. Down_loop s old \<notin> set (td (call [Set_level b] k) (running k))"
proof -
  note i = threads_okD [OF assms(1)]
  let ?k = "call [Set_level b] k"
  have t: "td ?k (running k) = Set_level b # td k (running k)" using i(8) by simp
  show D: "\<forall>s old. Down_loop s old \<notin> set (td ?k (running k))" unfolding t using assms(2) by simp
  show "threads_ok ?k"
  proof (rule todo_step [OF assms(1)])
    show "same_but_todo k ?k" by (auto simp: same_but_todo_def intro: exI [of _ 0])
    show "\<forall>s old. Down_loop s old \<notin> set (td ?k (running k))" by (rule D)
    show "\<forall>a. Idle_start a \<notin> set (td ?k (running k))" "running k \<noteq> idle_thread k \<Longrightarrow> Idle_loop \<notin> set (td ?k (running k))"
      "running k = idle_thread k \<Longrightarrow> Idle_loop \<in> set (td ?k (running k)) \<and> (\<forall>a\<in>set (td ?k (running k)). idle_act a)"
      unfolding t using i(4) by (auto simp: idle_ok_def idle_act_def)
    show "\<forall>a\<in>set (td ?k (running k)). good_act a" "\<forall>pg. length (filter (stage pg) (td ?k (running k))) \<le> 1"
      unfolding t using i(5) by (auto simp: births_ok_def)
    fix pg a assume "a \<in> set (td ?k (running k))" "stage pg a"
    then have a: "a \<in> set (td k (running k))" "stage pg a" unfolding t by auto
    then show "(\<forall>t c. t \<noteq> running k \<longrightarrow> c \<in> set (td k t) \<longrightarrow> \<not> stage pg c) \<and> (if is_init a then st k pg = None else born k pg)"
      using i(5) unfolding births_ok_def born_def by metis
  qed
qed

lemma on_no_loop:
  assumes "threads_ok k" "intr_on k"
  shows "\<forall>s old. Down_loop s old \<notin> set (td k (running k))"
proof (intro allI notI)
  fix s old assume a: "Down_loop s old \<in> set (td k (running k))"
  then obtain b as where t: "td k (running k) = b # as" by (cases "td k (running k)") auto
  have l: "Down_loop s old \<notin> set (tl (td k (running k)))" "\<forall>s old as. td k (running k) \<noteq> Down_loop s old # as"
    using threads_okD(6) [OF assms(1)] assms(2) by (auto simp: loops_ok_def)
  then show False using a t by auto
qed

text \<open>The return from an interrupt whose handler left the state \<open>k\<close>.\<close>

definition returned :: "kern \<Rightarrow> kern" where
  "returned k = (let k = call [Set_level True] (k\<lparr>in_external_intr := False\<rparr>) in if yield_on_return k then switched (yielded k) else k)"

lemma intr_ok:
  assumes "threads_ok (k'\<lparr>in_external_intr := False\<rparr>)" "\<forall>s old. Down_loop s old \<notin> set (td k' (running k'))"
    "intr_on k" "\<not> in_external_intr k" "handler (in_intr k) = Some k'" "\<not> intr_on k'" "in_external_intr k'"
  shows "intr_handler handler k = Some (returned k')" "threads_ok (returned k')"
proof -
  let ?j = "k'\<lparr>in_external_intr := False\<rparr>"
  have D: "\<forall>s old. Down_loop s old \<notin> set (td ?j (running ?j))" using assms(2) by simp
  note p = push_level_ok [OF assms(1) D, of True]
  have D': "\<forall>s old. Down_loop s old \<notin> set (td (call [Set_level True] ?j) (running (call [Set_level True] ?j)))" using p(2) by simp
  note y = yield_ok [OF p(1) D']
  show "intr_handler handler k = Some (returned k')"
    using assms(3-7) y(1) by (simp add: intr_handler_def returned_def in_intr_def [symmetric] Let_def del: op_fields)
  show "threads_ok (returned k')" using y(2) p(1) by (simp add: returned_def Let_def)
qed

lemma timer_ok:
  assumes "threads_ok k" "intr_on k"
  shows "intr_handler timer_interrupt k = Some (returned (ticked (in_intr k)))" "threads_ok (returned (ticked (in_intr k)))"
proof -
  note i = threads_okD [OF assms(1)]
  note D = on_no_loop [OF assms]
  let ?k = "ticked (in_intr k)"
  have f: "threads ?k = threads k" "running ?k = running k" "ready_list ?k = ready_list k" "idle_thread ?k = idle_thread k"
    "sem ?k = sem k" "\<not> intr_on ?k" "in_external_intr ?k" by (auto simp: ticked_def in_intr_def Let_def)
  have T: "threads_ok (?k\<lparr>in_external_intr := False\<rparr>)" by (rule fields_ok [OF assms(1) D]) (use f i(7) in simp_all)
  have "ready_ok (in_intr k)" using i(1) by (simp add: ready_ok_def in_intr_def)
  then have "timer_interrupt (in_intr k) = Some ?k" by (rule timer_interrupt_eq) (use i(8) in \<open>simp add: in_intr_def\<close>)
  moreover have "\<forall>s old. Down_loop s old \<notin> set (td ?k (running ?k))" using D f(1,2) by (simp add: td_def)
  ultimately show "intr_handler timer_interrupt k = Some (returned ?k)" "threads_ok (returned ?k)"
    using intr_ok [OF T] assms(2) i(7) f(6,7) by blast+
qed

lemma sema_up_ext: "sema_up s (k\<lparr>in_external_intr := b\<rparr>) = map_option (\<lambda>k. k\<lparr>in_external_intr := b\<rparr>) (sema_up s k)"
  by (auto simp: sema_up_def thread_unblock_def is_thread_def set_sem_def set_status_def upd_thread_def sem_def bind_eq_Some_conv
      split: sref.splits list.splits option.splits)

lemma device_ok:
  assumes "threads_ok k" "intr_on k"
  shows "\<exists>k'. intr_handler (sema_up s) k = Some k' \<and> threads_ok k'"
proof -
  note i = threads_okD [OF assms(1)]
  note D = on_no_loop [OF assms]
  let ?j = "k\<lparr>intr_on := False, yield_on_return := False\<rparr>"
  have J: "threads_ok ?j" by (rule fields_ok [OF assms(1) D]) simp_all
  note u = sema_up_ok [OF J, of s]
  let ?k = "(upped s ?j)\<lparr>in_external_intr := True\<rparr>"
  have "in_intr k = ?j\<lparr>in_external_intr := True\<rparr>" by (simp add: in_intr_def)
  then have e: "sema_up s (in_intr k) = Some ?k" using u(1) by (simp add: sema_up_ext)
  have D': "\<forall>s' old. Down_loop s' old \<notin> set (td (upped s ?j) (running (upped s ?j)))" using D u(3,4) by simp
  have T: "threads_ok (?k\<lparr>in_external_intr := False\<rparr>)" by (rule fields_ok [OF u(2) D']) (use u(7) i(7) in simp_all)
  have "\<forall>s' old. Down_loop s' old \<notin> set (td ?k (running ?k))" using D' by simp
  moreover have "\<not> intr_on ?k" "in_external_intr ?k" using u(6) by simp_all
  ultimately show ?thesis using intr_ok [OF T, of k "sema_up s"] e assms(2) i(7) by blast
qed

section \<open>The invariant of every execution\<close>

lemma kstep_ok:
  assumes "threads_ok k" "kstep k e k'"
  shows "threads_ok k'"
  using assms(2)
proof cases
  case (kstep_act a as)
  then show ?thesis using step_thread_ok(2) [OF assms(1)] by blast
next
  case (kstep_call as)
  then show ?thesis using call_ok [OF assms(1)] by blast
next
  case kstep_timer
  then have "intr_on k" by (auto simp: intr_handler_def split: if_splits)
  then show ?thesis using timer_ok [OF assms(1)] kstep_timer by auto
next
  case (kstep_device s)
  then have "intr_on k" by (auto simp: intr_handler_def split: if_splits)
  then show ?thesis using device_ok [OF assms(1), of "Sem s"] kstep_device by auto
qed

lemma runs_ok: "runs k es k' \<Longrightarrow> threads_ok k \<Longrightarrow> threads_ok k'"
  by (induction rule: runs.induct) (auto dest: kstep_ok)

section \<open>Round robin\<close>

definition stays :: "kern \<Rightarrow> kern \<Rightarrow> bool" where
  "stays k k' \<longleftrightarrow> running k' = running k \<and> thread_ticks k' = thread_ticks k \<and> (\<exists>xs. ready_list k' = ready_list k @ xs)"

definition switches :: "kern \<Rightarrow> kern \<Rightarrow> bool" where
  "switches k k' \<longleftrightarrow> thread_ticks k' = 0 \<and> (\<exists>xs. ready_list k' = tl (ready_list k @ xs) \<and>
     (ready_list k @ xs \<noteq> [] \<longrightarrow> running k' = hd (ready_list k @ xs)))"

lemma schedule_shape:
  assumes "schedule k = Some k'" "ready_list k = ready_list j @ xs"
  shows "switches j k'"
  using assms(1) unfolding switches_def assms(2) [symmetric]
  by (intro conjI exI [of _ xs])
    (auto simp: schedule_def next_thread_to_run_def thread_schedule_tail_def running_thread_def set_status_def upd_thread_def assms(2) [symmetric]
      Let_def bind_eq_Some_conv split: list.splits if_splits)

lemma same_stays: "running k' = running k \<Longrightarrow> thread_ticks k' = thread_ticks k \<Longrightarrow> ready_list k' = ready_list k @ xs \<Longrightarrow> stays k k'"
  unfolding stays_def by blast

lemma more_fields [simp]:
  "thread_ticks (upd_thread t f k) = thread_ticks k" "thread_ticks (set_status t x k) = thread_ticks k" "thread_ticks (call as k) = thread_ticks k"
  "thread_ticks (set_todo t as k) = thread_ticks k" "thread_ticks (set_sem s v k) = thread_ticks k" "thread_ticks (set_lock_holder l t k) = thread_ticks k"
  by (simp_all add: upd_thread_def set_status_def call_def set_todo_def set_sem_def set_lock_holder_def split: sref.splits)

lemma down_shape: "down_loop s old k = Some k' \<Longrightarrow> stays k k' \<or> switches k k'"
  by (cases "sema_value (sem k s) = 0")
    (auto simp: down_loop_def thread_block_def bind_eq_Some_conv split: if_splits
      intro: same_stays [of _ _ "[]"] schedule_shape [where xs = "[]"])

lemma yield_shape: "thread_yield k = Some k' \<Longrightarrow> switches k k'"
  by (cases "running k = idle_thread k")
    (auto simp: thread_yield_def Let_def bind_eq_Some_conv split: if_splits intro: schedule_shape [where xs = "[]"] schedule_shape)

lemma up_shape: "sema_up s k = Some k' \<Longrightarrow> stays k k'"
  by (auto simp: sema_up_def thread_unblock_def bind_eq_Some_conv split: list.splits if_splits intro: same_stays [of _ _ "[]"] same_stays)

lemma stays_if: "stays j k' \<or> switches j k' \<Longrightarrow> running j = running k \<Longrightarrow> thread_ticks j = thread_ticks k \<Longrightarrow> ready_list j = ready_list k \<Longrightarrow>
    stays k k' \<or> switches k k'"
  by (auto simp: stays_def switches_def)

lemma run_act_shape: "run_act a k = Some k' \<Longrightarrow> stays k k' \<or> switches k k'"
proof (cases a)
  case (Sema_down s)
  assume "run_act a k = Some k'"
  then have "down_loop s (intr_on k) (k\<lparr>intr_on := False\<rparr>) = Some k'" using Sema_down by (auto simp: sema_down_def split: if_splits)
  then show ?thesis by (rule stays_if [OF down_shape]) simp_all
next
  case (Down_loop s old)
  assume "run_act a k = Some k'" then show ?thesis using Down_loop down_shape by simp
next
  case Yield
  assume "run_act a k = Some k'" then show ?thesis using Yield yield_shape by simp
next
  case (Sema_up s)
  assume "run_act a k = Some k'" then show ?thesis using Sema_up up_shape by simp
next
  case Idle_loop
  assume "run_act a k = Some k'"
  then show ?thesis using Idle_loop by (auto simp: thread_block_def bind_eq_Some_conv split: if_splits intro: schedule_shape [where xs = "[]"])
next
  case Exit_end
  assume "run_act a k = Some k'"
  then show ?thesis using Exit_end by (auto simp: bind_eq_Some_conv intro: schedule_shape [where xs = "[]"])
next
  case Exit_children
  assume "run_act a k = Some k'"
  then obtain t th where "threads k t = Some th" "exit_children k = Some k'" "thread_current k = Some t"
    using Exit_children by (auto simp: exit_children_def bind_eq_Some_conv)
  then show ?thesis by (cases "o_children_wait_status_list th")
      (auto simp: exit_children_def bind_eq_Some_conv Let_def intro!: same_stays [of _ _ "[]"])
next
  case (Unblock p)
  assume "run_act a k = Some k'"
  then show ?thesis using Unblock by (auto simp: thread_unblock_def bind_eq_Some_conv split: if_splits intro: same_stays)
next
  case (Cond_signal c l)
  assume "run_act a k = Some k'"
  then show ?thesis using Cond_signal
    by (cases "conds k c") (auto simp: lock_held_by_current_thread_def bind_eq_Some_conv split: if_splits intro: same_stays [of _ _ "[]"])
qed (auto simp: bind_eq_Some_conv Let_def lock_held_by_current_thread_def sema_try_down_def init_thread_def take_tid_def new_wait_status_def add_ref_def
    add_child_def process_wait_def reap_def split: if_splits intro!: disjI1 same_stays [of _ _ "[]"])

lemma timer_interrupt_shape:
  assumes "timer_interrupt k = Some k'"
  shows "running k' = running k" "ready_list k' = ready_list k" "thread_ticks k' = thread_ticks k + 1"
    "yield_on_return k' \<longleftrightarrow> yield_on_return k \<or> TIME_SLICE \<le> thread_ticks k + 1"
proof -
  let ?k = "k\<lparr>ticks := ticks k + 1\<rparr>"
  obtain t th where t: "thread_current ?k = Some t" "threads k t = Some th"
    using assms by (auto simp: timer_interrupt_def thread_tick_def bind_eq_Some_conv)
  have "running k' = running k \<and> ready_list k' = ready_list k \<and> thread_ticks k' = thread_ticks k + 1
      \<and> (yield_on_return k' \<longleftrightarrow> yield_on_return k \<or> TIME_SLICE \<le> thread_ticks k + 1)"
    using assms t by (cases "t = idle_thread k"; cases "has_pagedir th"; cases "TIME_SLICE \<le> thread_ticks k + 1")
      (simp_all add: timer_interrupt_def thread_tick_def Let_def, auto)
  then show "running k' = running k" "ready_list k' = ready_list k" "thread_ticks k' = thread_ticks k + 1"
    "yield_on_return k' \<longleftrightarrow> yield_on_return k \<or> TIME_SLICE \<le> thread_ticks k + 1" by auto
qed

lemma sema_up_yield: "sema_up s k = Some k' \<Longrightarrow> yield_on_return k' = yield_on_return k"
  by (auto simp: sema_up_def thread_unblock_def set_status_def upd_thread_def bind_eq_Some_conv split: list.splits if_splits)

text \<open>A timer interrupt either switches to another thread or is one of the first three of the time slice.\<close>

lemma kstep_shape:
  assumes "kstep k e k'"
  shows "e \<noteq> Timer \<and> stays k k' \<or> switches k k' \<or>
    e = Timer \<and> running k' = running k \<and> ready_list k' = ready_list k \<and> thread_ticks k' = thread_ticks k + 1 \<and> thread_ticks k' < TIME_SLICE"
  using assms
proof cases
  case (kstep_act a as)
  then obtain as where "run_act a (set_todo (running k) as k) = Some k'" by (auto simp: step_thread_def td_def bind_eq_Some_conv split: option.splits list.splits)
  then have "stays k k' \<or> switches k k'" by (rule stays_if [OF run_act_shape]) simp_all
  then show ?thesis using kstep_act by auto
next
  case (kstep_call as)
  then show ?thesis by (auto intro: same_stays [of _ _ "[]"])
next
  case kstep_timer
  then obtain j where j: "timer_interrupt (in_intr k) = Some j"
    "(let k = call [Set_level True] (j\<lparr>in_external_intr := False\<rparr>) in if yield_on_return k then thread_yield k else Some k) = Some k'"
    by (auto simp: intr_handler_def in_intr_def Let_def bind_eq_Some_conv split: if_splits)
  note s = timer_interrupt_shape [OF j(1)]
  show ?thesis
  proof (cases "yield_on_return j")
    case True
    then have "switches (call [Set_level True] (j\<lparr>in_external_intr := False\<rparr>)) k'" using j(2) yield_shape by simp
    then show ?thesis using s by (simp add: switches_def in_intr_def)
  next
    case False
    then show ?thesis using j(2) s kstep_timer by (auto simp: in_intr_def)
  qed
next
  case (kstep_device s)
  then obtain j where j: "sema_up (Sem s) (in_intr k) = Some j"
    "(let k = call [Set_level True] (j\<lparr>in_external_intr := False\<rparr>) in if yield_on_return k then thread_yield k else Some k) = Some k'"
    by (auto simp: intr_handler_def in_intr_def Let_def bind_eq_Some_conv split: if_splits)
  have "\<not> yield_on_return j" using sema_up_yield [OF j(1)] by (simp add: in_intr_def)
  then show ?thesis using up_shape [OF j(1)] j(2) kstep_device by (auto simp: stays_def in_intr_def)
qed

text \<open>The number of timer interrupts after which a ready thread runs at the latest.\<close>

definition wait_bound :: "kern \<Rightarrow> nat \<Rightarrow> nat" where
  "wait_bound k i = TIME_SLICE * i + (TIME_SLICE - thread_ticks k)"

lemma ready_runs:
  assumes "runs k es k'" "i < length (ready_list k)" "ready_list k ! i = t" "thread_ticks k < TIME_SLICE" "wait_bound k i \<le> count_list es Timer"
  shows "\<exists>es1 es2 j. es = es1 @ es2 \<and> runs k es1 j \<and> runs j es2 k' \<and> running j = t"
  using assms
proof (induction arbitrary: i rule: runs.induct)
  case (runs_none k)
  then show ?case by (simp add: wait_bound_def)
next
  case (runs_step k e k1 es k2)
  have more: ?case if ex: "\<exists>es1 es2 j. es = es1 @ es2 \<and> runs k1 es1 j \<and> runs j es2 k2 \<and> running j = t"
  proof -
    obtain es1 es2 j where j: "es = es1 @ es2" "runs k1 es1 j" "runs j es2 k2" "running j = t" using ex by blast
    have "runs k (e # es1) j" by (rule runs.runs_step [OF runs_step.hyps(1) j(2)])
    then show ?thesis using j by (intro exI [of _ "e # es1"] exI [of _ es2] exI [of _ j]) simp
  qed
  consider "e \<noteq> Timer" "stays k k1" | "switches k k1"
    | "e = Timer" "running k1 = running k" "ready_list k1 = ready_list k" "thread_ticks k1 = thread_ticks k + 1" "thread_ticks k1 < TIME_SLICE"
    using kstep_shape [OF runs_step.hyps(1)] by (elim disjE conjE)
  then show ?case
  proof cases
    case 1
    then obtain xs where "ready_list k1 = ready_list k @ xs" "thread_ticks k1 = thread_ticks k" by (auto simp: stays_def)
    then show ?thesis using runs_step.IH [of i] runs_step.prems 1(1) by (intro more) (simp add: nth_append wait_bound_def)
  next
    case 2
    then obtain xs where x: "thread_ticks k1 = 0" "ready_list k1 = tl (ready_list k @ xs)" "running k1 = hd (ready_list k @ xs)"
      using runs_step.prems(1) by (auto simp: switches_def)
    obtain r rs where r: "ready_list k = r # rs" using runs_step.prems(1) by (cases "ready_list k") auto
    show ?thesis
    proof (cases i)
      case 0
      then have "running k1 = t" using x r runs_step.prems(2) by simp
      moreover have "runs k [e] k1" by (rule runs.runs_step [OF runs_step.hyps(1) runs.runs_none])
      ultimately show ?thesis using runs_step.hyps(2) by (intro exI [of _ "[e]"] exI [of _ es] exI [of _ k1]) simp
    next
      case (Suc n)
      have "n < length (ready_list k1)" "ready_list k1 ! n = t" using x r Suc runs_step.prems(1,2) by (auto simp: nth_append)
      moreover have "wait_bound k1 n \<le> count_list es Timer"
        using runs_step.prems(3,4) x(1) Suc by (auto simp: wait_bound_def TIME_SLICE_def split: if_splits)
      ultimately show ?thesis using runs_step.IH [of n] x(1) by (intro more) (simp add: TIME_SLICE_def)
    qed
  next
    case 3
    then show ?thesis using runs_step.IH [of i] runs_step.prems by (intro more) (simp add: wait_bound_def)
  qed
qed

end
