(* ===== verification/Lock_Proofs.thy ===== *)
theory Lock_Proofs
  imports Thread_Runs
begin

text \<open>
  The ownership of locks. A lock is free, or it has a holder, or one thread is between taking the semaphore
  and setting the holder, or between clearing the holder and giving the semaphore back.
\<close>

section \<open>Where a thread is in the lock functions\<close>

datatype lphase = Outside | Taken nat | Held nat | Dropped nat

fun prv :: "act \<Rightarrow> lphase" where
  "prv (Set_holder l) = Taken l"
| "prv (Clear_holder l) = Held l"
| "prv (Sema_up (Lock_sem l)) = Dropped l"
| "prv _ = Outside"

fun nxt :: "act \<Rightarrow> lphase \<Rightarrow> bool" where
  "nxt (Sema_down (Lock_sem l)) p = (p = Taken l)"
| "nxt (Down_loop (Lock_sem l) old) p = (p = Taken l)"
| "nxt (Clear_holder l) p = (p = Dropped l)"
| "nxt (Assert_held l) p = (p = Outside \<or> p = Held l)"
| "nxt _ p = (p = Outside)"

definition first :: "act list \<Rightarrow> lphase" where
  "first as = (case as of [] \<Rightarrow> Outside | a # _ \<Rightarrow> prv a)"

fun path :: "act list \<Rightarrow> bool" where
  "path [] = True"
| "path (a # as) = (nxt a (first as) \<and> path as)"

fun core :: "act list \<Rightarrow> act list" where
  "core (Set_level b # as) = core as"
| "core as = as"

fun lk_ok :: "nat \<Rightarrow> act \<Rightarrow> bool" where
  "lk_ok n (Set_holder l) = (l < n)"
| "lk_ok n (Clear_holder l) = (l < n)"
| "lk_ok n (Assert_held l) = (l < n)"
| "lk_ok n (Try_acquire l) = (l < n)"
| "lk_ok n (Sema_up (Lock_sem l)) = (l < n)"
| "lk_ok n (Sema_down (Lock_sem l)) = (l < n)"
| "lk_ok n (Down_loop (Lock_sem l) old) = (l < n)"
| "lk_ok n _ = True"

lemma first_simps [simp]: "first [] = Outside" "first (a # as) = prv a"
  by (simp_all add: first_def)

lemma prv_up: "prv (Sema_up s) = (case s of Sem a \<Rightarrow> Outside | Lock_sem l \<Rightarrow> Dropped l)"
  by (cases s) auto

lemma path_append: "path xs \<Longrightarrow> path as \<Longrightarrow> first as = Outside \<Longrightarrow> path (xs @ as)"
  by (induction xs rule: path.induct) (auto simp: first_def split: list.splits)

lemma first_append: "first xs = Outside \<Longrightarrow> first as = Outside \<Longrightarrow> first (xs @ as) = Outside"
  by (cases xs) auto

lemma path_core: "path as \<Longrightarrow> path (core as) \<and> first (core as) = first as"
  by (induction as rule: core.induct) auto

lemma core_id: "(\<And>b. a \<noteq> Set_level b) \<Longrightarrow> core (a # as) = a # as"
  by (cases a) auto

lemma lk_ok_mono: "lk_ok n a \<Longrightarrow> n \<le> m \<Longrightarrow> lk_ok m a"
  by (induction n a rule: lk_ok.induct) auto

section \<open>The invariant\<close>

definition phase :: "kern \<Rightarrow> nat \<Rightarrow> lphase" where
  "phase k t = first (core (td k t))"

definition passing :: "kern \<Rightarrow> nat \<Rightarrow> nat set" where
  "passing k l = {t. phase k t = Taken l \<or> phase k t = Dropped l}"

definition lvalue :: "kern \<Rightarrow> nat \<Rightarrow> nat" where
  "lvalue k l = sema_value (lsema (locks k l))"

definition lock_ok :: "kern \<Rightarrow> nat \<Rightarrow> bool" where
  "lock_ok k l \<longleftrightarrow> (lvalue k l = 1 \<and> holder (locks k l) = 0 \<and> passing k l = {})
     \<or> (lvalue k l = 0 \<and> holder (locks k l) \<noteq> 0 \<and> passing k l = {})
     \<or> (lvalue k l = 0 \<and> holder (locks k l) = 0 \<and> (\<exists>t. passing k l = {t}))"

definition locks_inv :: "kern \<Rightarrow> bool" where
  "locks_inv k \<longleftrightarrow> (\<forall>t. path (core (td k t)) \<and> (\<forall>a \<in> set (td k t). lk_ok (next_obj k) a))
     \<and> (\<forall>l < next_obj k. lock_ok k l) \<and> (\<forall>t l. phase k t = Held l \<longrightarrow> holder (locks k l) = t)
     \<and> tid_lock k < next_obj k \<and> (\<forall>ws w. wait_statuses k ws = Some w \<longrightarrow> o_reference_count_lock w < next_obj k)"

lemma locks_invD:
  assumes "locks_inv k"
  shows "path (core (td k t))" "\<forall>a \<in> set (td k t). lk_ok (next_obj k) a" "l < next_obj k \<Longrightarrow> lock_ok k l"
    "phase k t = Held l \<Longrightarrow> holder (locks k l) = t" "tid_lock k < next_obj k"
    "wait_statuses k ws = Some w \<Longrightarrow> o_reference_count_lock w < next_obj k"
  using assms unfolding locks_inv_def by auto

lemma core_subset: "set (core as) \<subseteq> set as"
  by (induction as rule: core.induct) auto

lemma phase_bound:
  assumes "locks_inv k"
  shows "phase k t = Held l \<Longrightarrow> l < next_obj k" "phase k t = Taken l \<Longrightarrow> l < next_obj k" "phase k t = Dropped l \<Longrightarrow> l < next_obj k"
proof -
  have b: "lk_ok (next_obj k) a" if "core (td k t) = a # as" for a as
    using locks_invD(2) [OF assms, of t] core_subset [of "td k t"] that by auto
  show "phase k t = Held l \<Longrightarrow> l < next_obj k" "phase k t = Taken l \<Longrightarrow> l < next_obj k" "phase k t = Dropped l \<Longrightarrow> l < next_obj k"
    using b by (auto simp: phase_def first_def split: list.splits elim!: prv.elims)
qed

text \<open>A step that changes no lock and no thread's phase.\<close>

lemma keepI:
  assumes I: "locks_inv k" and L: "\<And>l. l < next_obj k \<Longrightarrow> lvalue k' l = lvalue k l" "\<And>l. l < next_obj k \<Longrightarrow> holder (locks k' l) = holder (locks k l)"
    and n: "next_obj k' = next_obj k" "tid_lock k' = tid_lock k"
    and w: "\<And>ws w. wait_statuses k' ws = Some w \<Longrightarrow> o_reference_count_lock w < next_obj k"
    and t: "\<And>t. path (core (td k' t))" "\<And>t. phase k' t = phase k t" "\<And>t. \<forall>a \<in> set (td k' t). lk_ok (next_obj k) a"
  shows "locks_inv k'"
proof -
  have p: "passing k' l = passing k l" for l by (simp add: passing_def t(2))
  show ?thesis unfolding locks_inv_def n
  proof (intro conjI allI impI)
    fix u show "path (core (td k' u))" by (rule t(1)) show "\<forall>a \<in> set (td k' u). lk_ok (next_obj k) a" by (rule t(3))
  next
    fix l assume l: "l < next_obj k"
    then show "lock_ok k' l" using locks_invD(3) [OF I l] L [OF l] by (simp add: lock_ok_def p)
  next
    fix u l assume "phase k' u = Held l"
    then have h: "phase k u = Held l" by (simp add: t(2))
    show "holder (locks k' l) = u" using L(2) [OF phase_bound(1) [OF I h]] locks_invD(4) [OF I h] by simp
  next
    show "tid_lock k < next_obj k" by (rule locks_invD(5) [OF I])
  next
    fix ws w assume "wait_statuses k' ws = Some w" then show "o_reference_count_lock w < next_obj k" by (rule w)
  qed
qed

section \<open>Actions that change no lock\<close>

lemma td_set_sem [simp]: "td (set_sem s v k) = td k" "st (set_sem s v k) = st k"
  "td (set_lock_holder l t k) = td k" "st (set_lock_holder l t k) = st k"
  by (simp_all add: td_def st_def fun_eq_iff)

definition ws_locks :: "kern \<Rightarrow> bool" where
  "ws_locks k \<longleftrightarrow> (\<forall>ws w. wait_statuses k ws = Some w \<longrightarrow> o_reference_count_lock w < next_obj k)"

definition same_locks :: "kern \<Rightarrow> kern \<Rightarrow> bool" where
  "same_locks k j \<longleftrightarrow> td j = td k \<and> st j = st k \<and> running j = running k \<and> locks j = locks k \<and> next_obj j = next_obj k \<and> tid_lock j = tid_lock k \<and> ws_locks j"

text \<open>The running thread has more to do, and starts and ends outside the lock functions.\<close>

definition pushes :: "kern \<Rightarrow> kern \<Rightarrow> bool" where
  "pushes k k' \<longleftrightarrow> (\<exists>xs. td k' = (td k)(running k := xs @ td k (running k)) \<and> path xs \<and> first xs = Outside \<and> list_all (lk_ok (next_obj k)) xs)
     \<and> locks k' = locks k \<and> next_obj k' = next_obj k \<and> tid_lock k' = tid_lock k \<and> ws_locks k'"

lemma pushes_same: "same_locks k j \<Longrightarrow> pushes k j"
  unfolding pushes_def same_locks_def by (intro conjI exI [of _ "[]"]) auto

lemma pushes_call:
  assumes "same_locks k j" "st k (running k) \<noteq> None" "path xs" "first xs = Outside" "list_all (lk_ok (next_obj k)) xs"
  shows "pushes k (call xs j)"
proof -
  have "ws_locks (call xs j)" using assms(1) by (auto simp: same_locks_def ws_locks_def)
  then show ?thesis using assms unfolding pushes_def same_locks_def by (intro conjI exI [of _ xs]) auto
qed

lemma lock_paths [simp]:
  "path (lock_acquire l @ as) \<longleftrightarrow> first as = Outside \<and> path as" "first (lock_acquire l @ as) = Outside"
  "path (lock_release l @ as) \<longleftrightarrow> first as = Outside \<and> path as" "first (lock_release l @ as) = Outside"
  "path (lock_acquire l)" "first (lock_acquire l) = Outside" "path (lock_release l)" "first (lock_release l) = Outside"
  "list_all (lk_ok n) (lock_acquire l) \<longleftrightarrow> l < n" "list_all (lk_ok n) (lock_release l) \<longleftrightarrow> l < n"
  by (auto simp: lock_acquire_def lock_release_def)

lemma same_locks_refl: "ws_locks k \<Longrightarrow> same_locks k k"
  by (simp add: same_locks_def)

lemma same_locks_upd: "ws_locks k \<Longrightarrow> (\<And>th. status (f th) = status th) \<Longrightarrow> (\<And>th. todo (f th) = todo th) \<Longrightarrow> same_locks k (upd_thread t f k)"
  by (simp add: same_locks_def ws_locks_def)

definition lock_act :: "act \<Rightarrow> bool" where
  "lock_act a \<longleftrightarrow> (\<exists>l. a = Set_holder l \<or> a = Clear_holder l \<or> a = Sema_up (Lock_sem l) \<or> a = Try_acquire l)"

lemma no_lock_phase:
  assumes "quiet a" "\<not> lock_act a" "\<And>l. a \<noteq> Assert_held l"
  shows "prv a = Outside" "nxt a p \<longleftrightarrow> p = Outside"
  using assms by (cases a; auto simp: quiet_def plain_def lock_act_def prv_up split: sref.splits)+

lemma upped_locks:
  assumes "threads_ok k"
  shows "locks (upped (Sem s) k) = locks k" "next_obj (upped (Sem s) k) = next_obj k" "tid_lock (upped (Sem s) k) = tid_lock k"
    "wait_statuses (upped s' k) = wait_statuses k" "next_obj (upped s' k) = next_obj k" "tid_lock (upped s' k) = tid_lock k"
    "holder (locks (upped s' k) l) = holder (locks k l)" "lvalue (upped (Lock_sem l) k) l' = (if l' = l then sz (lvalue k l + 1) else lvalue k l')"
  by (auto simp: upped_def woken_def set_sem_def set_status_def upd_thread_def Let_def lvalue_def sem_def split: list.splits sref.splits)

lemma quiet_pushes:
  assumes "stepping k" "run_act a k = Some k'" "quiet a" "\<not> lock_act a" "ws_locks k"
  shows "pushes k k'"
proof -
  note d = steppingD [OF assms(1)]
  have alive: "st k (running k) \<noteq> None" using d(3) by (auto simp: st_def)
  have b: "wait_statuses k ws = Some w \<Longrightarrow> o_reference_count_lock w < next_obj k" for ws w using assms(5) by (auto simp: ws_locks_def)
  note r = same_locks_refl [OF assms(5)] and u = same_locks_upd [OF assms(5)]
  show ?thesis
  proof (cases a)
    case (Sema_up s)
    then obtain x where s: "s = Sem x" using assms(4) by (cases s) (auto simp: lock_act_def)
    then have "k' = upped (Sem x) k" using Sema_up assms(2) stepping_up(1) [OF assms(1)] by simp
    then show ?thesis using upped_locks [OF d(1)] sema_up_ok(3,4) [OF d(1)] assms(5)
      unfolding pushes_def by (intro conjI exI [of _ "[]"]) (auto simp: ws_locks_def)
  next
    case (Add_ref ws n)
    then show ?thesis using assms(2) r b [of ws] alive
      by (auto simp: add_ref_def Let_def bind_eq_Some_conv ws_locks_def same_locks_def intro!: pushes_call)
  next
    case (Free_wait_status ws)
    then show ?thesis using assms(2,5) by (auto simp: bind_eq_Some_conv same_locks_def ws_locks_def intro!: pushes_same)
  next
    case (Reap ws)
    then show ?thesis using assms(2) b [of ws] alive u
      by (auto simp: reap_def wait_status_mod_ref_def Let_def bind_eq_Some_conv intro!: pushes_call)
  next
    case (Process_wait c)
    then show ?thesis using assms(2) d(2) alive r u
      by (auto simp: process_wait_def bind_eq_Some_conv split: if_splits intro!: pushes_call intro: pushes_same)
  next
    case Process_exit
    then show ?thesis using assms(2) d(2) alive u
      by (auto simp: bind_eq_Some_conv Let_def split: if_splits intro!: pushes_call)
  next
    case Exit_children
    obtain th where "threads k (running k) = Some th" using d(3) by blast
    then show ?thesis using assms(2) d(2) Exit_children alive r u b by (cases "o_children_wait_status_list th")
        (auto simp: exit_children_def wait_status_mod_ref_def bind_eq_Some_conv Let_def intro!: pushes_call)
  next
    case (Cond_signal c l)
    have "same_locks k (k\<lparr>conds := f\<rparr>)" for f using assms(5) by (simp add: same_locks_def ws_locks_def)
    then show ?thesis using assms(2) Cond_signal d(2,4) alive r
      by (cases "conds k c") (auto simp: lock_held_by_current_thread_def split: if_splits intro!: pushes_call intro: pushes_same)
  next
    case (Set_level b)
    have "same_locks k (k\<lparr>intr_on := b\<rparr>)" using assms(5) by (simp add: same_locks_def ws_locks_def)
    then show ?thesis using Set_level assms(2) pushes_same by auto
  next
    case (Sema_init w v)
    have "same_locks k (sema_init w v k)" using assms(5) by (simp add: same_locks_def ws_locks_def)
    then show ?thesis using Sema_init assms(2) pushes_same by auto
  next
    case (Cond_push c w)
    have "same_locks k (k\<lparr>conds := f\<rparr>)" for f using assms(5) by (simp add: same_locks_def ws_locks_def)
    then show ?thesis using Cond_push assms(2) pushes_same by auto
  next
    case Exit_begin
    have "same_locks k (k\<lparr>intr_on := False, all_list := f\<rparr>)" for f using assms(5) by (simp add: same_locks_def ws_locks_def)
    then show ?thesis using Exit_begin assms(2) d(2) pushes_same by (auto simp: bind_eq_Some_conv split: if_splits)
  qed (use assms d(2,4) r alive in \<open>auto simp: quiet_def plain_def lock_act_def lock_held_by_current_thread_def split: if_splits
      intro!: pushes_call intro: pushes_same\<close>)
qed

section \<open>Context switches\<close>

definition same_objects :: "kern \<Rightarrow> kern \<Rightarrow> bool" where
  "same_objects k k' \<longleftrightarrow> (\<forall>l. lvalue k' l = lvalue k l \<and> holder (locks k' l) = holder (locks k l))
     \<and> next_obj k' = next_obj k \<and> tid_lock k' = tid_lock k \<and> wait_statuses k' = wait_statuses k"

lemma td_none: "threads j = (threads k)(t := None) \<Longrightarrow> td j = (td k)(t := [])"
  by (auto simp: td_def fun_eq_iff)

lemma tail_todo:
  assumes "thread_schedule_tail prev k = Some k'"
  shows "same_objects k k'" "td k' = td k \<or> st k prev = Some THREAD_DYING \<and> td k' = (td k)(prev := [])"
proof -
  let ?k = "(set_status (running k) THREAD_RUNNING k)\<lparr>thread_ticks := 0\<rparr>"
  have "k' = ?k \<or> st k prev = Some THREAD_DYING \<and> k' = ?k\<lparr>threads := (threads ?k)(prev := None)\<rparr>"
    using assms by (auto simp: thread_schedule_tail_def running_thread_def Let_def bind_eq_Some_conv st_def set_status_def upd_thread_def split: if_splits)
  moreover have "td (?k\<lparr>threads := (threads ?k)(prev := None)\<rparr>) = (td ?k)(prev := [])" by (rule td_none) simp
  ultimately show "same_objects k k'" "td k' = td k \<or> st k prev = Some THREAD_DYING \<and> td k' = (td k)(prev := [])"
    by (auto simp: same_objects_def lvalue_def)
qed

lemma schedule_todo:
  assumes "schedule k = Some k'"
  shows "same_objects k k'" "td k' = td k \<or> st k (running k) = Some THREAD_DYING \<and> td k' = (td k)(running k := [])"
proof -
  obtain nx j where n: "next_thread_to_run k = (nx, j)" by (cases "next_thread_to_run k")
  then have j: "j = k \<or> (\<exists>ts. j = k\<lparr>ready_list := ts\<rparr>)" by (auto simp: next_thread_to_run_def split: list.splits)
  have v: "td j = td k" "st j = st k" "same_objects k j" "running j = running k" using j by (auto simp: same_objects_def lvalue_def)
  have s: "thread_schedule_tail (running k) (j\<lparr>running := nx\<rparr>) = Some k' \<or> thread_schedule_tail 0 j = Some k' \<and> running k = nx"
    using assms n by (auto simp: schedule_def running_thread_def Let_def bind_eq_Some_conv split: if_splits)
  have "same_objects k k' \<and> (td k' = td k \<or> st k (running k) = Some THREAD_DYING \<and> td k' = (td k)(running k := []))" using s
  proof
    assume "thread_schedule_tail (running k) (j\<lparr>running := nx\<rparr>) = Some k'"
    note t = tail_todo [OF this]
    then show ?thesis using v by (auto simp: same_objects_def lvalue_def)
  next
    assume "thread_schedule_tail 0 j = Some k' \<and> running k = nx"
    then have e: "k' = (set_status (running j) THREAD_RUNNING j)\<lparr>thread_ticks := 0\<rparr>"
      by (auto simp: thread_schedule_tail_def running_thread_def Let_def bind_eq_Some_conv split: if_splits)
    then show ?thesis using v by (auto simp: same_objects_def lvalue_def)
  qed
  then show "same_objects k k'" "td k' = td k \<or> st k (running k) = Some THREAD_DYING \<and> td k' = (td k)(running k := [])" by auto
qed

lemma current_is: "thread_current k = Some t \<Longrightarrow> t = running k \<and> st k (running k) = Some THREAD_RUNNING \<and> t \<noteq> 0"
  by (auto simp: thread_current_def running_thread_def is_thread_def Let_def bind_eq_Some_conv st_def split: if_splits)

lemma block_todo:
  assumes "thread_block k = Some k'"
  shows "same_objects k k'" "td k' = td k"
proof -
  have s: "schedule (set_status (running k) THREAD_BLOCKED k) = Some k'" and r: "st k (running k) = Some THREAD_RUNNING"
    using assms by (auto simp: thread_block_def bind_eq_Some_conv dest: current_is split: if_splits)
  show "same_objects k k'" "td k' = td k" using schedule_todo [OF s] r by (auto simp: same_objects_def lvalue_def)
qed

lemma yield_todo:
  assumes "thread_yield k = Some k'"
  shows "same_objects k k'" "td k' = (td k)(running k := Set_level (intr_on k) # td k (running k))"
proof -
  obtain j where j: "schedule (set_status (running k) THREAD_READY j) = Some k'" "td j = (td k)(running k := Set_level (intr_on k) # td k (running k))"
    "same_objects k j" "st j = st k" "running j = running k" and r: "st k (running k) = Some THREAD_RUNNING"
  proof -
    have c: "thread_current k = Some (running k)" using assms by (auto simp: thread_yield_def bind_eq_Some_conv dest: current_is)
    let ?j = "let k' = (call [Set_level (intr_on k)] k)\<lparr>intr_on := False\<rparr> in if running k \<noteq> idle_thread k then k'\<lparr>ready_list := ready_list k' @ [running k]\<rparr> else k'"
    have "schedule (set_status (running k) THREAD_READY ?j) = Some k'" using assms c by (auto simp: thread_yield_def Let_def split: if_splits)
    then show ?thesis by (rule that) (use current_is [OF c] in \<open>auto simp: Let_def same_objects_def lvalue_def\<close>)
  qed
  have "td k' = td j" "same_objects j k'" using schedule_todo [OF j(1)] r j(4,5) by (auto simp: same_objects_def lvalue_def)
  then show "same_objects k k'" "td k' = (td k)(running k := Set_level (intr_on k) # td k (running k))"
    using j(2,3) by (auto simp: same_objects_def)
qed

lemma down_todo:
  assumes "down_loop s old k = Some k'"
  shows "sema_value (sem k s) = 0 \<Longrightarrow> same_objects k k' \<and> td k' = (td k)(running k := Down_loop s old # td k (running k))"
    "sema_value (sem k s) \<noteq> 0 \<Longrightarrow> k' = (set_sem s ((sem k s)\<lparr>sema_value := sema_value (sem k s) - 1\<rparr>) k)\<lparr>intr_on := old\<rparr>"
proof -
  show "sema_value (sem k s) \<noteq> 0 \<Longrightarrow> k' = (set_sem s ((sem k s)\<lparr>sema_value := sema_value (sem k s) - 1\<rparr>) k)\<lparr>intr_on := old\<rparr>"
    using assms by (simp add: down_loop_def)
  assume v: "sema_value (sem k s) = 0"
  let ?j = "call [Down_loop s old] (set_sem s ((sem k s)\<lparr>waiters := waiters (sem k s) @ [running k]\<rparr>) k)"
  have b: "thread_block ?j = Some k'" and r: "st k (running k) = Some THREAD_RUNNING"
    using assms v by (auto simp: down_loop_def bind_eq_Some_conv dest: current_is split: if_splits)
  have "st (set_sem s x k) = st k" "td (set_sem s x k) = td k" for x by (simp_all add: st_def td_def fun_eq_iff)
  then have "td ?j = (td k)(running k := Down_loop s old # td k (running k))" using r by simp
  moreover have "same_objects k ?j" by (auto simp: same_objects_def lvalue_def set_sem_def sem_def split: sref.splits)
  ultimately show "same_objects k k' \<and> td k' = (td k)(running k := Down_loop s old # td k (running k))"
    using block_todo [OF b] by (auto simp: same_objects_def)
qed

section \<open>Every action keeps the invariant\<close>

definition same_values :: "kern \<Rightarrow> kern \<Rightarrow> bool" where
  "same_values k k' \<longleftrightarrow> (\<forall>l < next_obj k. lvalue k' l = lvalue k l \<and> holder (locks k' l) = holder (locks k l))
     \<and> next_obj k' = next_obj k \<and> tid_lock k' = tid_lock k \<and> ws_locks k'"

lemma same_valuesI: "same_objects k k' \<Longrightarrow> locks_inv k \<Longrightarrow> same_values k k'"
  using locks_invD(6) [of k] by (auto simp: same_objects_def same_values_def ws_locks_def)

lemma neutral:
  assumes I: "locks_inv k" and p: "phase k r = Outside" and v: "same_values k k'"
    and t: "td k' = (td k)(r := ys)" "path ys" "first ys = Outside" "list_all (lk_ok (next_obj k)) ys"
  shows "locks_inv k'"
proof (rule keepI [OF I])
  show "path (core (td k' u))" for u using t(1,2) path_core [of ys] locks_invD(1) [OF I, of u] by simp
  show "phase k' u = phase k u" for u using t p path_core [of ys] by (auto simp: phase_def)
  show "\<forall>a \<in> set (td k' u). lk_ok (next_obj k) a" for u using t(1,4) locks_invD(2) [OF I, of u] by (simp add: list_all_iff)
qed (use v in \<open>auto simp: same_values_def ws_locks_def\<close>)

lemma movedI:
  assumes I: "locks_inv k" and n: "next_obj k' = next_obj k" "tid_lock k' = tid_lock k" "ws_locks k'"
    and t: "\<And>t. t \<noteq> r \<Longrightarrow> td k' t = td k t" "path (td k' r)" "list_all (lk_ok (next_obj k)) (td k' r)"
    and L: "\<And>l. l < next_obj k \<Longrightarrow> lock_ok k' l"
    and H: "\<And>t l. t \<noteq> r \<Longrightarrow> phase k t = Held l \<Longrightarrow> holder (locks k' l) = t" "\<And>l. first (td k' r) = Held l \<Longrightarrow> holder (locks k' l) = r"
  shows "locks_inv k'"
  unfolding locks_inv_def n
proof (intro conjI allI impI)
  have c: "path (core (td k' r))" "phase k' r = first (td k' r)" using path_core [OF t(2)] by (auto simp: phase_def)
  fix u
  show "path (core (td k' u))" using c(1) t(1) [of u] locks_invD(1) [OF I, of u] by (cases "u = r") auto
  show "\<forall>a \<in> set (td k' u). lk_ok (next_obj k) a" using t(1) [of u] t(3) locks_invD(2) [OF I, of u] by (cases "u = r") (auto simp: list_all_iff)
  fix l show "phase k' u = Held l \<Longrightarrow> holder (locks k' l) = u"
    using H c(2) t(1) [of u] by (cases "u = r") (auto simp: phase_def)
qed (use L n locks_invD(5) [OF I] in \<open>auto simp: ws_locks_def\<close>)

lemma passing_moved:
  assumes "\<And>t. t \<noteq> r \<Longrightarrow> td k' t = td k t"
  shows "passing k' l = (passing k l - {r}) \<union> (if phase k' r = Taken l \<or> phase k' r = Dropped l then {r} else {})"
proof -
  have e: "phase k' t = phase k t" if "t \<noteq> r" for t using assms [OF that] by (simp add: phase_def)
  show ?thesis
  proof (rule set_eqI)
    fix x show "x \<in> passing k' l \<longleftrightarrow> x \<in> (passing k l - {r}) \<union> (if phase k' r = Taken l \<or> phase k' r = Dropped l then {r} else {})"
      using e [of x] by (cases "x = r") (auto simp: passing_def)
  qed
qed

lemma lock_ok_other:
  assumes "\<And>t. t \<noteq> r \<Longrightarrow> td k' t = td k t" "lvalue k' l = lvalue k l" "holder (locks k' l) = holder (locks k l)"
    "phase k r \<noteq> Taken l" "phase k r \<noteq> Dropped l" "phase k' r \<noteq> Taken l" "phase k' r \<noteq> Dropped l"
  shows "lock_ok k' l = lock_ok k l"
proof -
  have "r \<notin> passing k l" using assms(4,5) by (simp add: passing_def)
  then have "passing k' l = passing k l" using passing_moved [of r k' k l] assms(1) assms(6,7) by auto
  then show ?thesis using assms(2,3) by (simp add: lock_ok_def)
qed

text \<open>The thread takes the semaphore of a lock.\<close>

lemma take_ok:
  assumes I: "locks_inv k" and p: "phase k r = Outside" and l: "l < next_obj k" "lvalue k l \<noteq> 0"
    and v: "lvalue k' = (lvalue k)(l := lvalue k l - 1)" "\<And>m. holder (locks k' m) = holder (locks k m)"
    and n: "next_obj k' = next_obj k" "tid_lock k' = tid_lock k" "ws_locks k'"
    and t: "td k' = (td k)(r := ys)" "path ys" "first ys = Taken l" "list_all (lk_ok (next_obj k)) ys"
  shows "locks_inv k'"
proof (rule movedI [OF I n, of r])
  have ph: "phase k' r = Taken l" using t path_core [of ys] by (simp add: phase_def)
  have o: "td k' u = td k u" if "u \<noteq> r" for u using t(1) that by simp
  have k: "lvalue k l = 1" "holder (locks k l) = 0" "passing k l = {}" using locks_invD(3) [OF I l(1)] l(2) by (auto simp: lock_ok_def)
  show "lock_ok k' m" if "m < next_obj k" for m
  proof (cases "m = l")
    case True
    then show ?thesis using k v ph passing_moved [of r k' k l] o by (simp add: lock_ok_def)
  next
    case False
    then have "lock_ok k' m = lock_ok k m" using v p ph by (intro lock_ok_other [OF o]) auto
    then show ?thesis using locks_invD(3) [OF I that] by simp
  qed
  show "u \<noteq> r \<Longrightarrow> phase k u = Held m \<Longrightarrow> holder (locks k' m) = u" for u m using locks_invD(4) [OF I] v(2) by simp
qed (use t in auto)

text \<open>The thread sets the holder.\<close>

lemma hold_ok:
  assumes I: "locks_inv k" and p: "phase k r = Taken l" and r: "r \<noteq> 0" "td k 0 = []"
    and v: "lvalue k' = lvalue k" "\<And>m. holder (locks k' m) = (if m = l then r else holder (locks k m))"
    and n: "next_obj k' = next_obj k" "tid_lock k' = tid_lock k" "ws_locks k'"
    and t: "td k' = (td k)(r := ys)" "path ys" "first ys = Outside" "list_all (lk_ok (next_obj k)) ys"
  shows "locks_inv k'"
proof (rule movedI [OF I n, of r])
  have ph: "phase k' r = Outside" using t path_core [of ys] by (simp add: phase_def)
  have o: "td k' u = td k u" if "u \<noteq> r" for u using t(1) that by simp
  have l: "l < next_obj k" by (rule phase_bound(2) [OF I p])
  have "r \<in> passing k l" using p by (simp add: passing_def)
  then have k: "lvalue k l = 0" "holder (locks k l) = 0" "passing k l = {r}" using locks_invD(3) [OF I l] by (auto simp: lock_ok_def)
  show "lock_ok k' m" if "m < next_obj k" for m
  proof (cases "m = l")
    case True
    then show ?thesis using k v ph r passing_moved [of r k' k l] o by (simp add: lock_ok_def)
  next
    case False
    then have "lock_ok k' m = lock_ok k m" using v p ph by (intro lock_ok_other [OF o]) auto
    then show ?thesis using locks_invD(3) [OF I that] by simp
  qed
  show "holder (locks k' m) = u" if "u \<noteq> r" "phase k u = Held m" for u m
  proof -
    have "holder (locks k m) = u" by (rule locks_invD(4) [OF I that(2)])
    moreover have "u \<noteq> 0" using that(2) r(2) by (auto simp: phase_def intro: ccontr)
    ultimately show ?thesis using v(2) k(2) by auto
  qed
qed (use t in auto)

text \<open>The thread clears the holder.\<close>

lemma clear_ok:
  assumes I: "locks_inv k" and p: "phase k r = Held l" and r: "r \<noteq> 0"
    and v: "lvalue k' = lvalue k" "\<And>m. holder (locks k' m) = (if m = l then 0 else holder (locks k m))"
    and n: "next_obj k' = next_obj k" "tid_lock k' = tid_lock k" "ws_locks k'"
    and t: "td k' = (td k)(r := ys)" "path ys" "first ys = Dropped l" "list_all (lk_ok (next_obj k)) ys"
  shows "locks_inv k'"
proof (rule movedI [OF I n, of r])
  have ph: "phase k' r = Dropped l" using t path_core [of ys] by (simp add: phase_def)
  have o: "td k' u = td k u" if "u \<noteq> r" for u using t(1) that by simp
  have l: "l < next_obj k" by (rule phase_bound(1) [OF I p])
  have h: "holder (locks k l) = r" by (rule locks_invD(4) [OF I p])
  then have k: "lvalue k l = 0" "passing k l = {}" using locks_invD(3) [OF I l] r by (auto simp: lock_ok_def)
  show "lock_ok k' m" if "m < next_obj k" for m
  proof (cases "m = l")
    case True
    then show ?thesis using k v ph passing_moved [of r k' k l] o by (simp add: lock_ok_def)
  next
    case False
    then have "lock_ok k' m = lock_ok k m" using v p ph by (intro lock_ok_other [OF o]) auto
    then show ?thesis using locks_invD(3) [OF I that] by simp
  qed
  show "holder (locks k' m) = u" if "u \<noteq> r" "phase k u = Held m" for u m
    using locks_invD(4) [OF I that(2)] h that(1) v(2) by auto
qed (use t in auto)

text \<open>The thread gives the semaphore back.\<close>

lemma give_ok:
  assumes I: "locks_inv k" and p: "phase k r = Dropped l"
    and v: "lvalue k' = (lvalue k)(l := sz (lvalue k l + 1))" "\<And>m. holder (locks k' m) = holder (locks k m)"
    and n: "next_obj k' = next_obj k" "tid_lock k' = tid_lock k" "ws_locks k'"
    and t: "td k' = (td k)(r := ys)" "path ys" "first ys = Outside" "list_all (lk_ok (next_obj k)) ys"
  shows "locks_inv k'"
proof (rule movedI [OF I n, of r])
  have ph: "phase k' r = Outside" using t path_core [of ys] by (simp add: phase_def)
  have o: "td k' u = td k u" if "u \<noteq> r" for u using t(1) that by simp
  have l: "l < next_obj k" by (rule phase_bound(3) [OF I p])
  have "r \<in> passing k l" using p by (simp add: passing_def)
  then have k: "lvalue k l = 0" "holder (locks k l) = 0" "passing k l = {r}" using locks_invD(3) [OF I l] by (auto simp: lock_ok_def)
  have one: "sz (Suc 0) = 1" by (simp add: sz_def)
  show "lock_ok k' m" if "m < next_obj k" for m
  proof (cases "m = l")
    case True
    then show ?thesis using k v ph passing_moved [of r k' k l] o one by (simp add: lock_ok_def)
  next
    case False
    then have "lock_ok k' m = lock_ok k m" using v p ph by (intro lock_ok_other [OF o]) auto
    then show ?thesis using locks_invD(3) [OF I that] by simp
  qed
  show "u \<noteq> r \<Longrightarrow> phase k u = Held m \<Longrightarrow> holder (locks k' m) = u" for u m using locks_invD(4) [OF I] v(2) by simp
qed (use t in auto)

text \<open>The thread knows that it holds the lock.\<close>

lemma held_ok:
  assumes I: "locks_inv k" and p: "phase k r = Outside" and h: "holder (locks k l) = r" and v: "same_values k k'" "l < next_obj k"
    and t: "td k' = (td k)(r := ys)" "path ys" "first ys = Held l" "list_all (lk_ok (next_obj k)) ys"
  shows "locks_inv k'"
proof (rule movedI [OF I])
  have ph: "phase k' r = Held l" using t path_core [of ys] by (simp add: phase_def)
  have o: "td k' u = td k u" if "u \<noteq> r" for u using t(1) that by simp
  show "lock_ok k' m" if "m < next_obj k" for m
  proof -
    have "lock_ok k' m = lock_ok k m" using v p ph that by (intro lock_ok_other [OF o]) (auto simp: same_values_def)
    then show ?thesis using locks_invD(3) [OF I that] by simp
  qed
  show "u \<noteq> r \<Longrightarrow> phase k u = Held m \<Longrightarrow> holder (locks k' m) = u" for u m
    using locks_invD(4) [OF I] phase_bound(1) [OF I] v(1) by (auto simp: same_values_def)
qed (use t v h in \<open>auto simp: same_values_def\<close>)

text \<open>The holder of a lock changes only when the running thread sets it while there is none, or clears it
  while it is the holder.\<close>

definition moves :: "nat \<Rightarrow> act \<Rightarrow> kern \<Rightarrow> kern \<Rightarrow> bool" where
  "moves r a k k' \<longleftrightarrow> next_obj k \<le> next_obj k' \<and> (\<forall>l < next_obj k. holder (locks k' l) = holder (locks k l)
     \<or> a = Set_holder l \<and> holder (locks k l) = 0 \<and> holder (locks k' l) = r
     \<or> a = Clear_holder l \<and> holder (locks k l) = r \<and> holder (locks k' l) = 0)"

lemma moves_same: "same_values k k' \<Longrightarrow> moves r a k k'"
  by (simp add: moves_def same_values_def)

lemma core_act:
  assumes "locks_inv k" "td k r = a # as" "\<And>b. a \<noteq> Set_level b"
  shows "phase k r = prv a" "nxt a (first as)" "path as" "list_all (lk_ok (next_obj k)) as" "lk_ok (next_obj k) a"
  using locks_invD(1,2) [OF assms(1), of r] assms(2) core_id [of a as] assms(3) by (auto simp: phase_def list_all_iff)

lemma popped_values: "locks_inv k \<Longrightarrow> same_objects k (set_todo r as k)"
  by (simp add: same_objects_def lvalue_def)

lemma pushes_ok:
  assumes I: "locks_inv k" and c: "td k (running k) = a # as" and a: "\<And>b. a \<noteq> Set_level b" "prv a = Outside" "first as = Outside"
    and p: "pushes (set_todo (running k) as k) k'" and r: "st k (running k) \<noteq> None"
  shows "locks_inv k'" "same_values k k'"
proof -
  note ca = core_act [OF I c a(1)]
  obtain xs where x: "td k' = (td k)(running k := xs @ as)" "path xs" "first xs = Outside" "list_all (lk_ok (next_obj k)) xs"
    and e: "locks k' = locks k" "next_obj k' = next_obj k" "tid_lock k' = tid_lock k" "ws_locks k'"
    using p r by (auto simp: pushes_def)
  show v: "same_values k k'" using e by (simp add: same_values_def lvalue_def)
  show "locks_inv k'"
    by (rule neutral [OF I _ v x(1)]) (use ca a x path_append first_append in auto)
qed

lemma level_step:
  assumes I: "locks_inv k" and c: "td k (running k) = Set_level b # as" and r: "st k (running k) \<noteq> None"
  shows "locks_inv ((set_todo (running k) as k)\<lparr>intr_on := b\<rparr>)"
proof (rule keepI [OF I])
  let ?k = "(set_todo (running k) as k)\<lparr>intr_on := b\<rparr>"
  have t: "td ?k = (td k)(running k := as)" using r by auto
  show "path (core (td ?k u))" "phase ?k u = phase k u" "\<forall>a \<in> set (td ?k u). lk_ok (next_obj k) a" for u
    using locks_invD(1,2) [OF I, of u] c t by (auto simp: phase_def)
qed (use locks_invD(6) [OF I] in \<open>auto simp: lvalue_def\<close>)

lemma down_step:
  assumes I: "locks_inv k" and c: "td k (running k) = a # as" and r: "st k (running k) \<noteq> None"
    and a: "a = Sema_down s \<or> a = Down_loop s old'"
    and d: "down_loop s old ((set_todo (running k) as k)\<lparr>intr_on := b\<rparr>) = Some k'"
  shows "locks_inv k'" "moves (running k) a k k'"
proof -
  let ?k = "(set_todo (running k) as k)\<lparr>intr_on := b\<rparr>"
  have na: "a \<noteq> Set_level b" for b using a by auto
  note ca = core_act [OF I c na]
  have p: "phase k (running k) = Outside" using a ca(1) by auto
  have t: "td ?k = (td k)(running k := as)" "running ?k = running k" "same_objects k ?k" "sem ?k = sem k" using r by (auto simp: same_objects_def lvalue_def)
  have w: "ws_locks k" using locks_invD(6) [OF I] by (simp add: ws_locks_def)
  have "locks_inv k' \<and> moves (running k) a k k'"
  proof (cases "sema_value (sem k s) = 0")
    case True
    then have e: "same_objects ?k k'" "td k' = (td k)(running k := Down_loop s old # as)" using down_todo(1) [OF d] t r by auto
    have v: "same_values k k'" by (rule same_valuesI [OF _ I]) (use e(1) t(3) in \<open>auto simp: same_objects_def\<close>)
    have "path (Down_loop s old # as)" using a ca(2,3) by (cases s) auto
    moreover have "lk_ok (next_obj k) (Down_loop s old)" using a ca(5) by (cases s) auto
    ultimately show ?thesis using neutral [OF I p v e(2)] ca(4) moves_same [OF v] by simp
  next
    case False
    then have e: "k' = (set_sem s ((sem k s)\<lparr>sema_value := sema_value (sem k s) - 1\<rparr>) ?k)\<lparr>intr_on := old\<rparr>" using down_todo(2) [OF d] t(4) by simp
    have tk: "td k' = (td k)(running k := as)" 
    proof -
      have "td k' = td ?k" by (simp only: e td_set_sem st_fields)
      then show ?thesis using t(1) by simp
    qed
    have n: "next_obj k' = next_obj k" "tid_lock k' = tid_lock k" "ws_locks k'" using w by (simp_all add: e ws_locks_def)
    have h: "holder (locks k' m) = holder (locks k m)" for m by (simp add: e)
    show ?thesis
    proof (cases s)
      case (Sem x)
      then have v: "same_values k k'" using n by (simp add: same_values_def lvalue_def e set_sem_def)
      then show ?thesis using neutral [OF I p v tk] ca(2,3,4) a Sem moves_same [OF v] by auto
    next
      case (Lock_sem l)
      have "first as = Taken l" "l < next_obj k" using ca(2,5) a Lock_sem by auto
      moreover have "lvalue k' = (lvalue k)(l := lvalue k l - 1)" using Lock_sem by (auto simp: lvalue_def e set_sem_def sem_def)
      moreover have "lvalue k l \<noteq> 0" using False Lock_sem by (simp add: lvalue_def sem_def)
      ultimately show ?thesis using take_ok [OF I p _ _ _ h n tk] ca(3,4) h n by (auto simp: moves_def)
    qed
  qed
  then show "locks_inv k'" "moves (running k) a k k'" by auto
qed

section \<open>Creating threads\<close>

lemma Init_locks:
  assumes S: "stepping k" and j: "run_act (Init_thread pg name pri [Set_level True]) k = Some k'" and p: "st k pg = None" "no_stage k pg"
    and w: "ws_locks k" "tid_lock k < next_obj k"
  shows "\<exists>xs. td k' = (td k)(pg := [Set_level True], running k := xs @ td k (running k)) \<and> path xs \<and> first xs = Outside \<and> list_all (lk_ok (next_obj k)) xs"
    "locks k' = locks k" "next_obj k' = next_obj k" "tid_lock k' = tid_lock k" "ws_locks k'" "pg \<noteq> running k"
proof -
  note d = steppingD [OF S]
  obtain j where j: "init_thread pg name pri [Set_level True] k = Some j" "k' = call (allocate_tid pg [New_wait_status pg] j) j"
    using j by (auto simp: bind_eq_Some_conv)
  note i = init_ok [OF d(1,5) p j(1)]
  have e: "locks j = locks k" "next_obj j = next_obj k" "tid_lock j = tid_lock k" "wait_statuses j = wait_statuses k"
    using j(1) by (auto simp: init_thread_def split: if_splits)
  have r: "st j (running j) \<noteq> None" using i(1) threads_okD(8) by fastforce
  show "pg \<noteq> running k" by (rule i(6))
  show "locks k' = locks k" "next_obj k' = next_obj k" "tid_lock k' = tid_lock k" "ws_locks k'"
    using e w(1) by (simp_all add: j(2) ws_locks_def)
  show "\<exists>xs. td k' = (td k)(pg := [Set_level True], running k := xs @ td k (running k)) \<and> path xs \<and> first xs = Outside \<and> list_all (lk_ok (next_obj k)) xs"
    using r i(2,4,6) w(2) e by (intro exI [of _ "allocate_tid pg [New_wait_status pg] j"]) (auto simp: j(2) allocate_tid_def)
qed

lemma Take_pushes:
  assumes "st k (running k) \<noteq> None" "ws_locks k" "tid_lock k < next_obj k"
  shows "pushes k (take_tid pg [New_wait_status pg] k)"
proof -
  have "same_locks k (upd_thread pg (\<lambda>th. th\<lparr>tid := next_tid k\<rparr>) (k\<lparr>next_tid := n\<rparr>))" for n
    using assms(2) by (simp add: same_locks_def ws_locks_def)
  then show ?thesis unfolding take_tid_def by (rule pushes_call) (use assms in auto)
qed

lemma Add_child_pushes:
  assumes "stepping k" "ws_locks k" "add_child pg ws k = Some k'"
  shows "pushes k k'"
proof -
  note d = steppingD [OF assms(1)]
  have alive: "st k (running k) \<noteq> None" using d(3) by (auto simp: st_def)
  have b: "wait_statuses k ws = Some w \<Longrightarrow> o_reference_count_lock w < next_obj k" for ws w using assms(2) by (auto simp: ws_locks_def)
  show ?thesis using assms(3) d(2) b alive same_locks_upd [OF assms(2)]
    by (auto simp: add_child_def wait_status_mod_ref_def Let_def bind_eq_Some_conv intro!: pushes_call)
qed

text \<open>The new wait status brings a new lock, which no thread knows yet.\<close>

lemma new_lock:
  assumes I: "locks_inv k" and r: "phase k r = Outside"
    and n: "next_obj k' = next_obj k + 1" "tid_lock k' = tid_lock k" "ws_locks k'"
    and l: "\<And>l. l < next_obj k \<Longrightarrow> locks k' l = locks k l" "lvalue k' (next_obj k) = 1" "holder (locks k' (next_obj k)) = 0"
    and t: "td k' = (td k)(r := ys)" "path ys" "first ys = Outside" "list_all (lk_ok (next_obj k + 1)) ys"
  shows "locks_inv k'"
proof -
  have ph: "phase k' u = phase k u" for u using t r path_core [of ys] by (auto simp: phase_def)
  then have p: "passing k' m = passing k m" for m by (simp add: passing_def)
  have "passing k (next_obj k) = {}" using phase_bound(2,3) [OF I] by (auto simp: passing_def)
  then have "lock_ok k' (next_obj k)" using l(2,3) by (simp add: lock_ok_def p)
  moreover have "lock_ok k' m" if "m < next_obj k" for m
    using locks_invD(3) [OF I that] l(1) [OF that] by (simp add: lock_ok_def p lvalue_def)
  ultimately have L: "\<forall>m < next_obj k + 1. lock_ok k' m" by (simp add: less_Suc_eq)
  have H: "holder (locks k' m) = u" if "phase k' u = Held m" for u m
    using that phase_bound(1) [OF I] l(1) locks_invD(4) [OF I] by (simp add: ph)
  have T: "path (core (td k' u))" "\<forall>a \<in> set (td k' u). lk_ok (next_obj k + 1) a" for u
    using t path_core [of ys] locks_invD(1,2) [OF I, of u] by (auto simp: list_all_iff intro: lk_ok_mono)
  show ?thesis unfolding locks_inv_def using L H T n locks_invD(5) [OF I] by (auto simp: ws_locks_def)
qed

section \<open>One step\<close>

lemma lock_act_step:
  assumes O: "threads_ok k" and I: "locks_inv k" and c: "td k (running k) = a # as" and e: "run_act a (set_todo (running k) as k) = Some k'"
    and a: "lock_act a" and S: "stepping (set_todo (running k) as k)"
  shows "locks_inv k'" "moves (running k) a k k'"
proof -
  note i = threads_okD [OF O] and d = steppingD [OF S]
  let ?r = "running k" and ?k = "set_todo (running k) as k"
  have na: "a \<noteq> Set_level b" for b using a by (auto simp: lock_act_def)
  note ca = core_act [OF I c na]
  have t: "td ?k = (td k)(?r := as)" using i(8) by simp
  have v: "lvalue ?k = lvalue k" "\<And>m. holder (locks ?k m) = holder (locks k m)" by (simp_all add: lvalue_def fun_eq_iff)
  have w: "ws_locks k" using locks_invD(6) [OF I] by (simp add: ws_locks_def)
  have z: "?r \<noteq> 0" "td k 0 = []" using current_is [OF i(9)] i(1) td_dead [of k 0] by (auto simp: ready_ok_def)
  have "locks_inv k' \<and> moves ?r a k k'" using a unfolding lock_act_def
  proof (elim exE disjE)
    fix l assume A: "a = Set_holder l"
    then have k: "k' = set_lock_holder l ?r ?k" using e d(2) by simp
    have p: "phase k ?r = Taken l" using ca(1) A by simp
    have "td k' = (td k)(?r := as)" "lvalue k' = lvalue k" "\<And>m. holder (locks k' m) = (if m = l then ?r else holder (locks k m))"
      "next_obj k' = next_obj k" "tid_lock k' = tid_lock k" "ws_locks k'"
      using t w by (auto simp: k lvalue_def set_lock_holder_def fun_eq_iff ws_locks_def)
    then have "locks_inv k'" using hold_ok [OF I p z, of k' as] ca(2-4) A by simp
    moreover have "holder (locks k l) = 0"
    proof -
      have "?r \<in> passing k l" using p by (simp add: passing_def)
      then show ?thesis using locks_invD(3) [OF I phase_bound(2) [OF I p]] by (auto simp: lock_ok_def)
    qed
    ultimately show ?thesis using A by (auto simp: moves_def k)
  next
    fix l assume A: "a = Clear_holder l"
    then have k: "k' = set_lock_holder l 0 ?k" using e by simp
    have p: "phase k ?r = Held l" using ca(1) A by simp
    have "td k' = (td k)(?r := as)" "lvalue k' = lvalue k" "\<And>m. holder (locks k' m) = (if m = l then 0 else holder (locks k m))"
      "next_obj k' = next_obj k" "tid_lock k' = tid_lock k" "ws_locks k'"
      using t w by (auto simp: k lvalue_def set_lock_holder_def fun_eq_iff ws_locks_def)
    then have "locks_inv k'" using clear_ok [OF I p z(1), of k' as] ca(2-4) A by simp
    then show ?thesis using A locks_invD(4) [OF I p] by (auto simp: moves_def k)
  next
    fix l assume A: "a = Sema_up (Lock_sem l)"
    then have k: "k' = upped (Lock_sem l) ?k" using e stepping_up(1) [OF S] by simp
    note u = upped_locks [OF d(1)]
    have p: "phase k ?r = Dropped l" using ca(1) A by simp
    have tk: "td k' = (td k)(?r := as)" using sema_up_ok(3) [OF d(1), of "Lock_sem l"] t by (simp add: k)
    have h: "\<And>m. holder (locks k' m) = holder (locks k m)" by (simp add: k u)
    have n: "next_obj k' = next_obj k" "tid_lock k' = tid_lock k" "ws_locks k'" using w u(4,5,6) by (simp_all add: k ws_locks_def)
    have "lvalue k' = (lvalue k)(l := sz (lvalue k l + 1))" by (rule ext) (simp add: k u v)
    then show ?thesis using give_ok [OF I p _ h n tk] ca(2-4) A h n by (simp add: moves_def)
  next
    fix l assume A: "a = Try_acquire l"
    have p: "phase k ?r = Outside" "first as = Outside" "l < next_obj k" using ca(1,2,5) A by auto
    show ?thesis
    proof (cases "lvalue k l = 0")
      case True
      then have k: "k' = upd_thread ?r (\<lambda>th. th\<lparr>ret := 0\<rparr>) ?k" using e A by (auto simp: sema_try_down_def sem_def lvalue_def)
      have "same_locks ?k k'" using w by (simp add: k same_locks_def ws_locks_def)
      then have "pushes ?k k'" by (rule pushes_same)
      then show ?thesis using pushes_ok [OF I c na] p A i(8) moves_same by auto
    next
      case False
      let ?j = "set_sem (Lock_sem l) ((sem k (Lock_sem l))\<lparr>sema_value := lvalue k l - 1\<rparr>) ?k"
      have k: "k' = upd_thread ?r (\<lambda>th. th\<lparr>ret := 1\<rparr>) (call [Set_holder l] ?j)"
        using False e A by (auto simp: sema_try_down_def sem_def lvalue_def)
      have tk: "td k' = (td k)(?r := Set_holder l # as)" using i(8) by (simp add: k)
      have h: "\<And>m. holder (locks k' m) = holder (locks k m)" by (simp add: k)
      have n: "next_obj k' = next_obj k" "tid_lock k' = tid_lock k" "ws_locks k'" using w by (simp_all add: k ws_locks_def)
      have "lvalue k' = (lvalue k)(l := lvalue k l - 1)" by (rule ext) (simp add: k lvalue_def set_sem_def sem_def)
      then show ?thesis using take_ok [OF I p(1,3) False _ h n tk] ca(3,4) p(2,3) h n by (simp add: moves_def)
    qed
  qed
  then show "locks_inv k'" "moves (running k) a k k'" by auto
qed

lemma switch_act_step:
  assumes O: "threads_ok k" and I: "locks_inv k" and c: "td k (running k) = a # as" and e: "run_act a (set_todo (running k) as k) = Some k'"
    and a: "a = Yield \<or> a = Exit_end \<or> a = Idle_loop"
  shows "locks_inv k'" "same_values k k'"
proof -
  note i = threads_okD [OF O]
  let ?r = "running k" and ?k = "set_todo (running k) as k"
  have na: "a \<noteq> Set_level b" for b using a by auto
  note ca = core_act [OF I c na]
  have p: "phase k ?r = Outside" "first as = Outside" using ca(1,2) a by auto
  have t: "td ?k = (td k)(?r := as)" "same_objects k ?k" "st ?k = st k" using i(8) by (auto simp: same_objects_def lvalue_def)
  obtain ys where y: "td k' = (td k)(?r := ys)" "path ys" "first ys = Outside" "list_all (lk_ok (next_obj k)) ys" and so: "same_objects k k'"
    using a
  proof (elim disjE)
    assume "a = Yield"
    then have "thread_yield ?k = Some k'" using e by simp
    note y = yield_todo [OF this]
    show ?thesis by (rule that [of "Set_level (intr_on k) # as"]) (use y t ca(3,4) p(2) i(8) in \<open>auto simp: same_objects_def\<close>)
  next
    assume "a = Exit_end"
    then have s: "schedule (set_status ?r THREAD_DYING ?k) = Some k'" using e by (auto simp: bind_eq_Some_conv dest: current_is)
    have so: "same_objects k k'" using schedule_todo(1) [OF s] t(2) by (auto simp: same_objects_def lvalue_def)
    have "td k' = (td k)(?r := as) \<or> td k' = (td k)(?r := [])" using schedule_todo(2) [OF s] t(1) by auto
    then show ?thesis
    proof
      assume "td k' = (td k)(?r := as)" then show ?thesis using that [of as] ca(3,4) p(2) so by simp
    next
      assume "td k' = (td k)(?r := [])" then show ?thesis using that [of "[]"] so by simp
    qed
  next
    assume "a = Idle_loop"
    then have s: "thread_block (call [Set_level True, Idle_loop] (?k\<lparr>intr_on := False\<rparr>)) = Some k'" using e by simp
    note b = block_todo [OF s]
    have "td k' = (td k)(?r := Set_level True # Idle_loop # as)" using b(2) t(1,3) i(8) by simp
    moreover have "same_objects k k'" using b(1) t(2) by (auto simp: same_objects_def lvalue_def)
    ultimately show ?thesis using that [of "Set_level True # Idle_loop # as"] ca(3,4) p(2) by simp
  qed
  show v: "same_values k k'" by (rule same_valuesI [OF so I])
  show "locks_inv k'" by (rule neutral [OF I p(1) v y])
qed

lemma create_act_step:
  assumes O: "threads_ok k" and I: "locks_inv k" and c: "td k (running k) = a # as" and e: "run_act a (set_todo (running k) as k) = Some k'"
    and a: "stage pg a" and S: "stepping (set_todo (running k) as k)"
  shows "locks_inv k'" "moves (running k) a k k'"
proof -
  note i = threads_okD [OF O] and d = steppingD [OF S]
  let ?r = "running k" and ?k = "set_todo (running k) as k"
  have na: "a \<noteq> Set_level b" for b using a by auto
  note ca = core_act [OF I c na] and ps = pop_stage [OF O c a]
  have p: "phase k ?r = Outside" "prv a = Outside" "first as = Outside" using ca(1,2) a by (cases a; simp)+
  have w: "ws_locks ?k" "tid_lock ?k < next_obj ?k" using locks_invD(5,6) [OF I] by (simp_all add: ws_locks_def)
  have r: "st k ?r \<noteq> None" "st ?k (running ?k) \<noteq> None" using i(8) by simp_all
  have P: "locks_inv k' \<and> moves ?r a k k'" if "pushes ?k k'" using pushes_ok [OF I c na p(2,3) that r(1)] moves_same by blast
  have "locks_inv k' \<and> moves ?r a k k'"
  proof (cases a)
    case (Init_thread q name pri code)
    then have q: "q = pg" "code = [Set_level True]" "st ?k pg = None" using a ps(2,3) by (auto simp: is_init_def)
    then have e': "run_act (Init_thread pg name pri [Set_level True]) ?k = Some k'" using e Init_thread by simp
    note j = Init_locks [OF S e' q(3) ps(1) w]
    obtain xs where x: "td k' = (td ?k)(pg := [Set_level True], running ?k := xs @ td ?k (running ?k))" "path xs" "first xs = Outside"
      "list_all (lk_ok (next_obj k)) xs" using j(1) by auto
    have o: "td k pg = []" using td_dead [of ?k pg] q(3) j(6) by simp
    have v: "same_values k k'" using j(2-5) by (simp add: same_values_def lvalue_def)
    have t: "td k' u = (if u = ?r then xs @ as else if u = pg then [Set_level True] else td k u)" for u using x(1) r(1) by simp
    have y: "path (xs @ as)" "first (xs @ as) = Outside" using path_append [OF x(2) ca(3) p(3)] first_append [OF x(3) p(3)] by auto
    have "locks_inv k'"
    proof (rule keepI [OF I])
      show "path (core (td k' u))" for u using t [of u] path_core [OF y(1)] locks_invD(1) [OF I, of u] by simp
      show "phase k' u = phase k u" for u using t [of u] path_core [OF y(1)] y(2) p(1) o by (auto simp: phase_def)
      show "\<forall>a \<in> set (td k' u). lk_ok (next_obj k) a" for u
        using t [of u] x(4) ca(4) locks_invD(2) [OF I, of u] by (auto simp: list_all_iff)
    qed (use v in \<open>auto simp: same_values_def ws_locks_def\<close>)
    then show ?thesis using moves_same [OF v] by blast
  next
    case (Take_tid q rest)
    then have "q = pg" "rest = [New_wait_status pg]" using a ps(2) by auto
    then show ?thesis using P Take_pushes [OF r(2) w] e Take_tid by auto
  next
    case (Add_child q ws)
    then show ?thesis using P Add_child_pushes [OF S w(1)] e by auto
  next
    case (Unblock q)
    then have "td k' = td ?k" "locks k' = locks ?k" "next_obj k' = next_obj ?k" "tid_lock k' = tid_lock ?k" "wait_statuses k' = wait_statuses ?k"
      using e by (auto simp: thread_unblock_def bind_eq_Some_conv split: if_splits)
    then have "pushes ?k k'" using w(1) unfolding pushes_def by (intro conjI exI [of _ "[]"]) (simp_all add: ws_locks_def)
    then show ?thesis by (rule P)
  next
    case (New_wait_status q)
    then obtain th where th: "threads ?k q = Some th" "new_wait_status q ?k = Some k'" using e by (auto simp: new_wait_status_def bind_eq_Some_conv)
    let ?n = "next_obj k" and ?ys = "(lock_acquire (next_obj k) @ [Add_ref (next_obj k) 1]) @ [Add_child q (next_obj k)]"
    have k: "td k' = (td k)(?r := ?ys @ as)" "next_obj k' = ?n + 1" "tid_lock k' = tid_lock k"
      "\<And>l. locks k' l = (if l = ?n then \<lparr>holder = 0, lsema = \<lparr>sema_value = 1, waiters = []\<rparr>\<rparr> else locks k l)"
      "wait_statuses k' = (wait_statuses k)(?n \<mapsto> \<lparr>o_tid = tid th, o_sem_exited = ?n, o_exit_code = 0, o_reference_count = 0,
         o_reference_count_lock = ?n, o_kernel_killed = False\<rparr>)"
      using th r(1) by (auto simp: new_wait_status_def wait_status_mod_ref_def Let_def)
    have y: "path (?ys @ as)" "first (?ys @ as) = Outside" "list_all (lk_ok (?n + 1)) (?ys @ as)"
      using ca(3,4) p(3) by (auto simp: list_all_iff intro: lk_ok_mono simp: lock_acquire_def)
    have "ws_locks k'" using w(1) by (auto simp: ws_locks_def k(2,5) less_SucI)
    then have "locks_inv k'" by (intro new_lock [OF I p(1) k(2,3) _ _ _ _ k(1) y]) (simp_all add: k(4) lvalue_def)
    then show ?thesis by (simp add: moves_def k(2,4))
  qed (use a in auto)
  then show "locks_inv k'" "moves (running k) a k k'" by auto
qed

theorem step_locks:
  assumes O: "threads_ok k" and I: "locks_inv k" and c: "td k (running k) = a # as" and e: "step_thread k = Some k'"
  shows "locks_inv k'" "moves (running k) a k k'"
proof -
  note i = threads_okD [OF O]
  let ?r = "running k" and ?k = "set_todo (running k) as k"
  obtain th where th: "threads k ?r = Some th" "todo th = a # as" using i(8) c by (auto simp: st_def td_def)
  then have e: "run_act a ?k = Some k'" using e by (simp add: step_thread_def)
  have r: "st k ?r \<noteq> None" using i(8) by simp
  have w: "ws_locks ?k" using locks_invD(6) [OF I] by (simp add: ws_locks_def)
  have "locks_inv k' \<and> moves ?r a k k'"
  proof (cases "(\<exists>b. a = Set_level b) \<or> a = Yield \<or> a = Exit_end \<or> a = Idle_loop")
    case True
    then show ?thesis
    proof (elim disjE exE)
      fix b assume "a = Set_level b"
      then show ?thesis using level_step [OF I, of b as] c e r by (auto simp: moves_def)
    qed (use switch_act_step [OF O I c e] moves_same in blast)+
  next
    case False
    have n: "?r \<noteq> idle_thread k"
    proof
      assume "?r = idle_thread k"
      then have "idle_act a" using i(4) c unfolding idle_ok_def by (metis list.set_intros(1))
      then show False using False by (auto simp: idle_act_def)
    qed
    have S: "stepping ?k" by (rule stepping_pop [OF O c _ n]) (use False in auto)
    have na: "a \<noteq> Set_level b" for b using False by auto
    note ca = core_act [OF I c na] and d = steppingD [OF S]
    have ns: "a \<noteq> Idle_start x" for x using i(4) c unfolding idle_ok_def by (metis list.set_intros(1))
    consider "\<exists>pg. stage pg a" | "lock_act a" | s where "a = Sema_down s" | s old where "a = Down_loop s old" | l where "a = Assert_held l"
      | "quiet a" "\<not> lock_act a" "\<And>l. a \<noteq> Assert_held l"
      using False ns by (cases a) (auto simp: quiet_def lock_act_def)
    then show ?thesis
    proof cases
      case 1 then show ?thesis using create_act_step [OF O I c e _ S] by blast
    next
      case 2 then show ?thesis using lock_act_step [OF O I c e _ S] by blast
    next
      case (3 s)
      then have "down_loop s (intr_on ?k) (?k\<lparr>intr_on := False\<rparr>) = Some k'" using e by (auto simp: sema_down_def split: if_splits)
      from down_step [OF I c r disjI1 [OF 3] this] show ?thesis by simp
    next
      case (4 s old)
      have "j\<lparr>intr_on := intr_on j\<rparr> = j" for j :: kern by simp
      then have "down_loop s old (?k\<lparr>intr_on := intr_on ?k\<rparr>) = Some k'" using e 4 by (simp only: run_act.simps)
      from down_step [OF I c r disjI2 [OF 4] this] show ?thesis by simp
    next
      case (5 l)
      then have k: "k' = ?k" "holder (locks k l) = ?r" using e d(2) by (auto simp: lock_held_by_current_thread_def split: if_splits)
      have v: "same_values k k'" using w by (simp add: k(1) same_values_def lvalue_def ws_locks_def)
      have t: "td k' = (td k)(?r := as)" using r by (auto simp: k(1))
      have p: "phase k ?r = Outside" "l < next_obj k" using ca(1,5) 5 by auto
      have "first as = Outside \<or> first as = Held l" using ca(2) 5 by auto
      then have "locks_inv k'" using neutral [OF I p(1) v t ca(3)] held_ok [OF I p(1) k(2) v p(2) t ca(3)] ca(4) by blast
      then show ?thesis using moves_same [OF v] by blast
    next
      case 6
      then have "pushes ?k k'" using quiet_pushes [OF S e] w by blast
      moreover have "prv a = Outside" "first as = Outside" using no_lock_phase [OF 6] ca(2) by auto
      ultimately show ?thesis using pushes_ok [OF I c na] r moves_same by blast
    qed
  qed
  then show "locks_inv k'" "moves (running k) a k k'" by auto
qed

section \<open>Executions\<close>

lemma push_level_locks:
  assumes I: "locks_inv k" and t: "td k' = (td k)(r := Set_level b # ys)" "ys = td k r \<or> (\<exists>c. ys = Set_level c # td k r)" and v: "same_objects k k'"
  shows "locks_inv k'"
proof (rule keepI [OF I])
  show "path (core (td k' u))" "phase k' u = phase k u" "\<forall>a \<in> set (td k' u). lk_ok (next_obj k) a" for u
    using locks_invD(1,2) [OF I, of u] t by (auto simp: phase_def)
qed (use v locks_invD(6) [OF I] in \<open>auto simp: same_objects_def\<close>)

lemma api_path:
  assumes "api k as"
  shows "path as" "first as = Outside" "list_all (lk_ok (next_obj k)) as"
  using assms by (cases rule: api.cases; auto simp: lock_try_acquire_def cond_wait_def cond_signal_def cond_broadcast_def thread_create_def
      thread_exit_def lock_acquire_def lock_release_def)+

lemma intr_locks:
  assumes "intr_handler h k = Some k'" and I: "locks_inv k"
    and h: "\<And>j j'. h j = Some j' \<Longrightarrow> same_objects j j' \<and> td j' = td j \<and> running j' = running j \<and> (st j (running j) \<noteq> None \<longrightarrow> st j' (running j) \<noteq> None)"
    and r: "st k (running k) \<noteq> None"
  shows "locks_inv k'" "same_objects k k'"
proof -
  obtain j where j: "h (in_intr k) = Some j"
    "(let k = call [Set_level True] (j\<lparr>in_external_intr := False\<rparr>) in if yield_on_return k then thread_yield k else Some k) = Some k'"
    using assms(1) by (auto simp: intr_handler_def in_intr_def Let_def bind_eq_Some_conv split: if_splits)
  have J: "same_objects k j" "td j = td k" "running j = running k" "st j (running k) \<noteq> None"
    using h [OF j(1)] r by (auto simp: same_objects_def in_intr_def lvalue_def)
  let ?c = "call [Set_level True] (j\<lparr>in_external_intr := False\<rparr>)"
  have c: "td ?c = (td k)(running k := Set_level True # td k (running k))" "same_objects k ?c" "running ?c = running k"
    using J by (auto simp: same_objects_def lvalue_def)
  have "locks_inv k' \<and> same_objects k k'"
  proof (cases "yield_on_return j")
    case True
    then have y: "thread_yield ?c = Some k'" using j(2) by simp
    note yt = yield_todo [OF y]
    have s: "same_objects k k'" using yt(1) c(2) by (auto simp: same_objects_def)
    have "td k' = (td k)(running k := Set_level (intr_on ?c) # Set_level True # td k (running k))"
      using yt(2) unfolding c(1,3) by (simp only: fun_upd_same fun_upd_upd)
    then show ?thesis using push_level_locks [OF I _ _ s] s by blast
  next
    case False
    then have "k' = ?c" using j(2) by simp
    then show ?thesis using push_level_locks [OF I c(1) _ c(2)] c(2) by blast
  qed
  then show "locks_inv k'" "same_objects k k'" by auto
qed

lemma timer_objects: "timer_interrupt j = Some j' \<Longrightarrow> same_objects j j' \<and> td j' = td j \<and> running j' = running j \<and> (st j (running j) \<noteq> None \<longrightarrow> st j' (running j) \<noteq> None)"
proof -
  assume a: "timer_interrupt j = Some j'"
  then have "threads j' = threads j" "locks j' = locks j" "next_obj j' = next_obj j" "tid_lock j' = tid_lock j" "wait_statuses j' = wait_statuses j"
    by (auto simp: timer_interrupt_def thread_tick_def Let_def bind_eq_Some_conv)
  then show ?thesis using timer_interrupt_shape(1) [OF a] by (auto simp: same_objects_def lvalue_def td_def st_def fun_eq_iff)
qed

lemma up_objects: "sema_up (Sem s) j = Some j' \<Longrightarrow> same_objects j j' \<and> td j' = td j \<and> running j' = running j \<and> (st j (running j) \<noteq> None \<longrightarrow> st j' (running j) \<noteq> None)"
  by (auto simp: sema_up_def thread_unblock_def bind_eq_Some_conv same_objects_def lvalue_def set_sem_def split: list.splits if_splits)

text \<open>The holder of a lock changes only by an action of a thread that takes or releases it.\<close>

definition holder_moves :: "event \<Rightarrow> kern \<Rightarrow> kern \<Rightarrow> bool" where
  "holder_moves e k k' \<longleftrightarrow> next_obj k \<le> next_obj k' \<and> (\<forall>l < next_obj k. holder (locks k' l) = holder (locks k l)
     \<or> (\<exists>t. e = Act t (Set_holder l) \<and> holder (locks k l) = 0 \<and> holder (locks k' l) = t)
     \<or> (\<exists>t. e = Act t (Clear_holder l) \<and> holder (locks k l) = t \<and> holder (locks k' l) = 0))"

lemma kstep_locks:
  assumes O: "threads_ok k" and I: "locks_inv k" and s: "kstep k e k'"
  shows "locks_inv k'" "holder_moves e k k'"
proof -
  have r: "st k (running k) \<noteq> None" using threads_okD(8) [OF O] by simp
  have h: "holder_moves e k k'" if "same_objects k k'" using that by (simp add: holder_moves_def same_objects_def)
  have "locks_inv k' \<and> holder_moves e k k'" using s
  proof cases
    case (kstep_act a as)
    then show ?thesis using step_locks [OF O I kstep_act(2,3)] by (auto simp: holder_moves_def moves_def)
  next
    case (kstep_call as)
    note a = api_path [OF kstep_call(4)]
    have so: "same_objects k k'" using kstep_call by (simp add: same_objects_def lvalue_def)
    have t: "td k' = (td k)(running k := as)" using kstep_call r by auto
    have "phase k (running k) = Outside" using kstep_call(3) by (simp add: phase_def)
    then have "locks_inv k'" using neutral [OF I _ same_valuesI [OF so I] t a] by blast
    then show ?thesis using h [OF so] by blast
  next
    case kstep_timer
    then show ?thesis using intr_locks [OF kstep_timer(2) I timer_objects r] h by blast
  next
    case (kstep_device s)
    then show ?thesis using intr_locks [OF kstep_device(2) I up_objects [of s] r] h by blast
  qed
  then show "locks_inv k'" "holder_moves e k k'" by auto
qed

lemma runs_locks: "runs k es k' \<Longrightarrow> threads_ok k \<Longrightarrow> locks_inv k \<Longrightarrow> locks_inv k'"
  by (induction rule: runs.induct) (auto dest: kstep_ok kstep_locks(1))

text \<open>A thread that is about to set the holder finds none.\<close>

lemma set_holder_free:
  assumes O: "threads_ok k" and I: "locks_inv k" and s: "kstep k (Act t (Set_holder l)) k'"
  shows "holder (locks k l) = 0" "holder (locks k' l) = t" "t \<noteq> 0" "l < next_obj k"
proof -
  note i = threads_okD [OF O]
  obtain as where t: "t = running k" "td k t = Set_holder l # as" "step_thread k = Some k'" using s by cases auto
  have p: "phase k t = Taken l" using core_act(1) [OF I t(2)] by simp
  show l: "l < next_obj k" by (rule phase_bound(2) [OF I p])
  have "t \<in> passing k l" using p by (simp add: passing_def)
  then show "holder (locks k l) = 0" using locks_invD(3) [OF I l] by (auto simp: lock_ok_def)
  show "t \<noteq> 0" using current_is [OF i(9)] t(1) by simp
  obtain th where "threads k t = Some th" "todo th = Set_holder l # as" using i(8) t(1,2) by (auto simp: st_def td_def)
  then have "run_act (Set_holder l) (set_todo t as k) = Some k'" using t by (simp add: step_thread_def)
  then show "holder (locks k' l) = t" using t(1) by (auto simp: bind_eq_Some_conv dest: current_is)
qed

lemma holder_stays:
  assumes "runs k es k'" "threads_ok k" "locks_inv k" "holder (locks k l) = t" "t \<noteq> 0" "l < next_obj k" "Act t (Clear_holder l) \<notin> set es"
  shows "holder (locks k' l) = t"
  using assms
proof (induction rule: runs.induct)
  case (runs_step k e k1 es k2)
  note s = kstep_locks [OF runs_step.prems(1,2) runs_step.hyps(1)]
  have h: "holder (locks k1 l) = t" "l < next_obj k1" using s(2) runs_step.prems(3-6) by (auto simp: holder_moves_def)
  show ?case by (rule runs_step.IH) (use s(1) h runs_step.prems kstep_ok [OF runs_step.prems(1) runs_step.hyps(1)] in auto)
qed simp

lemma lock_excludes:
  assumes "threads_ok k" "locks_inv k" "runs k (Act t (Set_holder l) # es @ [Act u (Set_holder l)]) k'"
  shows "Act t (Clear_holder l) \<in> set es"
proof (rule ccontr)
  assume n: "Act t (Clear_holder l) \<notin> set es"
  obtain k1 where k1: "kstep k (Act t (Set_holder l)) k1" "runs k1 (es @ [Act u (Set_holder l)]) k'" using assms(3) by (auto simp: runs_Cons)
  obtain k2 where k2: "runs k1 es k2" "kstep k2 (Act u (Set_holder l)) k'" using k1(2)
    by (induction es arbitrary: k1) (auto simp: runs_Cons)
  note f = set_holder_free [OF assms(1,2) k1(1)]
  have i: "threads_ok k1" "locks_inv k1" using kstep_ok [OF assms(1) k1(1)] kstep_locks(1) [OF assms(1,2) k1(1)] by auto
  have "l < next_obj k1" using kstep_locks(2) [OF assms(1,2) k1(1)] f(4) by (auto simp: holder_moves_def)
  then have "holder (locks k2 l) = t" using holder_stays [OF k2(1) i f(2,3)] n by blast
  moreover have "holder (locks k2 l) = 0" using set_holder_free(1) [OF _ _ k2(2)] runs_ok [OF k2(1) i(1)] runs_locks [OF k2(1) i] by blast
  ultimately show False using f(3) by simp
qed

end
