(* ===== verification/Exit_Proofs.thy ===== *)
theory Exit_Proofs
  imports Lock_Proofs
begin

text \<open>
  Threads that exit. From the removal from \<open>all_list\<close> on, an exiting thread runs with interrupts off, also when it slept
  in between for the lock of a wait status; and every thread is on \<open>all_list\<close> until then. So the assertions
  that \<open>thread_exit\<close> and \<open>schedule\<close> make about an exiting thread hold.
\<close>

section \<open>What an exiting thread still does\<close>

definition exit_act :: "act \<Rightarrow> bool" where
  "exit_act a \<longleftrightarrow> a = Exit_begin \<or> a = Exit_children \<or> a = Exit_end"

text \<open>The actions after the removal from \<open>all_list\<close>: none of them turns interrupts on.\<close>

fun winding_act :: "act \<Rightarrow> bool" where
  "winding_act (Assert_not_held l) = True"
| "winding_act (Sema_down s) = True"
| "winding_act (Down_loop s old) = (\<not> old)"
| "winding_act (Set_holder l) = True"
| "winding_act (Assert_held l) = True"
| "winding_act (Clear_holder l) = True"
| "winding_act (Sema_up s) = True"
| "winding_act (Add_ref ws d) = True"
| "winding_act (Free_wait_status ws) = True"
| "winding_act Exit_children = True"
| "winding_act Exit_end = True"
| "winding_act _ = False"

definition winding :: "act list \<Rightarrow> bool" where
  "winding as \<longleftrightarrow> Exit_begin \<notin> set as \<and> (Exit_children \<in> set as \<or> Exit_end \<in> set as)"

definition exit_list :: "act list \<Rightarrow> bool" where
  "exit_list as \<longleftrightarrow> list_all (\<lambda>a. \<not> exit_act a) as
     \<or> (\<exists>ps. as = ps @ [Exit_begin, Exit_children] \<and> list_all (\<lambda>a. \<not> exit_act a) ps)
     \<or> winding as \<and> list_all winding_act as"

definition alive :: "kern \<Rightarrow> nat \<Rightarrow> bool" where
  "alive k t \<longleftrightarrow> st k t \<noteq> None \<and> st k t \<noteq> Some THREAD_DYING"

definition exits_ok :: "kern \<Rightarrow> bool" where
  "exits_ok k \<longleftrightarrow> (\<forall>t. alive k t \<longrightarrow> exit_list (td k t)) \<and> (winding (td k (running k)) \<longrightarrow> \<not> intr_on k)
     \<and> (\<forall>t. alive k t \<longrightarrow> \<not> winding (td k t) \<longrightarrow> t \<in> set (all_list k))"

lemma no_exit_winding: "list_all (\<lambda>a. \<not> exit_act a) as \<Longrightarrow> \<not> winding as"
  by (auto simp: winding_def list_all_iff exit_act_def)

lemma exit_list_tl:
  assumes "exit_list (a # as)"
  shows "list_all (\<lambda>a. \<not> exit_act a) (a # as)
    \<or> (\<exists>ps. as = ps @ [Exit_begin, Exit_children] \<and> list_all (\<lambda>a. \<not> exit_act a) (a # ps))
    \<or> a = Exit_begin \<and> as = [Exit_children] \<or> winding (a # as) \<and> list_all winding_act (a # as)"
  using assms unfolding exit_list_def
proof (elim disjE exE conjE)
  fix ps assume "a # as = ps @ [Exit_begin, Exit_children]" "list_all (\<lambda>a. \<not> exit_act a) ps"
  then show ?thesis by (cases ps) auto
qed auto

text \<open>The running thread has \<open>ys\<close> to do after its action.\<close>

lemma exits_step:
  assumes I: "exits_ok k"
    and e: "\<And>t. alive k' t \<Longrightarrow> alive k t \<and> td k' t = (if t = running k then ys else td k t)"
      "\<And>t. t \<in> set (all_list k) \<Longrightarrow> t \<noteq> running k \<Longrightarrow> t \<in> set (all_list k')" "alive k' (running k')" "running k' = running k \<or> \<not> intr_on k'"
    and y: "alive k' (running k) \<Longrightarrow> exit_list ys" "winding ys \<Longrightarrow> \<not> intr_on k'"
      "alive k' (running k) \<Longrightarrow> \<not> winding ys \<Longrightarrow> running k \<in> set (all_list k')"
  shows "exits_ok k'"
  unfolding exits_ok_def
proof (intro conjI allI impI)
  show "exit_list (td k' t)" if "alive k' t" for t using e(1) [OF that] y(1) that I by (auto simp: exits_ok_def)
  show "\<not> intr_on k'" if "winding (td k' (running k'))" using e(1) [OF e(3)] e(4) y(2) that by auto
  show "t \<in> set (all_list k')" if "alive k' t" "\<not> winding (td k' t)" for t
    using e(1) [OF that(1)] that e(2) [of t] y(3) I by (cases "t = running k") (auto simp: exits_ok_def)
qed

text \<open>The actions that a thread pushes: outside an exit they are no part of an exit; in an exit they leave interrupts
  off and end with the exit.\<close>

definition fitting :: "act \<Rightarrow> bool \<Rightarrow> act list \<Rightarrow> bool" where
  "fitting a level xs \<longleftrightarrow> (\<not> exit_act a \<longrightarrow> list_all (\<lambda>b. \<not> exit_act b) xs)
     \<and> (winding_act a \<longrightarrow> \<not> level \<longrightarrow> list_all winding_act xs) \<and> (a = Exit_children \<longrightarrow> Exit_children \<in> set xs \<or> Exit_end \<in> set xs)"

lemma fitting_list:
  assumes L: "exit_list (a # as)" and f: "fitting a level xs" and w: "winding (a # as) \<Longrightarrow> \<not> level" and n: "a \<noteq> Exit_begin" "a \<noteq> Exit_end"
  shows "exit_list (xs @ as)" "winding (xs @ as) \<longleftrightarrow> winding (a # as)"
proof -
  have "exit_list (xs @ as) \<and> (winding (xs @ as) \<longleftrightarrow> winding (a # as))"
  proof -
    consider "list_all (\<lambda>a. \<not> exit_act a) (a # as)" | ps where "as = ps @ [Exit_begin, Exit_children]" "list_all (\<lambda>a. \<not> exit_act a) (a # ps)"
      | "winding (a # as)" "list_all winding_act (a # as)" using exit_list_tl [OF L] n(1) by blast
    then show ?thesis
    proof cases
      case 1
      then have "list_all (\<lambda>a. \<not> exit_act a) (xs @ as)" using f by (auto simp: fitting_def)
      then show ?thesis using no_exit_winding [of "xs @ as"] no_exit_winding [OF 1] by (auto simp: exit_list_def)
    next
      case 2
      then have "xs @ as = (xs @ ps) @ [Exit_begin, Exit_children]" "list_all (\<lambda>a. \<not> exit_act a) (xs @ ps)" using f by (auto simp: fitting_def)
      then show ?thesis unfolding exit_list_def winding_def using 2(1) by fastforce
    next
      case 3
      then have x: "list_all winding_act xs" using f w by (auto simp: fitting_def)
      then have "winding (xs @ as)" using 3 f n(2) unfolding winding_def fitting_def by (auto simp: list_all_iff)
      then show ?thesis using 3 x by (auto simp: exit_list_def)
    qed
  qed
  then show "exit_list (xs @ as)" "winding (xs @ as) \<longleftrightarrow> winding (a # as)" by auto
qed

definition kept :: "act \<Rightarrow> kern \<Rightarrow> kern \<Rightarrow> bool" where
  "kept a k k' \<longleftrightarrow> (\<exists>xs. fitting a (intr_on k) xs
       \<and> (\<forall>t. alive k' t \<longrightarrow> alive k t \<and> td k' t = (if t = running k then xs @ td k t else td k t)))
     \<and> all_list k' = all_list k
     \<and> (running k' = running k \<and> (winding_act a \<longrightarrow> \<not> intr_on k \<longrightarrow> \<not> intr_on k') \<or> \<not> intr_on k')"

lemma winding_head: "exit_list (a # as) \<Longrightarrow> winding (a # as) \<Longrightarrow> winding_act a"
  using exit_list_tl [of a as] no_exit_winding [of "a # as"] by (auto simp: winding_def)

lemma alive_pop [simp]: "alive (set_todo t as k) = alive k"
  by (simp add: alive_def fun_eq_iff)

lemma kept_ok:
  assumes I: "exits_ok k" and t: "td k (running k) = a # as" and l: "alive k (running k)" "alive k' (running k')"
    and n: "a \<noteq> Exit_begin" "a \<noteq> Exit_end" and K: "kept a (set_todo (running k) as k) k'"
  shows "exits_ok k'"
proof -
  obtain xs where f: "fitting a (intr_on k) xs"
    and x: "\<And>t. alive k' t \<Longrightarrow> alive k t \<and> td k' t = (if t = running k then xs @ as else td k t)"
    using K l(1) unfolding kept_def by (force simp: alive_def)
  have A: "all_list k' = all_list k" "running k' = running k \<and> (winding_act a \<longrightarrow> \<not> intr_on k \<longrightarrow> \<not> intr_on k') \<or> \<not> intr_on k'"
    using K by (auto simp: kept_def set_todo_def upd_thread_def)
  have L: "exit_list (a # as)" and w: "winding (a # as) \<Longrightarrow> \<not> intr_on k" and m: "\<not> winding (a # as) \<Longrightarrow> running k \<in> set (all_list k)"
    using I l(1) t unfolding exits_ok_def by metis+
  note F = fitting_list [OF L f w n]
  show ?thesis
  proof (rule exits_step [OF I x])
    show "\<not> intr_on k'" if "winding (xs @ as)"
      using that F(2) w A(2) winding_head [OF L] by blast
  qed (use F m A l(2) in auto)
qed

section \<open>Actions without a context switch\<close>

lemma all_list_fields [simp]:
  "all_list (upd_thread t f k) = all_list k" "all_list (set_status t x k) = all_list k" "all_list (call as k) = all_list k"
  "all_list (set_todo t as k) = all_list k" "all_list (set_sem s v k) = all_list k" "all_list (set_lock_holder l t k) = all_list k"
  by (simp_all add: upd_thread_def set_status_def call_def set_todo_def set_sem_def set_lock_holder_def split: sref.splits)

lemma alive_simps [simp]:
  "(\<And>th. status (f th) = status th) \<Longrightarrow> alive (upd_thread t f k) = alive k" "alive (call as k) = alive k"
  "alive (set_sem s v k) = alive k" "alive (set_lock_holder l t k) = alive k"
  by (simp_all add: alive_def fun_eq_iff)

definition same_todo :: "kern \<Rightarrow> kern \<Rightarrow> bool" where
  "same_todo k j \<longleftrightarrow> td j = td k \<and> st j = st k \<and> all_list j = all_list k \<and> running j = running k \<and> intr_on j = intr_on k"

lemma fitting_Nil [simp]: "fitting a level [] \<longleftrightarrow> a \<noteq> Exit_children"
  by (simp add: fitting_def)

lemma kept_call:
  assumes "same_todo k j" "st k (running k) \<noteq> None" "fitting a (intr_on k) xs"
  shows "kept a k (call xs j)"
  unfolding kept_def using assms by (intro conjI exI [of _ xs]) (auto simp: same_todo_def alive_def)

lemma kept_same: "same_todo k j \<Longrightarrow> a \<noteq> Exit_children \<Longrightarrow> kept a k j"
  unfolding kept_def by (intro conjI exI [of _ "[]"]) (auto simp: same_todo_def alive_def)

lemma same_todo_refl [simp]: "same_todo k k"
  by (simp add: same_todo_def)

lemma same_todo_upd [simp]:
  "(\<And>th. status (f th) = status th) \<Longrightarrow> (\<And>th. todo (f th) = todo th) \<Longrightarrow> same_todo k (upd_thread t f j) \<longleftrightarrow> same_todo k j"
  "same_todo k (set_sem s v j) \<longleftrightarrow> same_todo k j" "same_todo k (set_lock_holder l t j) \<longleftrightarrow> same_todo k j"
  "same_todo k (j\<lparr>conds := c\<rparr>) \<longleftrightarrow> same_todo k j" "same_todo k (j\<lparr>wait_statuses := w\<rparr>) \<longleftrightarrow> same_todo k j"
  "same_todo k (j\<lparr>semas := m\<rparr>) \<longleftrightarrow> same_todo k j" "same_todo k (j\<lparr>next_tid := i\<rparr>) \<longleftrightarrow> same_todo k j"
  "same_todo k (j\<lparr>locks := ls\<rparr>) \<longleftrightarrow> same_todo k j" "same_todo k (j\<lparr>next_obj := n\<rparr>) \<longleftrightarrow> same_todo k j" "same_todo k (j\<lparr>idle_thread := t\<rparr>) \<longleftrightarrow> same_todo k j"
  by (auto simp: same_todo_def)

lemma unblock_kept:
  assumes "thread_unblock t j = Some k'" "same_todo k j" "a \<noteq> Exit_children"
  shows "kept a k k'"
proof -
  have "st j t = Some THREAD_BLOCKED" "k' = set_status t THREAD_READY (j\<lparr>ready_list := ready_list j @ [t]\<rparr>)"
    using assms(1) by (auto simp: thread_unblock_def bind_eq_Some_conv st_def split: if_splits)
  then show ?thesis using assms(2,3) unfolding kept_def
    by (intro conjI exI [of _ "[]"]) (auto simp: same_todo_def alive_def)
qed

lemma kept_set_sem: "kept a k k' \<Longrightarrow> kept a k (set_sem s v k')"
  by (simp add: kept_def)

lemma kept_upd:
  "kept a k k' \<Longrightarrow> (\<And>th. status (f th) = status th) \<Longrightarrow> (\<And>th. todo (f th) = todo th) \<Longrightarrow> kept a k (upd_thread t f k')"
  by (simp add: kept_def)

lemmas fitting_eval = fitting_def exit_act_def lock_acquire_def lock_release_def

lemma kept_quiet:
  assumes S: "stepping k" and e: "run_act a k = Some k'" and q: "quiet a" "a \<noteq> Exit_begin"
  shows "kept a k k'"
proof -
  note d = steppingD [OF S]
  have r: "st k (running k) \<noteq> None" using d(3) by (auto simp: st_def)
  show ?thesis
  proof (cases a)
    case (Sema_up s)
    then show ?thesis using e
      by (auto simp: sema_up_def bind_eq_Some_conv split: list.splits intro!: kept_set_sem intro: unblock_kept kept_same)
  next
    case (Try_acquire l)
    then show ?thesis using e r
      by (auto simp: sema_try_down_def fitting_eval split: if_splits intro!: kept_upd kept_call intro: kept_same)
  next
    case (Set_level b)
    then show ?thesis using e unfolding kept_def by (intro conjI exI [of _ "[]"]) (auto simp: alive_def)
  next
    case (Add_ref ws n)
    then show ?thesis using e r by (auto simp: add_ref_def Let_def bind_eq_Some_conv fitting_eval intro!: kept_call)
  next
    case (Free_wait_status ws)
    then show ?thesis using e by (auto simp: bind_eq_Some_conv intro!: kept_same)
  next
    case (Reap ws)
    then show ?thesis using e r by (auto simp: reap_def wait_status_mod_ref_def Let_def bind_eq_Some_conv fitting_eval intro!: kept_call)
  next
    case (Process_wait c)
    then show ?thesis using e r d(2)
      by (auto simp: process_wait_def bind_eq_Some_conv fitting_eval split: if_splits intro!: kept_call intro: kept_same)
  next
    case Process_exit
    then show ?thesis using e r d(2) by (auto simp: bind_eq_Some_conv Let_def fitting_eval split: if_splits intro!: kept_call)
  next
    case Exit_children
    obtain th where "threads k (running k) = Some th" using d(3) by blast
    then show ?thesis using e d(2) Exit_children r by (cases "o_children_wait_status_list th")
        (auto simp: exit_children_def wait_status_mod_ref_def bind_eq_Some_conv Let_def fitting_eval intro!: kept_call)
  next
    case (Cond_signal c l)
    then show ?thesis using e d(2,4) r
      by (cases "conds k c") (auto simp: lock_held_by_current_thread_def fitting_eval split: if_splits intro!: kept_call intro: kept_same)
  qed (use e r d(2,4) q in \<open>auto simp: quiet_def plain_def lock_held_by_current_thread_def sema_try_down_def fitting_eval split: if_splits
      intro!: kept_call intro: kept_same\<close>)
qed

lemma kept_create:
  assumes "stepping k" "run_act a k = Some k'" "stage pg a" "\<not> is_init a" "good_act a"
  shows "kept a k k'"
proof -
  note d = steppingD [OF assms(1)]
  have r: "st k (running k) \<noteq> None" using d(3) by (auto simp: st_def)
  show ?thesis
  proof (cases a)
    case (Take_tid p rest)
    then show ?thesis using assms(2,5) r by (auto simp: take_tid_def fitting_eval intro!: kept_call)
  next
    case (New_wait_status p)
    then show ?thesis using assms(2) r
      by (auto simp: new_wait_status_def wait_status_mod_ref_def Let_def bind_eq_Some_conv fitting_eval intro!: kept_call)
  next
    case (Add_child p ws)
    then show ?thesis using assms(2) r d(2)
      by (auto simp: add_child_def wait_status_mod_ref_def Let_def bind_eq_Some_conv fitting_eval intro!: kept_call)
  next
    case (Unblock p)
    then show ?thesis using assms(2) by (auto intro: unblock_kept)
  qed (use assms(3,4) in \<open>auto simp: is_init_def\<close>)
qed

section \<open>Context switches\<close>

lemma kill_views: "st (k\<lparr>threads := (threads k)(t := None)\<rparr>) = (st k)(t := None)" "td (k\<lparr>threads := (threads k)(t := None)\<rparr>) = (td k)(t := [])"
  by (simp_all add: st_def td_def fun_eq_iff)

lemma schedule_alive:
  assumes "schedule j = Some k'" "alive j (next_of j)"
  shows "\<not> intr_on k'" "all_list k' = all_list j" "\<And>t. alive k' t \<Longrightarrow> alive j t \<and> td k' t = td j t"
proof -
  have n: "next_thread_to_run j = (next_of j, j\<lparr>ready_list := tl (ready_list j)\<rparr>)"
    by (simp add: next_thread_to_run_def next_of_def split: list.splits)
  define m where "m b = (set_status (next_of j) THREAD_RUNNING (if b then j\<lparr>ready_list := tl (ready_list j), running := next_of j\<rparr>
      else j\<lparr>ready_list := tl (ready_list j)\<rparr>))\<lparr>thread_ticks := 0\<rparr>" for b
  have m: "st (m b) = (st j)(next_of j := Some THREAD_RUNNING)" "td (m b) = td j" "all_list (m b) = all_list j" "intr_on (m b) = intr_on j" for b
    using assms(2) by (auto simp: m_def alive_def)
  have "\<not> intr_on j" "(\<exists>b. k' = m b) \<or> k' = (m True)\<lparr>threads := (threads (m True))(running j := None)\<rparr>"
    using assms(1) n by (auto simp: m_def schedule_def thread_schedule_tail_def running_thread_def Let_def bind_eq_Some_conv split: if_splits)
  then show "\<not> intr_on k'" "all_list k' = all_list j" "\<And>t. alive k' t \<Longrightarrow> alive j t \<and> td k' t = td j t"
    using assms(2) by (auto simp: alive_def kill_views m split: if_splits)
qed

text \<open>The running thread leaves the processor with \<open>xs\<close> pushed.\<close>

lemma kept_switch:
  assumes "schedule j = Some k'" "alive j (next_of j)" "all_list j = all_list k" "fitting a (intr_on k) xs"
    "\<And>t. alive j t \<Longrightarrow> alive k t \<and> td j t = (if t = running k then xs @ td k t else td k t)"
  shows "kept a k k'"
  unfolding kept_def using schedule_alive [OF assms(1,2)] assms(3-5) by (intro conjI exI [of _ xs]) auto

lemma ready_status: "threads_ok k \<Longrightarrow> t \<in> set (ready_list k) \<Longrightarrow> st k t = Some THREAD_READY"
  using threads_okD(1) [of k] unfolding ready_ok_def by metis

lemma ready_alive:
  assumes "threads_ok k"
  shows "t \<in> set (ready_list k) \<Longrightarrow> alive k t" "alive k (idle_thread k)" "alive k (running k)"
proof -
  note i = threads_okD(1,4,8) [OF assms]
  show "alive k t" if "t \<in> set (ready_list k)" using ready_status [OF assms that] by (simp add: alive_def)
  show "alive k (idle_thread k)" "alive k (running k)" using i(2,3) by (auto simp: idle_ok_def alive_def)
qed

lemma next_alive_after:
  assumes O: "threads_ok k" and r: "ready_list j = ready_list k @ xs" "set xs \<subseteq> {running k}" "idle_thread j = idle_thread k"
    and s: "st j = (st k)(running k := Some x)" "x \<noteq> THREAD_DYING \<or> running k \<noteq> idle_thread k"
  shows "xs = [] \<or> x \<noteq> THREAD_DYING \<Longrightarrow> alive j (next_of j)"
proof -
  assume x: "xs = [] \<or> x \<noteq> THREAD_DYING"
  have "running k \<notin> set (ready_list k)" using ready_status [OF O] threads_okD(8) [OF O] by force
  moreover have "next_of j \<in> set (ready_list k) \<or> next_of j = idle_thread k \<or> next_of j = running k \<and> xs \<noteq> []"
    using r hd_in_set [of "ready_list j"] by (cases "ready_list j = []") (auto simp: next_of_def)
  ultimately show ?thesis using ready_alive [OF O] s x by (auto simp: alive_def)
qed

lemma kept_down:
  assumes S: "stepping k" and l: "\<not> intr_on k" and e: "down_loop s old k = Some k'" and a: "winding_act a \<Longrightarrow> \<not> lev \<Longrightarrow> \<not> old"
    and n: "\<not> exit_act a"
  shows "kept a (k\<lparr>intr_on := lev\<rparr>) k'"
proof (cases "sema_value (sem k s) = 0")
  case False
  then have "k' = (set_sem s ((sem k s)\<lparr>sema_value := sema_value (sem k s) - 1\<rparr>) k)\<lparr>intr_on := old\<rparr>" using down_todo(2) [OF e] by simp
  then show ?thesis unfolding kept_def using a n by (intro conjI exI [of _ "[]"]) (auto simp: alive_def exit_act_def)
next
  case True
  note d = steppingD [OF S]
  let ?j = "set_status (running k) THREAD_BLOCKED (call [Down_loop s old] (set_sem s ((sem k s)\<lparr>waiters := waiters (sem k s) @ [running k]\<rparr>) k))"
  have r: "st k (running k) = Some THREAD_RUNNING" using threads_okD(8) [OF d(1)] .
  have "schedule ?j = Some k'" using e True d(2,4) l
    by (auto simp: down_loop_def thread_block_def bind_eq_Some_conv dest: current_is split: if_splits)
  moreover have "alive ?j (next_of ?j)" by (rule next_alive_after [OF d(1), where xs = "[]" and x = THREAD_BLOCKED]) (use r in auto)
  ultimately show ?thesis by (rule kept_switch [where xs = "[Down_loop s old]"]) (use r a n in \<open>auto simp: alive_def fitting_def exit_act_def\<close>)
qed

lemma level_id: "intr_on k = b \<Longrightarrow> k\<lparr>intr_on := b\<rparr> = k"
  by auto

lemma kept_yield:
  assumes O: "threads_ok k" and e: "thread_yield k = Some k'" and a: "\<not> exit_act a" "\<not> winding_act a"
  shows "kept a k k'"
proof -
  have r: "st k (running k) = Some THREAD_RUNNING" "thread_current k = Some (running k)"
    using threads_okD(1,8) [OF O] current_eq [of k] by auto
  define j where "j = (call [Set_level (intr_on k)] k)\<lparr>intr_on := False\<rparr>"
  define xs where "xs = (if running k = idle_thread k then [] else [running k])"
  define i where "i = set_status (running k) THREAD_READY (if running k = idle_thread k then j else j\<lparr>ready_list := ready_list k @ xs\<rparr>)"
  have "schedule i = Some k'" using e r(2) by (auto simp: thread_yield_def Let_def i_def j_def xs_def split: if_splits)
  moreover have "alive i (next_of i)"
    by (rule next_alive_after [OF O, where xs = xs and x = THREAD_READY]) (use r in \<open>auto simp: i_def j_def xs_def\<close>)
  ultimately show ?thesis by (rule kept_switch [where xs = "[Set_level (intr_on k)]"])
      (use r a in \<open>auto simp: alive_def fitting_def exit_act_def i_def j_def\<close>)
qed

lemma kept_idle:
  assumes O: "threads_ok k" and t: "td k (running k) = Idle_loop # as" and e: "run_act Idle_loop (set_todo (running k) as k) = Some k'"
  shows "kept Idle_loop (set_todo (running k) as k) k'"
proof -
  let ?k = "set_todo (running k) as k"
  let ?j = "set_status (running k) THREAD_BLOCKED (call [Set_level True, Idle_loop] (?k\<lparr>intr_on := False\<rparr>))"
  have r: "st k (running k) = Some THREAD_RUNNING" using threads_okD(8) [OF O] .
  have "schedule ?j = Some k'" using e by (auto simp: thread_block_def bind_eq_Some_conv dest: current_is split: if_splits)
  moreover have "alive ?j (next_of ?j)" by (rule next_alive_after [OF O, where xs = "[]" and x = THREAD_BLOCKED]) (use r in auto)
  ultimately show ?thesis by (rule kept_switch [where xs = "[Set_level True, Idle_loop]"]) (use r in \<open>auto simp: alive_def fitting_def exit_act_def\<close>)
qed

section \<open>Every action keeps the invariant\<close>

lemma exit_begin_ok:
  assumes I: "exits_ok k" and l: "alive k (running k)" "alive k' (running k')" and t: "td k (running k) = Exit_begin # as"
    and e: "run_act Exit_begin (set_todo (running k) as k) = Some k'"
  shows "exits_ok k'"
proof -
  let ?k = "set_todo (running k) as k"
  have k': "k' = ?k\<lparr>intr_on := False, all_list := remove1 (running k) (all_list k)\<rparr>"
    using e by (auto simp: bind_eq_Some_conv dest: current_is split: if_splits)
  have "exit_list (Exit_begin # as)" using I l(1) t unfolding exits_ok_def by metis
  then have "as = [Exit_children]" using exit_list_tl [of Exit_begin as] by (auto simp: exit_act_def winding_def)
  then have y: "exit_list as" "winding as" by (auto simp: exit_list_def winding_def)
  show ?thesis by (rule exits_step [OF I, where ys = as]) (use y l in \<open>auto simp: k' alive_def\<close>)
qed

lemma exit_end_ok:
  assumes O: "threads_ok k" and I: "exits_ok k" and l: "alive k' (running k')" and n: "running k \<noteq> idle_thread k"
    and e: "run_act Exit_end (set_todo (running k) as k) = Some k'"
  shows "exits_ok k'"
proof -
  let ?j = "set_status (running k) THREAD_DYING (set_todo (running k) as k)"
  have r: "st k (running k) = Some THREAD_RUNNING" using threads_okD(8) [OF O] .
  have s: "schedule ?j = Some k'" using e by (auto simp: bind_eq_Some_conv dest: current_is)
  have a: "alive ?j (next_of ?j)" by (rule next_alive_after [OF O, where xs = "[]" and x = THREAD_DYING]) (use r n in auto)
  note k' = schedule_alive [OF s a]
  have d: "alive ?j t \<longleftrightarrow> alive k t \<and> t \<noteq> running k" for t using r by (auto simp: alive_def)
  have f: "\<And>t. t \<noteq> running k \<Longrightarrow> td ?j t = td k t" "all_list ?j = all_list k" by auto
  show ?thesis by (rule exits_step [OF I, where ys = "[]"]) (use k' d l f in \<open>auto simp: exit_list_def\<close>)
qed

lemma exit_init_ok:
  assumes I: "exits_ok k" and l: "alive k (running k)"
    and t: "td k (running k) = Init_thread pg name pri [Set_level True] # as" and p: "st k pg = None"
    and e: "run_act (Init_thread pg name pri [Set_level True]) (set_todo (running k) as k) = Some k'"
  shows "exits_ok k'"
proof -
  let ?k = "set_todo (running k) as k" and ?a = "Init_thread pg name pri [Set_level True]"
  obtain j where j: "init_thread pg name pri [Set_level True] ?k = Some j" "k' = call (allocate_tid pg [New_wait_status pg] j) j"
    using e by (auto simp: bind_eq_Some_conv)
  let ?xs = "allocate_tid pg [New_wait_status pg] j"
  have n: "pg \<noteq> running k" using p l by (auto simp: alive_def)
  have v: "st j = (st k)(pg := Some THREAD_BLOCKED)" "td j = (td k)(running k := as, pg := [Set_level True])"
    "all_list j = all_list k @ [pg]" "running j = running k" "intr_on j = intr_on k"
    using j(1) n l by (auto simp: init_thread_def st_def td_def set_todo_def upd_thread_def alive_def fun_eq_iff split: if_splits)
  have k': "alive k' t \<longleftrightarrow> alive k t \<or> t = pg" "td k' = (td k)(running k := ?xs @ as, pg := [Set_level True])"
    "all_list k' = all_list k @ [pg]" "running k' = running k" "intr_on k' = intr_on k" for t
    using v n l by (auto simp: j(2) alive_def)
  have L: "exit_list (?a # as)" "winding (?a # as) \<Longrightarrow> \<not> intr_on k" "\<not> winding (?a # as) \<Longrightarrow> running k \<in> set (all_list k)"
    using I l t unfolding exits_ok_def by metis+
  have f: "fitting ?a (intr_on k) ?xs" by (simp add: fitting_eval allocate_tid_def)
  note F = fitting_list [OF L(1) f L(2)]
  have "exit_list [Set_level True]" "\<not> winding [Set_level True]" by (simp_all add: exit_list_def exit_act_def winding_def)
  then show ?thesis unfolding exits_ok_def k' using I F L n by (auto simp: exits_ok_def)
qed

lemma step_exits:
  assumes O: "threads_ok k" and I: "exits_ok k" and c: "td k (running k) = a # as" and s: "step_thread k = Some k'"
  shows "exits_ok k'"
proof -
  note i = threads_okD [OF O]
  let ?k = "set_todo (running k) as k"
  obtain th where "threads k (running k) = Some th" "todo th = a # as" using i(8) c by (auto simp: st_def td_def)
  then have e: "run_act a ?k = Some k'" using s by (simp add: step_thread_def)
  have l: "alive k (running k)" "alive k' (running k')" using ready_alive(3) O step_thread_ok(2) [OF O c s] by blast+
  note K = kept_ok [OF I c l]
  show ?thesis
  proof (cases "running k = idle_thread k")
    case True
    then have "idle_act a" using i(4) c unfolding idle_ok_def by (metis list.set_intros(1))
    then consider "a = Idle_loop" | b where "a = Set_level b" by (auto simp: idle_act_def)
    then show ?thesis
    proof cases
      case 1
      then show ?thesis using K kept_idle [OF O, of as k'] c e by simp
    next
      case 2
      then have "kept a ?k k'" using e unfolding kept_def by (intro conjI exI [of _ "[]"]) (auto simp: alive_def)
      then show ?thesis using K 2 by simp
    qed
  next
    case False
    then have a: "a \<noteq> Idle_loop" "\<And>x. a \<noteq> Idle_start x" using i(4) c unfolding idle_ok_def by (metis list.set_intros(1))+
    have S: "stepping ?k" by (rule stepping_pop [OF O c a(1) False])
    note d = steppingD [OF S]
    show ?thesis
    proof (cases "\<exists>pg. stage pg a")
      case True
      then obtain pg where pg: "stage pg a" by blast
      note p = pop_stage [OF O c pg]
      show ?thesis
      proof (cases "is_init a")
        case True
        then obtain name pri where "a = Init_thread pg name pri [Set_level True]" "st k pg = None" using pg p by (auto simp: is_init_def)
        then show ?thesis using exit_init_ok [OF I l(1)] c e by blast
      next
        case False
        moreover have "a \<noteq> Exit_begin" "a \<noteq> Exit_end" using pg by auto
        ultimately show ?thesis using K kept_create [OF S e pg False] p(2) by blast
      qed
    next
      case nostage: False
      consider s where "a = Sema_down s" | s old where "a = Down_loop s old" | "a = Yield" | "a = Exit_end" | "a = Exit_begin" | "quiet a" "a \<noteq> Exit_begin"
        using nostage a by (cases a) (auto simp: quiet_def)
      then show ?thesis
      proof cases
        case 1
        have "stepping (?k\<lparr>intr_on := False\<rparr>)" using level_ok [OF d(1,5), of False] d(5,6) by (simp add: stepping_def)
        moreover have "down_loop s (intr_on k) (?k\<lparr>intr_on := False\<rparr>) = Some k'" using e 1 by (auto simp: sema_down_def split: if_splits)
        ultimately have "kept a (?k\<lparr>intr_on := False, intr_on := intr_on k\<rparr>) k'" using 1 by (intro kept_down) (auto simp: exit_act_def)
        moreover have "?k\<lparr>intr_on := False, intr_on := intr_on k\<rparr> = ?k" using level_id [of ?k "intr_on k"] by simp
        ultimately show ?thesis using K 1 by simp
      next
        case 2
        have off: "\<not> intr_on ?k" using i(6) c 2 by (auto simp: loops_ok_def)
        have "kept a (?k\<lparr>intr_on := intr_on ?k\<rparr>) k'" by (rule kept_down [OF S off]) (use e 2 in \<open>auto simp: exit_act_def\<close>)
        then show ?thesis using K 2 unfolding level_id [of ?k, OF refl] by blast
      next
        case 3
        then show ?thesis using K kept_yield [OF d(1), of k' Yield] e by (simp add: exit_act_def)
      next
        case 4
        then show ?thesis using exit_end_ok [OF O I l(2) False] e by simp
      next
        case 5
        then show ?thesis using exit_begin_ok [OF I l] c e by simp
      next
        case 6
        then show ?thesis using K kept_quiet [OF S e 6] by (auto simp: quiet_def)
      qed
    qed
  qed
qed

text \<open>The two conditions under which the assertions about an exiting thread fail do not arise.\<close>

lemma exit_asserts:
  assumes O: "threads_ok k" and I: "exits_ok k" and c: "td k (running k) = a # as"
  shows "a = Exit_begin \<Longrightarrow> running k \<in> set (all_list k)" "a = Exit_end \<Longrightarrow> \<not> intr_on k"
proof -
  have l: "alive k (running k)" by (rule ready_alive(3) [OF O])
  then have L: "exit_list (a # as)" "winding (a # as) \<Longrightarrow> \<not> intr_on k" "\<not> winding (a # as) \<Longrightarrow> running k \<in> set (all_list k)"
    using I c unfolding exits_ok_def by metis+
  show "a = Exit_begin \<Longrightarrow> running k \<in> set (all_list k)" using L(3) by (simp add: winding_def)
  show "\<not> intr_on k" if "a = Exit_end" using exit_list_tl [OF L(1)] L(2) that by (auto simp: exit_act_def)
qed

section \<open>Executions\<close>

lemma exits_push:
  assumes I: "exits_ok k" and l: "alive k (running k)" "alive k' (running k')" and w: "\<not> winding (td k (running k))" "list_all (\<lambda>a. \<not> exit_act a) xs"
    and e: "\<And>t. alive k' t \<Longrightarrow> alive k t \<and> td k' t = (if t = running k then xs @ td k t else td k t)"
      "all_list k' = all_list k" "running k' = running k \<or> \<not> intr_on k'"
  shows "exits_ok k'"
proof -
  let ?as = "td k (running k)"
  have L: "exit_list ?as" "running k \<in> set (all_list k)" using I l(1) w(1) by (auto simp: exits_ok_def)
  have "exit_list (xs @ ?as) \<and> \<not> winding (xs @ ?as)" (is ?P) using L(1) [unfolded exit_list_def]
  proof (elim disjE exE conjE)
    assume "list_all (\<lambda>a. \<not> exit_act a) ?as"
    then have "list_all (\<lambda>a. \<not> exit_act a) (xs @ ?as)" using w(2) by simp
    then show ?P using no_exit_winding by (auto simp: exit_list_def)
  next
    fix ps assume "?as = ps @ [Exit_begin, Exit_children]" "list_all (\<lambda>a. \<not> exit_act a) ps"
    then have "xs @ ?as = (xs @ ps) @ [Exit_begin, Exit_children]" "list_all (\<lambda>a. \<not> exit_act a) (xs @ ps)" using w(2) by auto
    then show ?P unfolding exit_list_def winding_def by fastforce
  qed (use w(1) in simp)
  then show ?thesis by (intro exits_step [OF I, where ys = "xs @ ?as"]) (use e l L(2) in auto)
qed

lemma call_exits:
  assumes O: "threads_ok k" and I: "exits_ok k" and t: "td k (running k) = []" and a: "api k as"
  shows "exits_ok (call as k)"
proof -
  have l: "alive k (running k)" by (rule ready_alive(3) [OF O])
  then have r: "st k (running k) \<noteq> None" by (simp add: alive_def)
  have n: "\<not> winding (td k (running k))" using t by (simp add: winding_def)
  show ?thesis
  proof (cases "as = thread_exit")
    case True
    have y: "exit_list thread_exit" "\<not> winding thread_exit"
      unfolding exit_list_def winding_def thread_exit_def by (auto simp: exit_act_def intro: exI [of _ "[Process_exit]"])
    show ?thesis by (rule exits_step [OF I, where ys = thread_exit]) (use True y l r t n I in \<open>auto simp: alive_def exits_ok_def\<close>)
  next
    case False
    have "list_all (\<lambda>a. \<not> exit_act a) as" using a False
      by cases (auto simp: lock_acquire_def lock_release_def lock_try_acquire_def cond_wait_def cond_signal_def cond_broadcast_def thread_create_def exit_act_def)
    then show ?thesis by (intro exits_push [OF I l _ n]) (use l r in auto)
  qed
qed

lemma intr_exits:
  assumes O: "threads_ok k" and I: "exits_ok k" and h: "intr_handler h k = Some k'" and l: "alive k' (running k')"
    and j: "\<And>j. h (in_intr k) = Some j \<Longrightarrow> td j = td k \<and> (\<forall>t. alive j t \<longrightarrow> alive k t) \<and> all_list j = all_list k \<and> running j = running k \<and> \<not> intr_on j \<and> alive j (running k)
      \<and> (yield_on_return j \<longrightarrow> threads_ok (j\<lparr>in_external_intr := False\<rparr>))"
  shows "exits_ok k'"
proof -
  note r = ready_alive(3) [OF O]
  have on: "intr_on k" using h by (auto simp: intr_handler_def split: if_splits)
  then have n: "\<not> winding (td k (running k))" using I by (auto simp: exits_ok_def)
  obtain j where j: "h (in_intr k) = Some j"
    "(let k = call [Set_level True] (j\<lparr>in_external_intr := False\<rparr>) in if yield_on_return k then thread_yield k else Some k) = Some k'"
    and J: "td j = td k" "\<And>t. alive j t \<Longrightarrow> alive k t" "all_list j = all_list k" "running j = running k" "\<not> intr_on j" "alive j (running k)"
      "yield_on_return j \<Longrightarrow> threads_ok (j\<lparr>in_external_intr := False\<rparr>)"
    using h j by (auto simp: intr_handler_def in_intr_def Let_def bind_eq_Some_conv split: if_splits)
  let ?c = "call [Set_level True] (j\<lparr>in_external_intr := False\<rparr>)"
  have "alive ?c t \<longleftrightarrow> alive j t" for t by (simp add: alive_def)
  moreover have "td ?c = (td k)(running k := Set_level True # td k (running k))" using J(1,4,6) by (auto simp: alive_def)
  ultimately have c: "exits_ok ?c" by (intro exits_push [OF I r _ n, of _ "[Set_level True]"]) (use J in \<open>auto simp: exit_act_def\<close>)
  show ?thesis
  proof (cases "yield_on_return j")
    case False
    then show ?thesis using j(2) c by simp
  next
    case True
    note p = J(7) [OF True]
    have D: "\<forall>s old. Down_loop s old \<notin> set (td (j\<lparr>in_external_intr := False\<rparr>) (running (j\<lparr>in_external_intr := False\<rparr>)))"
      using on_no_loop [OF O on] J(1,4) by simp
    note P = push_level_ok(1) [OF p D, of True]
    have y: "thread_yield ?c = Some k'" using j(2) True by simp
    obtain xs where x: "fitting Yield (intr_on ?c) xs" "\<And>t. alive k' t \<Longrightarrow> alive ?c t \<and> td k' t = (if t = running ?c then xs @ td ?c t else td ?c t)"
      and A: "all_list k' = all_list ?c" "running k' = running ?c \<or> \<not> intr_on k'"
      using kept_yield [OF P y, of Yield] by (auto simp: kept_def exit_act_def)
    have "\<not> winding (td ?c (running ?c))" using J(1,4,6) n by (auto simp: alive_def winding_def)
    then show ?thesis by (intro exits_push [OF c ready_alive(3) [OF P] l _ _ x(2) A]) (use x(1) in \<open>auto simp: fitting_def exit_act_def\<close>)
  qed
qed

lemma kstep_exits:
  assumes O: "threads_ok k" and I: "exits_ok k" and s: "kstep k e k'"
  shows "exits_ok k'"
proof -
  have O': "threads_ok k'" by (rule kstep_ok [OF O s])
  note l = ready_alive(3) [OF O'] and i = threads_okD [OF O]
  show ?thesis using s
  proof cases
    case (kstep_act a as)
    then show ?thesis using step_exits [OF O I] by blast
  next
    case (kstep_call as)
    then show ?thesis using call_exits [OF O I] by blast
  next
    case kstep_timer
    then have on: "intr_on k" by (auto simp: intr_handler_def split: if_splits)
    have "ready_ok (in_intr k)" using i(1) by (simp add: ready_ok_def in_intr_def)
    then have t: "timer_interrupt (in_intr k) = Some (ticked (in_intr k))" by (rule timer_interrupt_eq) (use i(8) in \<open>simp add: in_intr_def\<close>)
    let ?k = "ticked (in_intr k)"
    have f: "threads ?k = threads k" "running ?k = running k" "ready_list ?k = ready_list k" "idle_thread ?k = idle_thread k"
      "sem ?k = sem k" "\<not> intr_on ?k" "all_list ?k = all_list k" by (auto simp: ticked_def in_intr_def Let_def)
    have "threads_ok (?k\<lparr>in_external_intr := False\<rparr>)" by (rule fields_ok [OF O on_no_loop [OF O on]]) (use f i(7) in simp_all)
    then show ?thesis using ready_alive(3) [OF O] f
      by (intro intr_exits [OF O I kstep_timer(2) l]) (auto simp: t alive_def st_def td_def fun_eq_iff)
  next
    case (kstep_device s)
    have "td j = td k \<and> (\<forall>t. alive j t \<longrightarrow> alive k t) \<and> all_list j = all_list k \<and> running j = running k \<and> \<not> intr_on j \<and> alive j (running k) \<and> \<not> yield_on_return j"
      if "sema_up (Sem s) (in_intr k) = Some j" for j
    proof -
      have v: "st (in_intr k) = st k" "td (in_intr k) = td k" "running (in_intr k) = running k" "all_list (in_intr k) = all_list k"
        "\<not> intr_on (in_intr k)" "\<not> yield_on_return (in_intr k)" by (simp_all add: in_intr_def)
      have "kept Yield (in_intr k) j" using that
        by (auto simp: sema_up_def bind_eq_Some_conv split: list.splits intro!: kept_set_sem intro: unblock_kept kept_same)
      then have "\<forall>t. alive j t \<longrightarrow> alive k t" "all_list j = all_list k" unfolding kept_def using v by (auto simp: alive_def)
      moreover have "td j = td k" "running j = running k" using up_objects [OF that] v by auto
      moreover have "\<not> yield_on_return j" using sema_up_yield [OF that] v by simp
      moreover have "\<not> intr_on j" "alive j (running k)" using that v i(8)
        by (auto simp: sema_up_def thread_unblock_def bind_eq_Some_conv alive_def split: list.splits if_splits)
      ultimately show ?thesis by blast
    qed
    then show ?thesis by (intro intr_exits [OF O I kstep_device(2) l]) blast
  qed
qed

lemma runs_exits: "runs k es k' \<Longrightarrow> threads_ok k \<Longrightarrow> exits_ok k \<Longrightarrow> exits_ok k'"
  by (induction rule: runs.induct) (auto dest: kstep_ok kstep_exits)

end
