(* ===== verification/Thread_Props.thy ===== *)
theory Thread_Props
  imports Exit_Proofs
begin

text \<open>
  The start of the kernel threads, and the properties of every execution after it: the scheduler's invariant,
  when the kernel can stop, mutual exclusion, and that a ready thread gets to run.
\<close>

section \<open>Start\<close>

definition free_sema :: semaphore where
  "free_sema = \<lparr>sema_value = 1, waiters = []\<rparr>"

text \<open>The kernel's data before \<open>thread_init\<close>, with four initialized locks, of which lock 0 is \<open>tid_lock\<close>.\<close>

definition power_on :: kern where
  "power_on = \<lparr>threads = Map.empty, running = 0, ready_list = [], all_list = [], idle_thread = 0, initial_thread = 0,
     semas = (\<lambda>_. free_sema), locks = (\<lambda>_. \<lparr>holder = 0, lsema = free_sema\<rparr>), conds = (\<lambda>_. []), wait_statuses = Map.empty,
     tid_lock = 0, next_tid = 1, next_obj = 4, intr_on = False, in_external_intr = False, yield_on_return = False,
     ticks = 0, thread_ticks = 0, idle_ticks = 0, kernel_ticks = 0, user_ticks = 0\<rparr>"

fun steps :: "nat \<Rightarrow> kern \<Rightarrow> kern option" where
  "steps 0 k = Some k"
| "steps (Suc n) k = do { k \<leftarrow> step_thread k; steps n k }"

lemma steps_num: "steps (numeral n) k = do { k \<leftarrow> step_thread k; steps (pred_numeral n) k }"
  by (simp add: numeral_eq_Suc)

text \<open>\<open>thread_init\<close> and \<open>thread_start\<close>, with the main thread in page 1 and the idle thread in page 2.\<close>

definition boot :: "kern option" where
  "boot = do { k \<leftarrow> thread_init 1 power_on; k \<leftarrow> steps 7 k; steps 33 (call (thread_start 2 3) k) }"

definition main_thread :: thread where
  "main_thread = \<lparr>tid = 1, status = THREAD_RUNNING, tname = [109, 97, 105, 110], priority = 31, o_wait_status = 0,
     o_children_wait_status_list = [4], has_pagedir = False, magic = THREAD_MAGIC, todo = [], ret = 0\<rparr>"

definition started :: kern where
  "started = \<lparr>threads = [2 \<mapsto> \<lparr>tid = 2, status = THREAD_BLOCKED, tname = [105, 100, 108, 101], priority = 0, o_wait_status = 4,
       o_children_wait_status_list = [], has_pagedir = False, magic = THREAD_MAGIC, todo = [Set_level True, Idle_loop], ret = 0\<rparr>, 1 \<mapsto> main_thread],
     running = 1, ready_list = [], all_list = [1, 2], idle_thread = 2, initial_thread = 1,
     semas = (\<lambda>_. free_sema)(4 := \<lparr>sema_value = 0, waiters = []\<rparr>, 3 := \<lparr>sema_value = 0, waiters = []\<rparr>),
     locks = (\<lambda>_. \<lparr>holder = 0, lsema = free_sema\<rparr>)(0 := \<lparr>holder = 0, lsema = free_sema\<rparr>, 4 := \<lparr>holder = 0, lsema = free_sema\<rparr>),
     conds = (\<lambda>_. []),
     wait_statuses = [4 \<mapsto> \<lparr>o_tid = 2, o_sem_exited = 4, o_exit_code = 0, o_reference_count = 2, o_reference_count_lock = 4, o_kernel_killed = False\<rparr>],
     tid_lock = 0, next_tid = 3, next_obj = 5, intr_on = True, in_external_intr = False, yield_on_return = False,
     ticks = 0, thread_ticks = 0, idle_ticks = 0, kernel_ticks = 0, user_ticks = 0\<rparr>"

lemmas kernel_eval = Let_def lock_acquire_def lock_release_def set_status_def upd_thread_def call_def step_thread_def set_todo_def
  lock_held_by_current_thread_def thread_current_def running_thread_def is_thread_def sema_down_def down_loop_def sem_def set_sem_def set_lock_holder_def
  sema_up_def thread_unblock_def thread_block_def schedule_def next_thread_to_run_def thread_schedule_tail_def sz_def wrap32_def

lemma boot_started: "boot = Some started"
  by (simp add: boot_def started_def main_thread_def steps_num power_on_def free_sema_def thread_init_def init_thread_def allocate_tid_def first_word_def
    PRI_MIN_def PRI_MAX_def PRI_DEFAULT_def take_tid_def thread_start_def thread_create_def kernel_thread_def idle_def new_wait_status_def
    wait_status_mod_ref_def add_ref_def add_child_def kernel_eval)

lemma started_views:
  "st started = [2 \<mapsto> THREAD_BLOCKED, 1 \<mapsto> THREAD_RUNNING]" "td started = (\<lambda>_. [])(2 := [Set_level True, Idle_loop])" "mg started t"
  "waiters (sem started s) = []"
  by (auto simp: started_def main_thread_def st_def td_def mg_def sem_def free_sema_def fun_eq_iff split: sref.splits)

lemma started_fields:
  "running started = 1" "ready_list started = []" "idle_thread started = 2" "intr_on started" "\<not> in_external_intr started" "next_obj started = 5"
  "tid_lock started = 0" "thread_ticks started = 0" "locks started l = \<lparr>holder = 0, lsema = free_sema\<rparr>"
  "wait_statuses started = [4 \<mapsto> \<lparr>o_tid = 2, o_sem_exited = 4, o_exit_code = 0, o_reference_count = 2, o_reference_count_lock = 4, o_kernel_killed = False\<rparr>]"
  by (simp_all add: started_def)

lemma started_ok: "threads_ok started"
  by (auto simp: threads_ok_def ready_ok_def one_running_def waiters_ok_def idle_ok_def births_ok_def loops_ok_def started_views started_fields idle_act_def)

lemma started_locks: "locks_inv started"
  by (auto simp: locks_inv_def lock_ok_def passing_def phase_def lvalue_def started_views started_fields free_sema_def)

lemma started_exits: "exits_ok started"
proof -
  have a: "alive started t \<longleftrightarrow> t = 1 \<or> t = 2" for t by (auto simp: alive_def started_views)
  have "exit_list [Set_level True, Idle_loop]" "exit_list []" by (simp_all add: exit_list_def exit_act_def)
  then show ?thesis by (auto simp: exits_ok_def a started_views winding_def) (auto simp: started_def)
qed

lemma reached_ok: "runs started es k \<Longrightarrow> threads_ok k \<and> locks_inv k \<and> exits_ok k"
  using runs_ok runs_locks runs_exits started_ok started_locks started_exits by blast

lemma ticks_bounded: "runs k es k' \<Longrightarrow> thread_ticks k < TIME_SLICE \<Longrightarrow> thread_ticks k' < TIME_SLICE"
proof (induction rule: runs.induct)
  case (runs_step k e k1 es k2)
  have "thread_ticks k1 < TIME_SLICE" using kstep_shape [OF runs_step.hyps(1)] runs_step.prems by (auto simp: stays_def switches_def TIME_SLICE_def)
  then show ?case by (rule runs_step.IH)
qed

lemma runs_append: "runs k (es @ fs) k' \<longleftrightarrow> (\<exists>j. runs k es j \<and> runs j fs k')"
  by (induction es arbitrary: k) (auto simp: runs_Cons)

section \<open>What stops the kernel\<close>

text \<open>The preconditions that the called functions state: \<open>lock_acquire\<close> and \<open>lock_try_acquire\<close> of a lock that the thread does not
  hold, \<open>lock_release\<close> and the functions on conditions with the lock held, a priority in range and a name that fits its array in
  \<open>thread_create\<close>, interrupts on in \<open>timer_sleep\<close>.\<close>

fun violates :: "act \<Rightarrow> kern \<Rightarrow> bool" where
  "violates (Assert_not_held l) k = (holder (locks k l) = running k)"
| "violates (Assert_unheld l) k = (holder (locks k l) = running k)"
| "violates (Assert_held l) k = (holder (locks k l) \<noteq> running k)"
| "violates (Assert_waits l) k = (holder (locks k l) \<noteq> running k)"
| "violates (Cond_signal c l) k = (holder (locks k l) \<noteq> running k)"
| "violates (Init_thread pg name pri code) k = (\<not> (PRI_MIN \<le> pri \<and> pri \<le> PRI_MAX) \<or> length (first_word name) \<ge> 16)"
| "violates (Timer_sleep n) k = (\<not> intr_on k)"
| "violates _ k = False"

text \<open>A wait status that the action uses is not an object: the pointer is null, as in the main thread, or the object was freed.\<close>

fun lost_status :: "act \<Rightarrow> kern \<Rightarrow> bool" where
  "lost_status (Add_ref ws d) k = ws_gone k ws"
| "lost_status (Free_wait_status ws) k = ws_gone k ws"
| "lost_status (Add_child pg ws) k = ws_gone k ws"
| "lost_status (Reap ws) k = ws_gone k ws"
| "lost_status Process_exit k = (\<forall>th. threads k (running k) = Some th \<longrightarrow> ws_gone k (o_wait_status th))"
| "lost_status Exit_children k = (\<forall>th. threads k (running k) = Some th \<longrightarrow>
     ws_gone k (case o_children_wait_status_list th of ws # wss \<Rightarrow> ws | [] \<Rightarrow> o_wait_status th))"
| "lost_status (Process_wait child) k = (case thread_get_wait_status (running k) child k of None \<Rightarrow> True | Some ws \<Rightarrow> ws \<noteq> 0 \<and> ws_gone k ws)"
| "lost_status _ k = False"

lemma stops_iff:
  "stops a k \<longleftrightarrow> violates a k \<or> lost_status a k \<or> a = Exit_begin \<and> running k \<notin> set (all_list k) \<or> a = Exit_end \<and> intr_on k"
  by (cases a) auto

section \<open>Replaying an execution\<close>

definition call_ok_now :: "kern \<Rightarrow> act list \<Rightarrow> bool" where
  "call_ok_now k as \<longleftrightarrow> (case as of
     Assert_not_held l # _ \<Rightarrow> l < next_obj k \<and> as = lock_acquire l | Assert_held l # _ \<Rightarrow> l < next_obj k \<and> as = lock_release l
   | _ \<Rightarrow> as = [Yield])"

fun replay1 :: "event \<Rightarrow> kern \<Rightarrow> kern option" where
  "replay1 (Act t a) k = (if t = running k \<and> (case threads k t of Some th \<Rightarrow> (case todo th of b # _ \<Rightarrow> a = b | [] \<Rightarrow> False) | None \<Rightarrow> False) then step_thread k else None)"
| "replay1 (Call t as) k = (if t = running k \<and> (case threads k t of Some th \<Rightarrow> todo th = [] | None \<Rightarrow> False) \<and> call_ok_now k as then Some (call as k) else None)"
| "replay1 Timer k = intr_handler timer_interrupt k"
| "replay1 (Device s) k = intr_handler (sema_up (Sem s)) k"

fun replay :: "event list \<Rightarrow> kern \<Rightarrow> kern option" where
  "replay [] k = Some k"
| "replay (e # es) k = do { k \<leftarrow> replay1 e k; replay es k }"

lemma replay1_kstep: "replay1 e k = Some k' \<Longrightarrow> kstep k e k'"
proof (cases e)
  case (Act t a)
  assume "replay1 e k = Some k'"
  then obtain th as where "threads k (running k) = Some th" "todo th = a # as" "t = running k" "step_thread k = Some k'"
    using Act by (auto split: if_splits option.splits list.splits)
  then show ?thesis using Act kstep_act [of k a as k'] by (simp add: td_def)
next
  case (Call t as)
  assume "replay1 e k = Some k'"
  then have "td k (running k) = []" "t = running k" "call_ok_now k as" "k' = call as k" using Call by (auto simp: td_def split: if_splits option.splits)
  moreover have "api k as"
  proof -
    have "as = [Yield] \<or> (\<exists>l < next_obj k. as = lock_acquire l \<or> as = lock_release l)"
      using \<open>call_ok_now k as\<close> by (auto simp: call_ok_now_def split: list.splits act.splits)
    then show ?thesis using api.intros(1,2,10) by blast
  qed
  ultimately show ?thesis using Call kstep_call by simp
qed (auto intro: kstep.intros)

lemma replay_runs: "replay es k = Some k' \<Longrightarrow> runs k es k'"
  by (induction es arbitrary: k) (auto simp: bind_eq_Some_conv intro: runs_step replay1_kstep)

lemmas replay_eval = kernel_eval call_ok_now_def intr_handler_def timer_interrupt_def thread_tick_def thread_yield_def TIME_SLICE_def

definition acquire_trace :: "event list" where
  "acquire_trace = [Call 1 (lock_acquire 1), Act 1 (Assert_not_held 1), Act 1 (Sema_down (Lock_sem 1))]"

definition release_trace :: "event list" where
  "release_trace = [Call 1 (lock_release 1), Act 1 (Assert_held 1), Act 1 (Clear_holder 1), Act 1 (Sema_up (Lock_sem 1))]"

lemma trace_runs: "replay (acquire_trace @ Act 1 (Set_holder 1) # (release_trace @ acquire_trace) @ [Act 1 (Set_holder 1)]) started \<noteq> None"
  by (simp add: started_def main_thread_def free_sema_def acquire_trace_def release_trace_def replay_eval)

lemma steps_runs: "steps n k = Some k' \<Longrightarrow> \<exists>es. runs k es k'"
proof (induction n arbitrary: k)
  case 0
  then show ?case by (intro exI [of _ "[]"]) simp
next
  case (Suc n)
  then obtain j where j: "step_thread k = Some j" "steps n j = Some k'" by (auto simp: bind_eq_Some_conv)
  have "td k (running k) \<noteq> []" using j(1) by (auto simp: step_thread_def td_def bind_eq_Some_conv)
  then obtain a as where "td k (running k) = a # as" by (cases "td k (running k)") auto
  then have "kstep k (Act (running k) a) j" using j(1) by (rule kstep_act)
  moreover obtain es where "runs j es k'" using Suc.IH [OF j(2)] by blast
  ultimately show ?case by (blast intro: runs_step)
qed

text \<open>The main thread creates a second thread in page 5.\<close>

definition two_threads :: "kern option" where
  "two_threads = steps 25 (call (thread_create 5 [116] 31 []) started)"

definition time_slice :: "event list" where
  "time_slice = [Timer, Act 1 (Set_level True), Timer, Act 1 (Set_level True), Timer, Act 1 (Set_level True), Timer]"

lemma two_threads_runs:
  "\<exists>es k k'. runs started es k \<and> ready_list k = [5] \<and> runs k time_slice k'"
proof -
  let ?c = "thread_create 5 [116] 31 []"
  have "kstep started (Call (running started) ?c) (call ?c started)"
  proof (rule kstep_call)
    show "td started (running started) = []" by (simp add: started_views started_fields)
    show "api started ?c" by (rule api.intros(12)) (auto simp: started_views no_stage_def)
  qed
  moreover have "\<exists>k. two_threads = Some k \<and> ready_list k = [5] \<and> replay time_slice k \<noteq> None"
    by (simp add: two_threads_def steps_num started_def main_thread_def free_sema_def thread_create_def kernel_thread_def init_thread_def allocate_tid_def
        first_word_def PRI_MIN_def PRI_MAX_def take_tid_def new_wait_status_def wait_status_mod_ref_def add_ref_def add_child_def time_slice_def replay_eval)
  then obtain k k' where "steps 25 (call ?c started) = Some k" "ready_list k = [5]" "replay time_slice k = Some k'" by (auto simp: two_threads_def)
  moreover from this obtain es where "runs (call ?c started) es k" using steps_runs by blast
  ultimately show ?thesis by (blast intro: runs_step replay_runs)
qed

section \<open>Properties\<close>

text \<open>C6. In every state that the kernel reaches after \<open>thread_start\<close>, exactly one thread is running and it is the one on the
  processor, the ready list holds the ready threads other than the idle thread, each once, and a thread that waits for a
  semaphore is blocked and waits for no other one: the list element of a thread is in at most one list, as \<open>thread.h\<close> requires.\<close>

theorem thread_lists_well_formed:
  assumes "runs started es k"
  shows "(\<forall>t. st k t = Some THREAD_RUNNING \<longleftrightarrow> t = running k)
    \<and> distinct (ready_list k) \<and> (\<forall>t. t \<in> set (ready_list k) \<longleftrightarrow> st k t = Some THREAD_READY \<and> t \<noteq> idle_thread k)
    \<and> (\<forall>s. distinct (waiters (sem k s)) \<and> (\<forall>t \<in> set (waiters (sem k s)). st k t = Some THREAD_BLOCKED))
    \<and> (\<forall>s s' t. t \<in> set (waiters (sem k s)) \<inter> set (waiters (sem k s')) \<longrightarrow> s = s')"
proof -
  have O: "threads_ok k" using reached_ok [OF assms] by blast
  note i = threads_okD [OF O]
  have "s = s'" if "t \<in> set (waiters (sem k s)) \<inter> set (waiters (sem k s'))" for s s' t
    using waiter_not_born(3) [OF O, of t s' s] that by auto
  moreover have "distinct (ready_list k)" "t \<in> set (ready_list k) \<longleftrightarrow> st k t = Some THREAD_READY \<and> t \<noteq> idle_thread k" for t
    using i(1) unfolding ready_ok_def by metis+
  ultimately show ?thesis using i(2,3) by (auto simp: one_running_def waiters_ok_def)
qed

theorem thread_lists_well_formed_witness:
  "\<exists>es k. runs started es k \<and> ready_list k = [5] \<and> st k 5 = Some THREAD_READY"
proof -
  obtain es k where k: "runs started es k" "ready_list k = [5]" using two_threads_runs by blast
  then have "st k 5 = Some THREAD_READY" using thread_lists_well_formed [OF k(1)] by (metis list.set_intros(1))
  then show ?thesis using k by blast
qed

text \<open>C7. The kernel stops at an action of the running thread exactly when the thread violates a precondition of a function it
  called (a lock that it must or must not hold, the range of a priority, the length of a name, interrupts on in \<open>timer_sleep\<close>),
  or when a wait status that it uses is the null pointer or was freed; and an interrupt never stops the kernel. So in every execution the
  assertions inside the scheduler, the semaphores, \<open>thread_exit\<close> and the interrupt handling hold.\<close>

theorem kernel_stops_only_on_misuse:
  assumes "runs started es k"
  shows "(\<forall>a as. td k (running k) = a # as \<longrightarrow> (step_thread k = None \<longleftrightarrow> violates a k \<or> lost_status a k))
    \<and> (intr_on k \<longrightarrow> intr_handler timer_interrupt k \<noteq> None \<and> (\<forall>s. intr_handler (sema_up (Sem s)) k \<noteq> None))"
proof -
  have O: "threads_ok k" "exits_ok k" using reached_ok [OF assms] by auto
  have "step_thread k = None \<longleftrightarrow> violates a k \<or> lost_status a k" if "td k (running k) = a # as" for a as
    using step_thread_ok(1) [OF O(1) that] stops_iff [of a k] exit_asserts [OF O that] by blast
  moreover have "intr_handler (sema_up (Sem s)) k \<noteq> None" if "intr_on k" for s using device_ok [OF O(1) that, of "Sem s"] by auto
  ultimately show ?thesis using timer_ok(1) [OF O(1)] by auto
qed

theorem kernel_stops_only_on_misuse_witness:
  "step_thread (call (lock_acquire 1) started) \<noteq> None \<and> step_thread (call (lock_release 1) started) = None"
proof -
  have r: "runs started [Call 1 as] (call as started)" if "call_ok_now started as" for as
    by (rule replay_runs) (use that in \<open>simp add: started_def main_thread_def\<close>)
  have t: "td (call as started) (running (call as started)) = as" for as by (simp add: started_views started_fields)
  have o: "call_ok_now started (lock_acquire 1)" "call_ok_now started (lock_release 1)" by (auto simp: call_ok_now_def started_fields lock_acquire_def lock_release_def)
  have "violates (Assert_held 1) (call (lock_release 1) started)" "\<not> violates (Assert_not_held 1) (call (lock_acquire 1) started)"
    by (simp_all add: started_fields)
  then show ?thesis
    using kernel_stops_only_on_misuse [OF r [OF o(1)]] kernel_stops_only_on_misuse [OF r [OF o(2)]] t
    by (simp add: lock_acquire_def lock_release_def)
qed

text \<open>C4. Locks give mutual exclusion: in every execution, between two moments at which a thread becomes the holder of a lock,
  the first of them has released the lock, whatever interrupts and context switches come between.\<close>

theorem lock_mutual_exclusion:
  assumes "runs started (es @ Act t (Set_holder l) # fs @ [Act u (Set_holder l)]) k"
  shows "Act t (Clear_holder l) \<in> set fs"
proof -
  obtain j where j: "runs started es j" "runs j (Act t (Set_holder l) # fs @ [Act u (Set_holder l)]) k" using assms by (auto simp: runs_append)
  then show ?thesis using lock_excludes [of j t l fs u k] reached_ok [OF j(1)] by blast
qed

theorem lock_mutual_exclusion_witness:
  "\<exists>k. runs started (acquire_trace @ Act 1 (Set_holder 1) # (release_trace @ acquire_trace) @ [Act 1 (Set_holder 1)]) k
     \<and> Act 1 (Clear_holder 1) \<in> set (release_trace @ acquire_trace)"
proof -
  obtain k where "runs started (acquire_trace @ Act 1 (Set_holder 1) # (release_trace @ acquire_trace) @ [Act 1 (Set_holder 1)]) k"
    using trace_runs replay_runs by blast
  then show ?thesis using lock_mutual_exclusion by blast
qed

text \<open>C5. No ready thread starves: a thread at position \<open>i\<close> of the ready list runs after at most \<open>4 (i + 1)\<close> timer interrupts,
  whatever the running threads do.\<close>

theorem ready_thread_runs:
  assumes "runs started es k" "i < length (ready_list k)" "runs k fs k'" "TIME_SLICE * (i + 1) \<le> count_list fs Timer"
  shows "\<exists>fs1 fs2 j. fs = fs1 @ fs2 \<and> runs k fs1 j \<and> runs j fs2 k' \<and> running j = ready_list k ! i"
proof -
  have b: "thread_ticks k < TIME_SLICE" using ticks_bounded [OF assms(1)] by (simp add: started_fields TIME_SLICE_def)
  have "wait_bound k i \<le> count_list fs Timer" using assms(4) by (simp add: wait_bound_def)
  then show ?thesis using ready_runs [OF assms(3,2) refl b] by blast
qed

theorem ready_thread_runs_witness:
  "\<exists>es k k'. runs started es k \<and> ready_list k = [5] \<and> runs k time_slice k'
     \<and> (\<exists>fs1 fs2 j. time_slice = fs1 @ fs2 \<and> runs k fs1 j \<and> runs j fs2 k' \<and> running j = 5)"
proof -
  obtain es k k' where k: "runs started es k" "ready_list k = [5]" "runs k time_slice k'" using two_threads_runs by blast
  have "TIME_SLICE * (0 + 1) \<le> count_list time_slice Timer" by (simp add: TIME_SLICE_def time_slice_def)
  then have "\<exists>fs1 fs2 j. time_slice = fs1 @ fs2 \<and> runs k fs1 j \<and> runs j fs2 k' \<and> running j = 5"
    using ready_thread_runs [OF k(1) _ k(3), of 0] k(2) by simp
  then show ?thesis using k by blast
qed

end
