(* ===== verification/Spec2Isabelle.thy ===== *)
theory Spec2Isabelle
  imports Std_Lib Hash_Table Fixed_Point Kernel_List_Props Bitmap C_String Arith64 Buffer_Cache_Proofs Filesys_Props Thread_Props
begin

text \<open>
  A verification development of Pintos, the instructional operating system kernel under
  \<open>src/pintos/src\<close>: a kernel library (lists, hash tables, bitmaps, strings, sorting, 64-bit division), kernel threads with locks
  and a scheduler, and a file system over a write-back buffer cache.

  \<^bold>\<open>Conventions.\<close> A C function is a HOL function with its name. A function that can fail an
  \<open>ASSERT\<close>, panic, follow a bad pointer or wait for itself forever returns an \<open>option\<close>, and \<open>None\<close> means that the
  kernel stops; results that the code reports as errors are ordinary values. State is passed explicitly: \<open>heap\<close> for
  list nodes, \<open>io\<close> for the buffer cache and the block device, \<open>fs\<close> for the file system, \<open>kern\<close> for the threads.
  Loops whose end follows from an argument are functions with a termination proof; the other loops are partial functions, and the
  theorems about them show that they return. No translated function takes fuel; \<open>iterate\<close> of \<open>Hash_Table\<close>, which only describes
  the use of an iterator, does. Integers wrap where the code's types do
  (\<open>wrap32\<close>, \<open>sz\<close>, words); \<open>sdiv\<close> and \<open>smod\<close> are C's truncating division. \<open>Pintos_Prelude\<close> holds these notions and lemmas
  about lists and words that the components share.

  \<^bold>\<open>Library.\<close> \<open>Fixed_Point\<close> is \<open>threads/fixed-point.h\<close>. \<open>Kernel_List\<close> is \<open>lib/kernel/list.c\<close> on a heap of nodes with
  \<open>prev\<close> and \<open>next\<close> pointers; \<open>Kernel_List_Order\<close> has the lemmas on merging and runs, and \<open>Kernel_List_Props\<close> the theorems:
  FIFO order, insertion and removal undo each other, reversal, sorting (in order, a permutation, and it returns), ordered insertion, removal of
  duplicates, maximum. \<open>Hash_Table\<close> is \<open>lib/kernel/hash.c\<close>: whatever allocations fail, a sequence of fewer than \<open>2^29\<close> operations
  (an element takes at least 8 bytes of the address space) returns what a map returns, which is proved once in the locale \<open>dictionary\<close>.
  \<open>Std_Lib\<close> is \<open>lib/stdlib.c\<close> with \<open>lib/ctype.h\<close>: \<open>atoi\<close>, heap sort and binary search, on lists of array elements. \<open>Bitmap\<close> is \<open>lib/kernel/bitmap.c\<close>, with first fit for \<open>bitmap_scan_and_flip\<close>. \<open>C_String\<close> is \<open>lib/string.c\<close>
  (overlapping \<open>memmove\<close>, bounded \<open>strlcpy\<close>, \<open>strtok_r\<close> against a splitting function). \<open>Arith64\<close> is \<open>lib/arithmetic.c\<close>: the long division
  on 32-bit halves is division.

  \<^bold>\<open>Buffer cache.\<close> \<open>Sector_Store\<close> is the interface of a block device as a locale, with the array of sectors as its model.
  \<open>Buffer_Cache\<close> translates the cache of \<open>devices/block.c\<close>: 64 entries, the clock algorithm, write-back, the locks it takes and the
  states in which a thread has to wait. \<open>Buffer_Cache_Proofs\<close> shows that reads and writes through the cache refine reads and
  writes of the array, that the clock hand finds a victim and gives used entries a second chance, and what happens to a thread that is
  woken while its sector is cached. One thread at a time uses the cache here: a lock that is not free stops the access.

  \<^bold>\<open>File system.\<close> \<open>Inode\<close>, \<open>File_Map\<close>, \<open>Directory\<close> and \<open>Filesys\<close> translate \<open>filesys/inode.c\<close>, \<open>free-map.c\<close> with \<open>file.c\<close>,
  \<open>directory.c\<close> and \<open>filesys.c\<close>, on the cache. The record \<open>fm_ops\<close> ties the knot between inodes and the free map, which call each
  other. \<open>Inode_Read\<close>, \<open>Inode_Write\<close>, \<open>Free_Map_Proofs\<close>, \<open>Inode_Extend\<close>, \<open>Inode_Install\<close>, \<open>Inode_Grow\<close> and \<open>Inode_Append\<close> build the
  correctness of file access: the index tree of an inode with its direct, single and double indirect blocks, allocation,
  growth with zero filling, and that all other files keep their contents. \<open>File_Store\<close> states the contract of a store of files as a locale
  and interprets it with \<open>inode_read_at\<close> and \<open>inode_write_at\<close>; \<open>Filesys_Props\<close> has the theorems, with a small hand-built disk as example.

  \<^bold>\<open>Threads.\<close> \<open>Threads\<close> translates \<open>threads/thread.c\<close>, \<open>threads/synch.c\<close>, the handling of an external interrupt in
  \<open>threads/interrupt.c\<close>, \<open>timer_sleep\<close> and the timer interrupt of \<open>devices/timer.c\<close> and \<open>process_wait\<close>. The code of a function is a list
  of actions, cut where another thread can run, and each thread has the list of what it still has to do. \<open>Threads_Proofs\<close> and
  \<open>Thread_Steps\<close> show that every action keeps the scheduler's invariant and say when an action stops the kernel. \<open>Thread_Runs\<close> defines
  executions, in which threads call the functions of the kernel and interrupts arrive in any order, and shows round-robin scheduling.
  \<open>Lock_Proofs\<close> has the invariant of lock ownership, \<open>Exit_Proofs\<close> that of exiting threads, from which the assertions of \<open>thread_exit\<close> follow.
  \<open>Thread_Props\<close> executes one start of the kernel, without timer interrupts and with four initialized locks, and states the theorems for all executions after it: well-formed thread
  lists, only misuse and a lost wait status stop the kernel, mutual exclusion, and no starvation of ready threads.

  \<^bold>\<open>Not modelled.\<close> Device registers, interrupt controllers, descriptor tables and assembly code have effects outside
  the machine model of this development. The user programs under \<open>examples\<close> and the host programs under \<open>utils\<close> run outside the
  kernel. Memory is not exhausted where the code does not test for it: the allocations of a cache entry and of a wait status succeed and return new
  objects, and the array on the stack of \<open>can_allocate\<close> fits. Threads of an execution do not call \<open>thread_block\<close> and \<open>thread_unblock\<close> themselves: apart
  from the semaphores, \<open>thread_create\<close> and the idle thread only the interrupt queue of the input devices does, which is not modelled. System calls, page tables, the page and block allocators,
  partition tables, formatted output and the remaining small utilities are not modelled.
\<close>

end
